(* ===== verification/Prelude.thy ===== *)
theory Prelude
  imports Main "HOL-Library.Word" "HOL-Library.List_Lexorder" "HOL-Library.Sublist"
begin

text \<open>
  Shared vocabulary of the development: the result type of fallible Rust code, the
  machine integers, Rust's \<open>char\<close> and \<open>str\<close> (Unicode scalar values and their UTF-8
  lengths), the standard-library digit and number parsers the sources call, big-endian
  byte strings, and the generic list lemmas the component theories use.
\<close>

section \<open>Lemma collections\<close>

named_theorems lex_simps \<open>unfolding rules of the lexer's primitive moves\<close>
named_theorems codec_simps \<open>round-trip rules of the byte codecs\<close>
named_theorems coll_simps \<open>abstraction rules of the collections\<close>

section \<open>Results of fallible code\<close>

text \<open>
  Rust's \<open>Result\<close> with one more outcome: \<open>Panic\<close>, for the calls whose documentation
  says that they panic (an out-of-range radix, a slice that is not on a character
  boundary, an arithmetic overflow in a checked build).
\<close>

datatype ('e, 'a) outcome = Ok 'a | Err 'e | Panic

section \<open>Machine integers\<close>

type_synonym byte = "8 word"
type_synonym u32 = "32 word"
type_synonym u64 = "64 word"

text \<open>\<open>i64\<close> is kept as a 64-bit word; its value is \<^const>\<open>sint\<close>.\<close>

type_synonym i64 = "64 word"

abbreviation (input) i64_max :: int where "i64_max \<equiv> 9223372036854775807"
abbreviation (input) i64_min :: int where "i64_min \<equiv> - 9223372036854775808"

section \<open>Characters and strings\<close>

text \<open>
  A Rust \<open>char\<close> is a Unicode scalar value; it is modelled by its code point.  A
  \<open>String\<close> is the list of its characters, and offsets into it count UTF-8 bytes.
\<close>

type_synonym uchar = nat
type_synonym str = "uchar list"

definition is_scalar :: "uchar \<Rightarrow> bool" where
  "is_scalar c \<longleftrightarrow> c < 0x110000 \<and> \<not> (0xD800 \<le> c \<and> c \<le> 0xDFFF)"

definition len_utf8 :: "uchar \<Rightarrow> nat" where
  "len_utf8 c = (if c < 0x80 then 1 else if c < 0x800 then 2 else if c < 0x10000 then 3 else 4)"

definition utf8_len :: "str \<Rightarrow> nat" where
  "utf8_len s = sum_list (map len_utf8 s)"

lemma len_utf8_pos [simp]: "0 < len_utf8 c"
  by (simp add: len_utf8_def)

lemma len_utf8_ge1 [simp]: "Suc 0 \<le> len_utf8 c"
  by (simp add: len_utf8_def)

lemma utf8_len_Nil [simp]: "utf8_len [] = 0"
  by (simp add: utf8_len_def)

lemma utf8_len_Cons [simp]: "utf8_len (c # cs) = len_utf8 c + utf8_len cs"
  by (simp add: utf8_len_def)

lemma utf8_len_append [simp]: "utf8_len (xs @ ys) = utf8_len xs + utf8_len ys"
  by (simp add: utf8_len_def)

lemma utf8_len_eq_0 [simp]: "utf8_len s = 0 \<longleftrightarrow> s = []"
  by (cases s) (auto simp: len_utf8_def)

lemma length_le_utf8_len: "length s \<le> utf8_len s"
  by (induction s) (auto simp: len_utf8_def)

text \<open>\<open>&s[..n]\<close> and \<open>&s[n..]\<close>: \<open>None\<close> is the panic of an index off a boundary.\<close>

fun split_bytes :: "nat \<Rightarrow> str \<Rightarrow> (str \<times> str) option" where
  "split_bytes n [] = (if n = 0 then Some ([], []) else None)"
| "split_bytes n (c # cs) =
     (if n = 0 then Some ([], c # cs)
      else if len_utf8 c \<le> n
      then map_option (\<lambda>(a, b). (c # a, b)) (split_bytes (n - len_utf8 c) cs)
      else None)"

text \<open>ASCII text as a Rust string, and the ASCII characters the sources name.\<close>

abbreviation lit :: "string \<Rightarrow> str" where "lit s \<equiv> map of_char s"

definition is_ascii_digit :: "uchar \<Rightarrow> bool" where
  "is_ascii_digit c \<longleftrightarrow> 48 \<le> c \<and> c \<le> 57"

definition is_ascii_hexdigit :: "uchar \<Rightarrow> bool" where
  "is_ascii_hexdigit c \<longleftrightarrow>
     is_ascii_digit c \<or> (65 \<le> c \<and> c \<le> 70) \<or> (97 \<le> c \<and> c \<le> 102)"

definition is_ascii_alphanumeric :: "uchar \<Rightarrow> bool" where
  "is_ascii_alphanumeric c \<longleftrightarrow>
     is_ascii_digit c \<or> (65 \<le> c \<and> c \<le> 90) \<or> (97 \<le> c \<and> c \<le> 122)"

section \<open>Digits and number parsing of the standard library\<close>

text \<open>The value of a digit character in base 36, \<open>None\<close> for a character that is no digit.\<close>

definition digit36 :: "uchar \<Rightarrow> nat option" where
  "digit36 c =
     (if is_ascii_digit c then Some (c - 48)
      else if 97 \<le> c \<and> c \<le> 122 then Some (c - 87)
      else if 65 \<le> c \<and> c \<le> 90 then Some (c - 55)
      else None)"

text \<open>\<open>char::to_digit(radix)\<close>; it panics for a radix outside 2 to 36.\<close>

definition to_digit :: "nat \<Rightarrow> uchar \<Rightarrow> (unit, nat) outcome" where
  "to_digit radix c =
     (if radix < 2 \<or> 36 < radix then Panic
      else case digit36 c of
             None \<Rightarrow> Err ()
           | Some d \<Rightarrow> if d < radix then Ok d else Err ())"

text \<open>The value of a digit string, most significant digit first.\<close>

definition digits_value :: "nat \<Rightarrow> str \<Rightarrow> nat" where
  "digits_value radix s = foldl (\<lambda>a c. a * radix + (case digit36 c of Some d \<Rightarrow> d | None \<Rightarrow> 0)) 0 s"

text \<open>Decimal text of a natural number and of an integer (\<open>to_string\<close>).\<close>

fun nat_text :: "nat \<Rightarrow> str" where
  "nat_text n = (if n < 10 then [48 + n] else nat_text (n div 10) @ [48 + n mod 10])"

declare nat_text.simps [simp del]

definition int_text :: "int \<Rightarrow> str" where
  "int_text i = (if i < 0 then 45 # nat_text (nat (- i)) else nat_text (nat i))"

lemma digits_value_Nil [simp]: "digits_value r [] = 0"
  by (simp add: digits_value_def)

lemma digits_value_snoc [simp]:
  "digits_value r (s @ [c]) = digits_value r s * r + (case digit36 c of Some d \<Rightarrow> d | None \<Rightarrow> 0)"
  by (simp add: digits_value_def)

lemma digit36_dec [simp]: "d < 10 \<Longrightarrow> digit36 (48 + d) = Some d"
  by (simp add: digit36_def is_ascii_digit_def)

lemma nat_text_not_Nil [simp]: "nat_text n \<noteq> []"
  by (subst nat_text.simps) simp

lemma nat_text_digits: "c \<in> set (nat_text n) \<Longrightarrow> is_ascii_digit c"
proof (induction n rule: nat_text.induct)
  case (1 n)
  then show ?case
    by (subst (asm) (2) nat_text.simps) (auto simp: is_ascii_digit_def split: if_splits)
qed

lemma digits_value_nat_text [simp]: "digits_value 10 (nat_text n) = n"
proof (induction n rule: nat_text.induct)
  case (1 n)
  show ?case
  proof (cases "n < 10")
    case True
    then show ?thesis
      by (simp add: nat_text.simps [of n] digits_value_def)
  next
    case False
    with "1.IH" show ?thesis
      by (simp add: nat_text.simps [of n])
  qed
qed

lemma nat_text_hd_zero: "nat_text n = 48 # s \<Longrightarrow> s = []"
proof (induction n arbitrary: s rule: nat_text.induct)
  case (1 n)
  show ?case
  proof (cases "n < 10")
    case True
    with 1 show ?thesis by (simp add: nat_text.simps [of n])
  next
    case False
    with "1.prems" have eq: "nat_text (n div 10) @ [48 + n mod 10] = 48 # s"
      by (simp add: nat_text.simps [of n])
    then obtain t where t: "nat_text (n div 10) = 48 # t"
      by (cases "nat_text (n div 10)") auto
    with "1.IH" False have "t = []" by blast
    with t have "nat_text (n div 10) = [48]" by simp
    then have "digits_value 10 (nat_text (n div 10)) = 0"
      by (simp add: digits_value_def digit36_def is_ascii_digit_def)
    with False show ?thesis by simp
  qed
qed

section \<open>Generic list lemmas\<close>

lemma takeWhile_append_stop:
  "\<forall>x \<in> set xs. P x \<Longrightarrow> ys = [] \<or> \<not> P (hd ys) \<Longrightarrow> takeWhile P (xs @ ys) = xs"
  by (induction xs) (cases ys; auto)+

lemma takeWhile_all: "\<forall>x \<in> set xs. P x \<Longrightarrow> takeWhile P xs = xs"
  by (simp add: takeWhile_eq_all_conv)

lemma sint_i64_of_int: "i64_min \<le> x \<Longrightarrow> x \<le> i64_max \<Longrightarrow> sint (word_of_int x :: i64) = x"
  by (simp add: int_word_sint)

section \<open>Sorted association lists\<close>

text \<open>Ordered maps iterate their entries by ascending key; putting a key replaces or inserts.\<close>

fun put_sorted :: "'k :: linorder \<Rightarrow> 'v \<Rightarrow> ('k \<times> 'v) list \<Rightarrow> ('k \<times> 'v) list" where
  "put_sorted k v [] = [(k, v)]"
| "put_sorted k v ((j, w) # al) =
     (if k < j then (k, v) # (j, w) # al else if k = j then (k, v) # al else (j, w) # put_sorted k v al)"

lemma put_sorted_keys: "fst ` set (put_sorted k v al) = insert k (fst ` set al)"
proof (induction al)
  case (Cons e al)
  then show ?case by (cases e) (simp add: insert_commute)
qed simp

lemma put_sorted_sorted: "sorted_wrt (<) (map fst al) \<Longrightarrow> sorted_wrt (<) (map fst (put_sorted k v al))"
proof (induction al)
  case (Cons e al)
  obtain j w where e: "e = (j, w)" by (cases e)
  have "j < k \<Longrightarrow> \<forall>i \<in> fst ` set (put_sorted k v al). j < i"
    using Cons.prems by (auto simp: e put_sorted_keys)
  with Cons show ?case by (auto simp: e)
qed simp

lemma map_of_put_sorted: "sorted_wrt (<) (map fst al) \<Longrightarrow> map_of (put_sorted k v al) = (map_of al)(k \<mapsto> v)"
proof (induction al)
  case (Cons e al)
  obtain j w where e: "e = (j, w)" by (cases e)
  have "k < j \<Longrightarrow> map_of al k = None"
    using Cons.prems by (force simp: e map_of_eq_None_iff)
  with Cons show ?case by (auto simp: e fun_eq_iff)
qed simp

end
