(* ===== verification/Rust_Numbers.thy ===== *)
theory Rust_Numbers
  imports Prelude
begin

text \<open>
  The number parsers of Rust's standard library that the reader calls: \<open>str::parse\<close> to
  \<open>u32\<close>, \<open>i64\<close> and \<open>f64\<close>, \<open>from_str_radix\<close>, and the wrapping \<open>u128\<close> arithmetic of
  radix literals.  A double is the 64-bit pattern of its IEEE-754 encoding.
\<close>

section \<open>Integers\<close>

text \<open>\<open>from_str_radix\<close> on a string of digits: \<open>None\<close> for an empty string, a character that
  is no digit of the radix, or a value beyond \<open>bound\<close>.\<close>

definition valid_digits :: "nat \<Rightarrow> str \<Rightarrow> bool" where
  "valid_digits radix s \<longleftrightarrow>
     s \<noteq> [] \<and> list_all (\<lambda>c. case digit36 c of Some d \<Rightarrow> d < radix | None \<Rightarrow> False) s"

definition parse_unsigned :: "nat \<Rightarrow> nat \<Rightarrow> str \<Rightarrow> nat option" where
  "parse_unsigned radix bound s =
     (if valid_digits radix s \<and> digits_value radix s \<le> bound
      then Some (digits_value radix s) else None)"

text \<open>\<open>str::parse::<i64>()\<close>: an optional sign and decimal digits, in range.\<close>

definition parse_i64 :: "str \<Rightarrow> i64 option" where
  "parse_i64 s =
     (let neg = (s \<noteq> [] \<and> hd s = 45);
          ds = (if s \<noteq> [] \<and> (hd s = 45 \<or> hd s = 43) then tl s else s);
          v = int (digits_value 10 ds)
      in if valid_digits 10 ds \<and> (if neg then v \<le> - i64_min else v \<le> i64_max)
         then Some (word_of_int (if neg then - v else v)) else None)"

section \<open>Doubles\<close>

fun bit_length :: "nat \<Rightarrow> nat" where
  "bit_length n = (if n = 0 then 0 else Suc (bit_length (n div 2)))"

declare bit_length.simps [simp del]

text \<open>Rounding of the quotient \<open>n / d\<close> to the nearest natural number, ties to even.\<close>

definition round_half_even :: "nat \<Rightarrow> nat \<Rightarrow> nat" where
  "round_half_even n d =
     (let q = n div d; r = n mod d
      in if 2 * r < d then q else if d < 2 * r then Suc q
         else if even q then q else Suc q)"

text \<open>
  The magnitude bits of the double nearest to \<open>n / d\<close>.  The exponent is chosen so that
  the scaled significand has 53 bits, or is -1074 for subnormal numbers; a significand
  that rounds up to \<open>2 ^ 53\<close> carries into the exponent field.
\<close>

definition f64_magnitude :: "nat \<Rightarrow> nat \<Rightarrow> nat" where
  "f64_magnitude n d =
     (if n = 0 then 0
      else
        let k0 = int (bit_length n) - int (bit_length d);
            ge = (if 0 \<le> k0 then d * 2 ^ nat k0 \<le> n else d \<le> n * 2 ^ nat (- k0));
            k = (if ge then k0 else k0 - 1);
            e = max (k - 52) (- 1074);
            m = (if 0 \<le> e then round_half_even n (d * 2 ^ nat e)
                 else round_half_even (n * 2 ^ nat (- e)) d);
            bits = nat (e + 1074) * 2 ^ 52 + m
        in min bits (0x7FF * 2 ^ 52))"

definition f64_of_decimal :: "bool \<Rightarrow> nat \<Rightarrow> int \<Rightarrow> u64" where
  "f64_of_decimal neg digits exp10 =
     word_of_nat ((if neg then 2 ^ 63 else 0) +
       (if 0 \<le> exp10 then f64_magnitude (digits * 10 ^ nat exp10) 1
        else f64_magnitude digits (10 ^ nat (- exp10))))"

text \<open>
  \<open>str::parse::<f64>()\<close> on the numerals the lexer builds: optional sign, digits, optional
  fraction, optional exponent.  The names \<open>inf\<close> and \<open>nan\<close>, which the standard library
  also accepts, never reach it: the lexer's numerals have a digit first.
\<close>

definition parse_exponent :: "str \<Rightarrow> int option" where
  "parse_exponent s =
     (case s of
        [] \<Rightarrow> Some 0
      | c # t \<Rightarrow>
          if c = 101 \<or> c = 69 then
            (let neg = (t \<noteq> [] \<and> hd t = 45);
                 ds = (if t \<noteq> [] \<and> (hd t = 45 \<or> hd t = 43) then tl t else t)
             in if valid_digits 10 ds
                then Some (if neg then - int (digits_value 10 ds) else int (digits_value 10 ds))
                else None)
          else None)"

definition parse_f64 :: "str \<Rightarrow> u64 option" where
  "parse_f64 s =
     (let neg = (s \<noteq> [] \<and> hd s = 45);
          t = (if s \<noteq> [] \<and> (hd s = 45 \<or> hd s = 43) then tl s else s);
          ip = takeWhile is_ascii_digit t;
          t1 = dropWhile is_ascii_digit t;
          has_dot = (t1 \<noteq> [] \<and> hd t1 = 46);
          fp = (if has_dot then takeWhile is_ascii_digit (tl t1) else []);
          t2 = (if has_dot then dropWhile is_ascii_digit (tl t1) else t1)
      in if ip = [] \<and> fp = [] then None
         else map_option
                (\<lambda>e. f64_of_decimal neg (digits_value 10 (ip @ fp)) (e - int (length fp)))
                (parse_exponent t2))"

text \<open>The symbolic doubles.\<close>

definition f64_infinity :: u64 where "f64_infinity = 0x7FF0000000000000"
definition f64_neg_infinity :: u64 where "f64_neg_infinity = 0xFFF0000000000000"
definition f64_nan :: u64 where "f64_nan = 0x7FF8000000000000"

section \<open>Facts about the parsers\<close>

lemma valid_digits_nat_text: "valid_digits 10 (nat_text n)"
  by (auto simp: valid_digits_def list_all_iff digit36_def is_ascii_digit_def
      dest!: nat_text_digits)

lemma hd_nat_text_digit: "is_ascii_digit (hd (nat_text n))"
  by (rule nat_text_digits [of _ n]) simp

text \<open>Parsing the decimal text of an integer succeeds exactly within the range of \<open>i64\<close>.\<close>

lemma parse_i64_text:
  "parse_i64 (int_text i) = (if i64_min \<le> i \<and> i \<le> i64_max then Some (word_of_int i) else None)"
proof (cases "i < 0")
  case True
  then show ?thesis
    by (simp add: parse_i64_def int_text_def valid_digits_nat_text)
next
  case False
  have "is_ascii_digit (hd (nat_text (nat i)))" by (rule hd_nat_text_digit)
  then have "hd (nat_text (nat i)) \<noteq> 45" "hd (nat_text (nat i)) \<noteq> 43"
    by (auto simp: is_ascii_digit_def)
  with False show ?thesis
    by (simp add: parse_i64_def int_text_def valid_digits_nat_text)
qed

end
