(* ===== verification/Byte_Codec.thy ===== *)
theory Byte_Codec
  imports Rust_Numbers
begin

text \<open>
  Bytes and the text they carry, and the contract of a self-delimiting byte codec: what a
  decoder that follows an encoder promises, and what every client gets from it.
\<close>

section \<open>ASCII and UTF-8\<close>

definition ascii_bytes :: "str \<Rightarrow> byte list" where
  "ascii_bytes s = map of_nat s"

definition byte_text :: "byte list \<Rightarrow> str" where
  "byte_text bs = map unat bs"

definition is_digit_byte :: "byte \<Rightarrow> bool" where
  "is_digit_byte b \<longleftrightarrow> 48 \<le> b \<and> b \<le> 57"

definition byte_at :: "byte list \<Rightarrow> nat \<Rightarrow> byte option" where
  "byte_at bs i = (if i < length bs then Some (bs ! i) else None)"

lemma digit_byte: "is_ascii_digit c \<Longrightarrow> is_digit_byte (of_nat c)"
  by (auto simp: is_ascii_digit_def is_digit_byte_def word_le_nat_alt unat_of_nat)

lemma ascii_bytes_append [simp]: "ascii_bytes (s @ t) = ascii_bytes s @ ascii_bytes t"
  and ascii_bytes_Nil [simp]: "ascii_bytes [] = []"
  and ascii_bytes_Cons [simp]: "ascii_bytes (c # s) = of_nat c # ascii_bytes s"
  and length_ascii_bytes [simp]: "length (ascii_bytes s) = length s"
  by (simp_all add: ascii_bytes_def)

lemma byte_text_ascii: "\<forall>c \<in> set s. c < 256 \<Longrightarrow> byte_text (ascii_bytes s) = s"
  by (induction s) (auto simp: byte_text_def unat_of_nat)

text \<open>The UTF-8 encoding of a code point, as numbers.\<close>

definition utf8_units :: "uchar \<Rightarrow> nat list" where
  "utf8_units c =
     (if c < 128 then [c]
      else if c < 2048 then [192 + c div 64, 128 + c mod 64]
      else if c < 65536 then [224 + c div 4096, 128 + c div 64 mod 64, 128 + c mod 64]
      else [240 + c div 262144, 128 + c div 4096 mod 64, 128 + c div 64 mod 64, 128 + c mod 64])"

definition utf8_bytes :: "str \<Rightarrow> byte list" where
  "utf8_bytes s = ascii_bytes (concat (map utf8_units s))"

text \<open>The length of a sequence by its first unit, and the code point it spells.\<close>

definition utf8_width :: "nat \<Rightarrow> nat" where
  "utf8_width u = (if u < 128 then 1 else if u < 224 then 2 else if u < 240 then 3 else 4)"

fun utf8_code :: "nat list \<Rightarrow> uchar" where
  "utf8_code [a] = a"
| "utf8_code [a, b] = (a - 192) * 64 + (b - 128)"
| "utf8_code [a, b, c] = (a - 224) * 4096 + (b - 128) * 64 + (c - 128)"
| "utf8_code [a, b, c, d] = (a - 240) * 262144 + (b - 128) * 4096 + (c - 128) * 64 + (d - 128)"
| "utf8_code _ = 0"

text \<open>
  \<open>str::from_utf8\<close>: sequences must be complete, in shortest form and spell a scalar value,
  which is what re-encoding the code point checks.
\<close>

definition utf8_first :: "nat list \<Rightarrow> uchar option" where
  "utf8_first us =
     (let chunk = take (utf8_width (hd us)) us; c = utf8_code chunk
      in if is_scalar c \<and> utf8_units c = chunk then Some c else None)"

fun utf8_chars :: "nat list \<Rightarrow> str option" where
  "utf8_chars [] = Some []"
| "utf8_chars (u # us) =
     (case utf8_first (u # us) of
        Some c \<Rightarrow> map_option (Cons c) (utf8_chars (drop (utf8_width u - 1) us))
      | None \<Rightarrow> None)"

definition from_utf8 :: "byte list \<Rightarrow> str option" where
  "from_utf8 bs = utf8_chars (byte_text bs)"

lemma utf8_units_code: "utf8_code (utf8_units c) = c"
proof -
  have d: "c div 4096 = c div 64 div 64" "c div 262144 = c div 64 div 64 div 64"
    by (simp_all add: div_mult2_eq [symmetric])
  have "x div 64 * 64 + x mod 64 = x" for x :: nat by simp
  from this [of c] this [of "c div 64"] this [of "c div 64 div 64"]
  have "c div 4096 * 4096 + c div 64 mod 64 * 64 + c mod 64 = c"
    "c div 262144 * 262144 + c div 4096 mod 64 * 4096 + c div 64 mod 64 * 64 + c mod 64 = c"
    unfolding d by linarith+
  then show ?thesis by (simp add: utf8_units_def)
qed

lemma utf8_units_width:
  assumes "is_scalar c"
  obtains u us where "utf8_units c = u # us" "length us = utf8_width u - 1" "\<forall>v \<in> set (u # us). v < 256"
    "0 < utf8_width u"
proof -
  have c: "c < 1114112" using assms by (auto simp: is_scalar_def)
  consider "c < 128" | "128 \<le> c" "c < 2048" | "2048 \<le> c" "c < 65536" | "65536 \<le> c" by linarith
  then show thesis
  proof cases
    case 1
    then show ?thesis by (intro that [of c "[]"]) (auto simp: utf8_units_def utf8_width_def)
  next
    case 2
    then have "c div 64 < 32" by (simp add: div_less_iff_less_mult)
    with 2 show ?thesis
      by (intro that [of "192 + c div 64" "[128 + c mod 64]"]) (auto simp: utf8_units_def utf8_width_def)
  next
    case 3
    then have "c div 4096 < 16" by (simp add: div_less_iff_less_mult)
    with 3 show ?thesis
      by (intro that [of "224 + c div 4096" "[128 + c div 64 mod 64, 128 + c mod 64]"])
        (auto simp: utf8_units_def utf8_width_def)
  next
    case 4
    have "c div 262144 < 5" using c by (simp add: div_less_iff_less_mult)
    with 4 show ?thesis
      by (intro that [of "240 + c div 262144" "[128 + c div 4096 mod 64, 128 + c div 64 mod 64, 128 + c mod 64]"])
        (auto simp: utf8_units_def utf8_width_def)
  qed
qed

lemma utf8_chars_units: "list_all is_scalar s \<Longrightarrow> utf8_chars (concat (map utf8_units s)) = Some s"
proof (induction s)
  case (Cons c s)
  then obtain u us where u: "utf8_units c = u # us" "length us = utf8_width u - 1" "0 < utf8_width u"
    by (auto elim: utf8_units_width)
  have "take (utf8_width u) (u # us @ concat (map utf8_units s)) = u # us"
    using u(2,3) by (cases "utf8_width u") simp_all
  moreover have "drop (utf8_width u - 1) (us @ concat (map utf8_units s)) = concat (map utf8_units s)"
    using u(2) by simp
  ultimately show ?case
    using Cons u(1) utf8_units_code [of c] by (simp add: utf8_first_def Let_def)
qed simp

lemma from_utf8_bytes: "list_all is_scalar s \<Longrightarrow> from_utf8 (utf8_bytes s) = Some s"
proof -
  assume s: "list_all is_scalar s"
  then have "\<forall>v \<in> set (concat (map utf8_units s)). v < 256"
    by (induction s) (auto elim!: utf8_units_width)
  then show ?thesis
    using utf8_chars_units [OF s] by (simp add: from_utf8_def utf8_bytes_def byte_text_ascii)
qed

lemma utf8_chars_sound:
  "utf8_chars us = Some s \<Longrightarrow> concat (map utf8_units s) = us \<and> list_all is_scalar s"
proof (induction us arbitrary: s rule: utf8_chars.induct)
  case (2 u us)
  define chunk where "chunk = take (utf8_width u) (u # us)"
  from "2.prems" obtain s' where s: "is_scalar (utf8_code chunk)" "utf8_units (utf8_code chunk) = chunk"
    "utf8_chars (drop (utf8_width u - 1) us) = Some s'" "s = utf8_code chunk # s'"
    by (auto simp: utf8_first_def Let_def chunk_def split: if_splits)
  then have "utf8_first (u # us) = Some (utf8_code chunk)"
    by (simp add: utf8_first_def chunk_def)
  from "2.IH" [OF this s(3)] have "concat (map utf8_units s') = drop (utf8_width u - 1) us"
    "list_all is_scalar s'" by simp_all
  moreover have "chunk @ drop (utf8_width u - 1) us = u # us"
    unfolding chunk_def by (cases "utf8_width u") (simp_all add: utf8_width_def split: if_splits)
  ultimately show ?case using s by simp
qed simp

lemma from_utf8_sound:
  assumes "from_utf8 bs = Some s"
  shows "utf8_bytes s = bs" "list_all is_scalar s"
proof -
  from utf8_chars_sound [OF assms [unfolded from_utf8_def]]
  show "list_all is_scalar s" "utf8_bytes s = bs"
    by (simp_all add: utf8_bytes_def ascii_bytes_def byte_text_def map_idI)
qed

section \<open>The contract of a codec\<close>

text \<open>
  A decoder reads one value from the front of a buffer and returns it with the rest.  The
  provider promises that decoding undoes encoding whatever follows, for well-formed values
  in buffers that fit into memory.
\<close>

locale prefix_codec =
  fixes enc :: "'a \<Rightarrow> byte list" and dec :: "byte list \<Rightarrow> ('a \<times> byte list) option"
    and wf :: "'a \<Rightarrow> bool" and fits :: "byte list \<Rightarrow> bool"
  assumes dec_enc: "wf v \<Longrightarrow> fits (enc v @ rest) \<Longrightarrow> dec (enc v @ rest) = Some (v, rest)"
begin

lemma unique_split:
  assumes "wf v" "wf w" "fits (enc v @ r)" "enc v @ r = enc w @ s"
  shows "v = w" "r = s"
  using dec_enc [OF assms(1,3)] dec_enc [OF assms(2), of s] assms(3,4) by simp_all

lemma enc_inject: "wf v \<Longrightarrow> wf w \<Longrightarrow> fits (enc v) \<Longrightarrow> enc v = enc w \<longleftrightarrow> v = w"
  using unique_split [of v w "[]" "[]"] by auto

lemma prefix_free: "wf v \<Longrightarrow> wf w \<Longrightarrow> fits (enc w) \<Longrightarrow> prefix (enc v) (enc w) \<Longrightarrow> v = w"
  using unique_split [of w v "[]"] by (auto simp: prefix_def)

end

end
