(* ===== verification/Instant.thy ===== *)
theory Instant
  imports Byte_Codec "HOL-Library.Signed_Division" "HOL-Library.Monad_Syntax"
begin

text \<open>
  The \<open>#inst\<close> conversions of \<^verbatim>\<open>crates/cljrs-types/src/instant.rs\<close>: RFC 3339 text to epoch
  milliseconds and back, over the proleptic Gregorian calendar.  Rust's truncating
  division on \<open>i64\<close> is \<open>sdiv\<close> on integers; the one subtraction that can leave the range
  of \<open>i64\<close> is checked explicitly.
\<close>

section \<open>Civil dates and day numbers\<close>

definition days_from_civil :: "int \<Rightarrow> int \<Rightarrow> int \<Rightarrow> int" where
  "days_from_civil y0 m d =
     (let y = (if m \<le> 2 then y0 - 1 else y0);
          era = (if y \<ge> 0 then y else y - 399) sdiv 400;
          yoe = y - era * 400;
          mp = (m + 9) smod 12;
          doy = (153 * mp + 2) sdiv 5 + d - 1;
          doe = yoe * 365 + yoe sdiv 4 - yoe sdiv 100 + doy
      in era * 146097 + doe - 719468)"

definition civil_from_days :: "int \<Rightarrow> int \<times> int \<times> int" where
  "civil_from_days z0 =
     (let z = z0 + 719468;
          era = (if z \<ge> 0 then z else z - 146096) sdiv 146097;
          doe = z - era * 146097;
          yoe = (doe - doe sdiv 1460 + doe sdiv 36524 - doe sdiv 146096) sdiv 365;
          y = yoe + era * 400;
          doy = doe - (365 * yoe + yoe sdiv 4 - yoe sdiv 100);
          mp = (5 * doy + 2) sdiv 153;
          d = doy - (153 * mp + 2) sdiv 5 + 1;
          m = (if mp < 10 then mp + 3 else mp - 9)
      in (if m \<le> 2 then y + 1 else y, m, d))"

text \<open>The calendar the conversions are meant for.\<close>

definition leap_year :: "int \<Rightarrow> bool" where
  "leap_year y \<longleftrightarrow> y mod 4 = 0 \<and> (y mod 100 \<noteq> 0 \<or> y mod 400 = 0)"

definition month_length :: "int \<Rightarrow> int \<Rightarrow> int" where
  "month_length y m =
     (if m = 2 then (if leap_year y then 29 else 28) else if m \<in> {4, 6, 9, 11} then 30 else 31)"

definition valid_date :: "int \<Rightarrow> int \<Rightarrow> int \<Rightarrow> bool" where
  "valid_date y m d \<longleftrightarrow> 1 \<le> m \<and> m \<le> 12 \<and> 1 \<le> d \<and> d \<le> month_length y m"

definition next_date :: "int \<times> int \<times> int \<Rightarrow> int \<times> int \<times> int" where
  "next_date x = (case x of (y, m, d) \<Rightarrow>
     if d < month_length y m then (y, m, d + 1)
     else if m < 12 then (y, m + 1, 1) else (y + 1, 1, 1))"

lemma sdiv_nonneg: "0 \<le> a \<Longrightarrow> 0 < b \<Longrightarrow> a sdiv b = a div (b::int)"
  by (cases "a = 0") (simp_all add: signed_divide_int_def)

lemma smod_nonneg: "0 \<le> a \<Longrightarrow> 0 < b \<Longrightarrow> a smod b = a mod (b::int)"
  by (cases "a = 0") (simp_all add: signed_modulo_int_def)

lemma sdiv_floor:
  assumes "0 < (b::int)" "c = b - 1"
  shows "(if a \<ge> 0 then a else a - c) sdiv b = a div b"
proof (cases "0 \<le> a")
  case True
  with assms show ?thesis by (simp add: sdiv_nonneg)
next
  case False
  with assms have "(a - c) sdiv b = - ((b - 1 - a) div b)"
    by (simp add: signed_divide_int_def)
  also have "\<dots> = a div b"
  proof -
    have "a = b * (a div b) + a mod b" "0 \<le> a mod b" "a mod b < b" using assms by simp_all
    then have "(b - 1 - a) div b = - (a div b)"
      by (intro int_div_pos_eq [of _ _ _ "b - 1 - a mod b"]) (auto simp: algebra_simps)
    then show ?thesis by simp
  qed
  finally show ?thesis using False by simp
qed

text \<open>Both conversions over floor division.\<close>

definition year_start :: "int \<Rightarrow> int" where
  "year_start yoe = yoe * 365 + yoe div 4 - yoe div 100"

definition month_start :: "int \<Rightarrow> int" where
  "month_start mp = (153 * mp + 2) div 5"

definition year_of :: "int \<Rightarrow> int" where
  "year_of doe = (doe - doe div 1460 + doe div 36524 - doe div 146096) div 365"

lemma days_from_civil_eq:
  assumes "1 \<le> m" "m \<le> 12"
  shows "days_from_civil y0 m d =
    (let y = (if m \<le> 2 then y0 - 1 else y0)
     in y div 400 * 146097 + year_start (y mod 400) + month_start ((m + 9) mod 12) + d - 1 - 719468)"
proof -
  define y where "y = (if m \<le> 2 then y0 - 1 else y0)"
  have era: "(if y \<ge> 0 then y else y - 399) sdiv 400 = y div 400"
    by (rule sdiv_floor) simp_all
  have yoe: "y - y div 400 * 400 = y mod 400" by (simp add: minus_div_mult_eq_mod)
  have mp: "(m + 9) smod 12 = (m + 9) mod 12" using assms by (simp add: smod_nonneg)
  show ?thesis
    unfolding days_from_civil_def y_def [symmetric] Let_def era yoe mp
    by (simp add: sdiv_nonneg year_start_def month_start_def)
qed

lemma civil_from_days_eq:
  "civil_from_days z0 =
    (let z = z0 + 719468; doe = z mod 146097; yoe = year_of doe; doy = doe - year_start yoe;
         mp = (5 * doy + 2) sdiv 153; m = (if mp < 10 then mp + 3 else mp - 9)
     in (yoe + z div 146097 * 400 + (if m \<le> 2 then 1 else 0), m, doy - (153 * mp + 2) sdiv 5 + 1))"
proof -
  define z where "z = z0 + 719468"
  have era: "(if z \<ge> 0 then z else z - 146096) sdiv 146097 = z div 146097"
    by (rule sdiv_floor) simp_all
  have doe: "z - z div 146097 * 146097 = z mod 146097" by (simp add: minus_div_mult_eq_mod)
  define doe' where "doe' = z mod 146097"
  have d: "0 \<le> doe'" by (simp add: doe'_def)
  have "doe' div 1460 \<le> doe'" "doe' div 146096 \<le> doe' div 36524"
    using d by (simp_all add: div_le_dividend zdiv_mono2)
  then have nn: "0 \<le> doe' - doe' div 1460 + doe' div 36524 - doe' div 146096" by simp
  then have yoe: "(doe' - doe' sdiv 1460 + doe' sdiv 36524 - doe' sdiv 146096) sdiv 365 = year_of doe'"
    using d by (simp add: sdiv_nonneg year_of_def)
  have "0 \<le> year_of doe'" using nn by (simp add: year_of_def)
  then show ?thesis
    unfolding civil_from_days_def z_def [symmetric] Let_def era doe doe'_def [symmetric] yoe
    by (simp add: sdiv_nonneg year_start_def algebra_simps)
qed

lemma div_succ:
  assumes "0 < (n::int)"
  shows "(a + 1) div n = a div n + (if n dvd a + 1 then 1 else 0)"
proof (cases "n dvd a + 1")
  case True
  then obtain k where "a + 1 = n * k" by (elim dvdE)
  then have "a = n * (k - 1) + (n - 1)" by (simp add: algebra_simps)
  then have "a div n = k - 1" using assms int_div_pos_eq [of a n "k - 1" "n - 1"] by simp
  with True \<open>a + 1 = n * k\<close> assms show ?thesis by simp
next
  case False
  obtain q r where qr: "q = a div n" "a = n * q + r" "0 \<le> r" "r < n"
    using assms by (metis mult_div_mod_eq pos_mod_sign pos_mod_bound)
  have "r + 1 \<noteq> n"
  proof
    assume "r + 1 = n"
    then have "a + 1 = n * (q + 1)" using qr(2) by (simp add: algebra_simps)
    with False show False by simp
  qed
  with qr int_div_pos_eq [of "a + 1" n q "r + 1"] have "(a + 1) div n = q" by simp
  with False qr(1) show ?thesis by simp
qed

lemma year_of_mono:
  assumes "a \<le> b"
  shows "year_of a \<le> year_of b"
proof -
  let ?g = "\<lambda>x::int. x - x div 1460 + x div 36524 - x div 146096"
  have step: "?g x \<le> ?g (x + 1)" for x
  proof -
    have "36524 dvd x + 1" if "146096 dvd x + 1"
      using dvd_trans [OF _ that, of 36524] by simp
    then show ?thesis by (simp add: div_succ)
  qed
  from assms have "?g a \<le> ?g b"
  proof (induction b rule: int_ge_induct)
    case (step x)
    with \<open>\<And>x. ?g x \<le> ?g (x + 1)\<close> [of x] show ?case by linarith
  qed simp
  then show ?thesis unfolding year_of_def by (rule zdiv_mono1) simp
qed

lemma year_of_ends:
  "\<forall>y \<in> {0..<400}. year_of (year_start y) = y \<and>
     year_of (year_start y + (if leap_year (y + 1) then 365 else 364)) = y"
proof -
  have "list_all (\<lambda>y. year_of (year_start y) = y \<and>
     year_of (year_start y + (if leap_year (y + 1) then 365 else 364)) = y) [0..399]"
    by code_simp
  then show ?thesis by (auto simp: list_all_iff)
qed

text \<open>A day of a March-based year: its length, and the month and day in it.\<close>

definition year_last :: "int \<Rightarrow> int" where
  "year_last y = (if leap_year (y + 1) then 365 else 364)"

lemma year_of_day:
  assumes "0 \<le> y" "y < 400" "0 \<le> doy" "doy \<le> year_last y"
  shows "year_of (year_start y + doy) = y"
proof -
  from assms year_of_ends have
    "year_of (year_start y) = y" "year_of (year_start y + year_last y) = y"
    by (simp_all add: year_last_def)
  with year_of_mono [of "year_start y" "year_start y + doy"]
    year_of_mono [of "year_start y + doy" "year_start y + year_last y"] assms
  show ?thesis by simp
qed

lemma leap_year_mod: "leap_year (y mod 400 + 1) = leap_year (y + 1)"
proof -
  have eq: "(y mod 400 + 1) mod 400 = (y + 1) mod 400" by (rule mod_add_left_eq)
  have 4: "x mod 400 mod 4 = x mod 4" and 100: "x mod 400 mod 100 = x mod 100" for x :: int
    by (rule mod_mod_cancel, simp)+
  have "(y mod 400 + 1) mod 4 = (y + 1) mod 4"
    using arg_cong [OF eq, of "\<lambda>x. x mod 4"] unfolding 4 .
  moreover have "(y mod 400 + 1) mod 100 = (y + 1) mod 100"
    using arg_cong [OF eq, of "\<lambda>x. x mod 100"] unfolding 100 .
  ultimately show ?thesis by (simp only: leap_year_def eq)
qed

definition march_month_length :: "int \<Rightarrow> int \<Rightarrow> int" where
  "march_month_length y mp = (if mp < 10 then month_length y (mp + 3) else month_length (y + 1) (mp - 9))"

lemma march_months:
  "march_month_length y 0 = 31" "march_month_length y 1 = 30" "march_month_length y 2 = 31"
  "march_month_length y 3 = 30" "march_month_length y 4 = 31" "march_month_length y 5 = 31"
  "march_month_length y 6 = 30" "march_month_length y 7 = 31" "march_month_length y 8 = 30"
  "march_month_length y 9 = 31" "march_month_length y 10 = 31"
  "march_month_length y 11 = year_last y - 336"
  by (simp_all add: march_month_length_def month_length_def year_last_def)

lemma month_starts:
  "month_start 0 = 0" "month_start 1 = 31" "month_start 2 = 61" "month_start 3 = 92"
  "month_start 4 = 122" "month_start 5 = 153" "month_start 6 = 184" "month_start 7 = 214"
  "month_start 8 = 245" "month_start 9 = 275" "month_start 10 = 306" "month_start 11 = 337"
  by (simp_all add: month_start_def)

lemma year_last_bounds: "364 \<le> year_last y" "year_last y \<le> 365"
  by (simp_all add: year_last_def)

lemma month_cases:
  assumes "0 \<le> mp" "mp \<le> (11::int)"
  obtains "mp = 0" | "mp = 1" | "mp = 2" | "mp = 3" | "mp = 4" | "mp = 5" | "mp = 6" | "mp = 7"
    | "mp = 8" | "mp = 9" | "mp = 10" | "mp = 11"
proof -
  from assms have "mp = 0 \<or> mp = 1 \<or> mp = 2 \<or> mp = 3 \<or> mp = 4 \<or> mp = 5 \<or> mp = 6 \<or> mp = 7 \<or>
    mp = 8 \<or> mp = 9 \<or> mp = 10 \<or> mp = 11" by arith
  with that show thesis by blast
qed

lemma month_of_day:
  assumes "0 \<le> mp" "mp \<le> 11" "1 \<le> d" "d \<le> march_month_length y mp"
  shows "(5 * (month_start mp + d - 1) + 2) div 153 = mp" "0 \<le> month_start mp + d - 1"
    "month_start mp + d - 1 \<le> year_last y"
proof -
  let ?doy = "month_start mp + d - 1"
  have "153 * mp \<le> 5 * ?doy + 2 \<and> 5 * ?doy + 2 < 153 * mp + 153 \<and> 0 \<le> ?doy \<and> ?doy \<le> year_last y"
    using assms(1,2)
    by (rule month_cases) (use assms(3,4) year_last_bounds [of y] in \<open>simp_all add: march_months month_starts\<close>)
  then show "(5 * ?doy + 2) div 153 = mp" "0 \<le> ?doy" "?doy \<le> year_last y"
    by (auto intro: int_div_pos_eq [of _ _ _ "5 * ?doy + 2 - 153 * mp"])
qed

lemma day_in_month:
  assumes "0 \<le> doy" "doy \<le> year_last y"
  defines "mp \<equiv> (5 * doy + 2) div 153"
  shows "0 \<le> mp" "mp \<le> 11" "1 \<le> doy - month_start mp + 1"
    "doy - month_start mp + 1 \<le> march_month_length y mp"
proof -
  have lo: "153 * mp \<le> 5 * doy + 2" and hi: "5 * doy + 2 < 153 * mp + 153"
    unfolding mp_def by auto
  with assms(1,2) year_last_bounds [of y] show mp: "0 \<le> mp" "mp \<le> 11" by auto
  from mp have "1 \<le> doy - month_start mp + 1 \<and> doy - month_start mp + 1 \<le> march_month_length y mp"
    by (rule month_cases) (use lo hi assms(1,2) in \<open>simp_all add: march_months month_starts\<close>)
  then show "1 \<le> doy - month_start mp + 1" "doy - month_start mp + 1 \<le> march_month_length y mp"
    by simp_all
qed

lemma year_start_step:
  assumes "0 \<le> y" "y < 399"
  shows "year_start (y + 1) = year_start y + year_last y + 1"
proof -
  have "\<not> 400 dvd y + 1" using assms zdvd_not_zless [of "y + 1" 400] by simp
  then have leap: "leap_year (y + 1) \<longleftrightarrow> 4 dvd y + 1 \<and> \<not> 100 dvd y + 1"
    unfolding leap_year_def dvd_eq_mod_eq_0 by simp
  have "4 dvd y + 1" if "100 dvd y + 1" using that dvd_trans [of 4 100 "y + 1"] by simp
  then show ?thesis
    unfolding year_start_def year_last_def leap div_succ [OF zero_less_numeral] by auto
qed

lemma day_in_year:
  assumes "0 \<le> doe" "doe < 146097"
  obtains y doy where "0 \<le> y" "y < 400" "0 \<le> doy" "doy \<le> year_last y" "doe = year_start y + doy"
proof -
  have "\<exists>y. 0 \<le> y \<and> y < 400 \<and> year_start y \<le> x \<and> x \<le> year_start y + year_last y"
    if "0 \<le> x" "x < 146097" for x
    using that
  proof (induction x rule: int_ge_induct [of 0, consumes 1])
    case base
    show ?case by (rule exI [of _ 0]) (simp add: year_start_def year_last_def)
  next
    case (step x)
    then obtain y where y: "0 \<le> y" "y < 400" "year_start y \<le> x" "x \<le> year_start y + year_last y"
      by auto
    show ?case
    proof (cases "x + 1 \<le> year_start y + year_last y")
      case True
      with y show ?thesis by (intro exI [of _ y]) simp
    next
      case False
      with y have x: "x = year_start y + year_last y" by simp
      have "y \<noteq> 399"
        using step x by (auto simp: year_start_def year_last_def leap_year_def)
      with y have "y < 399" by simp
      with y x year_start_step [of y] show ?thesis
        by (intro exI [of _ "y + 1"]) (auto simp: year_last_def)
    qed
  qed
  from this [OF assms] that show thesis
    by (metis add_le_cancel_left diff_ge_0_iff_ge le_add_diff_inverse)
qed

text \<open>A March-based date and its day number.\<close>

lemma days_from_march:
  assumes "0 \<le> mp" "mp \<le> 11"
  shows "days_from_civil (if mp < 10 then y else y + 1) (if mp < 10 then mp + 3 else mp - 9) d =
    y div 400 * 146097 + year_start (y mod 400) + month_start mp + d - 1 - 719468"
proof -
  have "(mp + 12) mod 12 = mp" "(mp - 9 + 9) mod 12 = mp" using assms by simp_all
  with assms show ?thesis
    by (subst days_from_civil_eq) (auto simp: Let_def)
qed

lemma civil_from_march:
  assumes "0 \<le> mp" "mp \<le> 11" "1 \<le> d" "d \<le> march_month_length y mp"
  shows "civil_from_days (y div 400 * 146097 + year_start (y mod 400) + month_start mp + d - 1 - 719468) =
    (if mp < 10 then y else y + 1, if mp < 10 then mp + 3 else mp - 9, d)"
proof -
  define yoe doy where "yoe = y mod 400" and "doy = month_start mp + d - 1"
  have last: "year_last yoe = year_last y" by (simp add: year_last_def yoe_def leap_year_mod)
  from month_of_day [OF assms] have m: "(5 * doy + 2) div 153 = mp" "0 \<le> doy" "doy \<le> year_last yoe"
    by (simp_all add: doy_def last)
  have y: "0 \<le> yoe" "yoe < 400" by (simp_all add: yoe_def)
  have yo: "year_of (year_start yoe + doy) = yoe" using year_of_day [OF y m(2,3)] .
  have range: "0 \<le> year_start yoe + doy" "year_start yoe + doy < 146097"
  proof -
    have "0 \<le> year_start yoe" using y by (simp add: year_start_def)
    with m(2) show "0 \<le> year_start yoe + doy" by simp
    have "yoe div 4 - yoe div 100 \<le> 96" if "yoe < 399"
    proof (cases "yoe < 300")
      case True
      then have "yoe div 4 < 75" "0 \<le> yoe div 100" using y by (simp_all add: div_less_iff_less_mult)
      then show ?thesis by linarith
    next
      case False
      with that have "yoe div 4 < 100" "yoe div 100 = 3"
        using int_div_pos_eq [of yoe 100 3 "yoe - 300"] by (simp_all add: div_less_iff_less_mult)
      then show ?thesis by linarith
    qed
    moreover have "yoe = 399 \<Longrightarrow> year_start yoe + doy < 146097" using m(3)
      by (auto simp: year_start_def year_last_def split: if_splits)
    ultimately show "year_start yoe + doy < 146097"
      using y m(3) by (cases "yoe = 399") (auto simp: year_start_def year_last_def split: if_splits)
  qed
  define z where "z = y div 400 * 146097 + (year_start yoe + doy)"
  have z: "z div 146097 = y div 400" "z mod 146097 = year_start yoe + doy"
    using range unfolding z_def by simp_all
  have arg: "y div 400 * 146097 + year_start (y mod 400) + month_start mp + d - 1 - 719468 + 719468 = z"
    by (simp add: z_def yoe_def doy_def)
  have mp: "(5 * doy + 2) sdiv 153 = mp" "(153 * mp + 2) sdiv 5 = month_start mp"
    using m assms by (simp_all add: sdiv_nonneg month_start_def)
  show ?thesis
    unfolding civil_from_days_eq arg Let_def z yo
    using assms mp by (simp add: doy_def yoe_def)
qed

lemma march_of_date:
  assumes "valid_date y m d"
  defines "mp \<equiv> (if 3 \<le> m then m - 3 else m + 9)" and "y' \<equiv> (if 3 \<le> m then y else y - 1)"
  shows "0 \<le> mp" "mp \<le> 11" "1 \<le> d" "d \<le> march_month_length y' mp"
    "(if mp < 10 then y' else y' + 1) = y" "(if mp < 10 then mp + 3 else mp - 9) = m"
  using assms by (auto simp: valid_date_def march_month_length_def)

lemma march_of_day:
  obtains Y mp d where "0 \<le> mp" "mp \<le> 11" "1 \<le> d" "d \<le> march_month_length Y mp"
    "z = Y div 400 * 146097 + year_start (Y mod 400) + month_start mp + d - 1 - 719468"
proof -
  let ?z = "z + 719468"
  obtain yoe doy where y: "0 \<le> yoe" "yoe < 400" "0 \<le> doy" "doy \<le> year_last yoe"
    "?z mod 146097 = year_start yoe + doy"
    by (rule day_in_year [of "?z mod 146097"]) simp_all
  define mp where "mp = (5 * doy + 2) div 153"
  define Y where "Y = ?z div 146097 * 400 + yoe"
  have Y: "Y mod 400 = yoe" "Y div 400 = ?z div 146097" using y by (simp_all add: Y_def)
  have last: "year_last yoe = year_last Y" using leap_year_mod [of Y] by (simp add: year_last_def Y)
  note mo = day_in_month [OF y(3) y(4) [unfolded last], folded mp_def]
  have "?z = ?z div 146097 * 146097 + ?z mod 146097" by (rule div_mult_mod_eq [symmetric])
  then have "z = Y div 400 * 146097 + year_start (Y mod 400) + month_start mp +
      (doy - month_start mp + 1) - 1 - 719468"
    unfolding Y y(5) by linarith
  with mo that show thesis by blast
qed

lemma march_year_succ:
  "(Y + 1) div 400 * 146097 + year_start ((Y + 1) mod 400) =
   Y div 400 * 146097 + year_start (Y mod 400) + year_last Y + 1"
proof (cases "Y mod 400 = 399")
  case True
  have "Y = 400 * (Y div 400) + Y mod 400" by simp
  with True have Y: "Y + 1 = 400 * (Y div 400 + 1)" by simp
  have "leap_year (Y + 1)" using leap_year_mod [of Y] unfolding True by (simp add: leap_year_def)
  moreover have "(Y + 1) div 400 = Y div 400 + 1" "(Y + 1) mod 400 = 0"
    unfolding Y by simp_all
  ultimately show ?thesis by (simp add: True year_last_def year_start_def)
next
  case False
  have r: "0 \<le> Y mod 400" "Y mod 400 < 400" by simp_all
  have "Y + 1 = 400 * (Y div 400) + (Y mod 400 + 1)" by simp
  with False r have "(Y + 1) div 400 = Y div 400" "(Y + 1) mod 400 = Y mod 400 + 1"
    using int_div_pos_eq [of "Y + 1" 400 "Y div 400" "Y mod 400 + 1"]
      int_mod_pos_eq [of "Y + 1" 400 "Y div 400" "Y mod 400 + 1"] by linarith+
  with False r year_start_step [of "Y mod 400"] show ?thesis
    using leap_year_mod [of Y] by (simp add: year_last_def)
qed

lemma month_start_succ:
  assumes "0 \<le> mp" "mp < 11"
  shows "month_start (mp + 1) = month_start mp + march_month_length Y mp"
proof -
  from assms have "0 \<le> mp" "mp \<le> 11" "mp \<noteq> 11" by simp_all
  from this(1,2) show ?thesis
    by (rule month_cases) (use \<open>mp \<noteq> 11\<close> in \<open>simp_all add: month_starts march_months\<close>)
qed

lemma march_length_pos: "0 \<le> mp \<Longrightarrow> mp \<le> 11 \<Longrightarrow> 28 \<le> march_month_length Y mp"
  by (simp add: march_month_length_def month_length_def)

lemma civil_succ: "civil_from_days (z + 1) = next_date (civil_from_days z)"
proof -
  obtain Y mp d where m: "0 \<le> mp" "mp \<le> 11" "1 \<le> d" "d \<le> march_month_length Y mp"
    and z: "z = Y div 400 * 146097 + year_start (Y mod 400) + month_start mp + d - 1 - 719468"
    by (rule march_of_day)
  have cur: "civil_from_days z = (if mp < 10 then Y else Y + 1, if mp < 10 then mp + 3 else mp - 9, d)"
    unfolding z by (rule civil_from_march [OF m])
  have len: "month_length (if mp < 10 then Y else Y + 1) (if mp < 10 then mp + 3 else mp - 9) =
      march_month_length Y mp"
    by (simp add: march_month_length_def)
  consider "d < march_month_length Y mp" | "d = march_month_length Y mp" "mp < 11"
    | "d = march_month_length Y mp" "mp = 11"
    using m by linarith
  then show ?thesis
  proof cases
    case 1
    have "civil_from_days (z + 1) = (if mp < 10 then Y else Y + 1, if mp < 10 then mp + 3 else mp - 9, d + 1)"
      using civil_from_march [of mp "d + 1" Y] 1 m by (simp add: z algebra_simps)
    with 1 cur len show ?thesis by (simp add: next_date_def)
  next
    case 2
    have z1: "z + 1 = Y div 400 * 146097 + year_start (Y mod 400) + month_start (mp + 1) + 1 - 1 - 719468"
      using 2 m by (simp add: z month_start_succ [of mp Y])
    have "civil_from_days (z + 1) =
        (if mp + 1 < 10 then Y else Y + 1, if mp + 1 < 10 then mp + 1 + 3 else mp + 1 - 9, 1)"
      unfolding z1 by (rule civil_from_march) (use march_length_pos [of "mp + 1" Y] 2 m in simp_all)
    with 2 m cur len show ?thesis by (auto simp: next_date_def)
  next
    case 3
    then have z1: "z + 1 = (Y + 1) div 400 * 146097 + year_start ((Y + 1) mod 400) + month_start 0 + 1 - 1 - 719468"
      unfolding march_year_succ by (simp add: z march_months month_starts)
    have "civil_from_days (z + 1) = (Y + 1, 3, 1)"
      unfolding z1 by (subst civil_from_march) (use march_length_pos [of 0 "Y + 1"] in simp_all)
    with 3 cur len show ?thesis by (simp add: next_date_def march_months)
  qed
qed

lemma civil_of_date:
  assumes "valid_date y m d"
  shows "civil_from_days (days_from_civil y m d) = (y, m, d)"
proof -
  define mp Y where "mp = (if 3 \<le> m then m - 3 else m + 9)" and "Y = (if 3 \<le> m then y else y - 1)"
  note mo = march_of_date [OF assms, folded mp_def Y_def]
  show ?thesis
    using civil_from_march [OF mo(1-4)] unfolding days_from_march [OF mo(1,2), symmetric] mo(5,6) .
qed

lemma date_of_day:
  assumes "civil_from_days z = (y, m, d)"
  shows "valid_date y m d" "days_from_civil y m d = z"
proof -
  obtain Y mp d' where m: "0 \<le> mp" "mp \<le> 11" "1 \<le> d'" "d' \<le> march_month_length Y mp"
    and z: "z = Y div 400 * 146097 + year_start (Y mod 400) + month_start mp + d' - 1 - 719468"
    by (rule march_of_day)
  have "valid_date (if mp < 10 then Y else Y + 1) (if mp < 10 then mp + 3 else mp - 9) d'"
    using m by (auto simp: valid_date_def march_month_length_def)
  with civil_from_march [OF m] days_from_march [OF m(1,2), of Y d'] assms
  show "valid_date y m d" "days_from_civil y m d = z"
    unfolding z by auto
qed

text \<open>
  C23. The two calendar conversions are inverse to each other: every day number converts to
  a valid date of the Gregorian calendar and back to itself, every valid date converts to a
  day number and back to itself; and the day number counts days: day 0 is 1 January 1970
  and the day after a date has the next number.
\<close>

theorem civil_days_inverse:
  "(case civil_from_days z of (y, m, d) \<Rightarrow> valid_date y m d \<and> days_from_civil y m d = z) \<and>
   (valid_date y' m' d' \<longrightarrow> civil_from_days (days_from_civil y' m' d') = (y', m', d')) \<and>
   civil_from_days 0 = (1970, 1, 1) \<and> civil_from_days (z + 1) = next_date (civil_from_days z)"
proof (intro conjI impI)
  show "case civil_from_days z of (y, m, d) \<Rightarrow> valid_date y m d \<and> days_from_civil y m d = z"
    using date_of_day [of z] by (auto split: prod.split)
  show "civil_from_days 0 = (1970, 1, 1)" by code_simp
qed (simp_all add: civil_of_date civil_succ)

theorem civil_days_inverse_witness:
  "civil_from_days (days_from_civil 2024 2 29) = (2024, 2, 29) \<and> next_date (2024, 2, 29) = (2024, 3, 1)"
  using civil_days_inverse [of 0 2024 2 29]
  by (simp add: valid_date_def month_length_def leap_year_def next_date_def)

section \<open>Reading timestamps\<close>

text \<open>The functions below work on the UTF-8 bytes of the text; \<open>None\<close> is the error.\<close>

definition dec_value :: "byte list \<Rightarrow> int" where
  "dec_value bs = foldl (\<lambda>n b. 10 * n + (uint b - 48)) 0 bs"

text \<open>The closure \<open>digits\<close>: a range of the bytes that must be decimal digits.\<close>

definition digits :: "byte list \<Rightarrow> nat \<Rightarrow> nat \<Rightarrow> int option" where
  "digits bs a b =
     (if a \<le> b \<and> b \<le> length bs
      then (let part = take (b - a) (drop a bs)
            in if part = [] \<or> \<not> list_all is_digit_byte part then None else Some (dec_value part))
      else None)"

definition parse_date :: "byte list \<Rightarrow> (int \<times> int \<times> int) option" where
  "parse_date bs =
     (if length bs < 10 \<or> bs ! 4 \<noteq> 45 \<or> bs ! 7 \<noteq> 45 then None
      else do {
        year \<leftarrow> digits bs 0 4;
        month \<leftarrow> digits bs 5 7;
        day \<leftarrow> digits bs 8 10;
        if \<not> (1 \<le> month \<and> month \<le> 12) \<or> \<not> (1 \<le> day \<and> day \<le> 31) then None
        else Some (year, month, day)
      })"

text \<open>The fraction at \<open>i\<close>, truncated or padded to milliseconds, and the index after it.\<close>

definition parse_fraction :: "byte list \<Rightarrow> nat \<Rightarrow> (int \<times> nat) option" where
  "parse_fraction bs i =
     (if byte_at bs i = Some 46 then
        (let frac = takeWhile is_digit_byte (drop (i + 1) bs)
         in if frac = [] then None
            else Some (dec_value (take 3 frac @ replicate (3 - length (take 3 frac)) 48),
                       i + 1 + length frac))
      else Some (0, i))"

text \<open>The zone at \<open>i\<close>, in minutes; it must end the text.\<close>

definition parse_zone :: "byte list \<Rightarrow> nat \<Rightarrow> int option" where
  "parse_zone bs i =
     (case byte_at bs i of
        None \<Rightarrow> Some 0
      | Some b \<Rightarrow>
          if b = 90 \<or> b = 122 then (if i + 1 \<noteq> length bs then None else Some 0)
          else if b = 43 \<or> b = 45 then
            (if i + 6 \<noteq> length bs \<or> bs ! (i + 3) \<noteq> 58 then None
             else do {
               oh \<leftarrow> digits bs (i + 1) (i + 3);
               om \<leftarrow> digits bs (i + 4) (i + 6);
               Some (if b = 45 then - (oh * 60 + om) else oh * 60 + om)
             })
          else None)"

definition parse_time :: "byte list \<Rightarrow> (int \<times> int \<times> int \<times> int \<times> int) option" where
  "parse_time bs =
     (if length bs > 10 then
        (if bs ! 10 \<notin> {84, 116, 32} \<or> length bs < 16 \<or> bs ! 13 \<noteq> 58 then None
         else do {
           hour \<leftarrow> digits bs 11 13;
           minute \<leftarrow> digits bs 14 16;
           (second, i) \<leftarrow> (if byte_at bs 16 = Some 58
                          then do { s \<leftarrow> digits bs 17 19; Some (s, 19) }
                          else Some (0, 16));
           (millis, i) \<leftarrow> parse_fraction bs i;
           offset_minutes \<leftarrow> parse_zone bs i;
           if \<not> (0 \<le> hour \<and> hour \<le> 23) \<or> \<not> (0 \<le> minute \<and> minute \<le> 59) \<or>
              \<not> (0 \<le> second \<and> second \<le> 60)
           then None
           else Some (hour, minute, second, millis, offset_minutes)
         })
      else Some (0, 0, 0, 0, 0))"

definition parse_rfc3339_millis :: "byte list \<Rightarrow> int option" where
  "parse_rfc3339_millis bs = do {
     (year, month, day) \<leftarrow> parse_date bs;
     (hour, minute, second, millis, offset_minutes) \<leftarrow> parse_time bs;
     let days = days_from_civil year month day;
         secs = days * 86400 + hour * 3600 + minute * 60 + second - offset_minutes * 60
     in Some (secs * 1000 + millis)
   }"

section \<open>Writing timestamps\<close>

text \<open>The format \<open>{:0w}\<close> of an integer: padded with zeros after the sign.\<close>

definition zero_pad :: "nat \<Rightarrow> int \<Rightarrow> str" where
  "zero_pad w i =
     (let ds = nat_text (nat \<bar>i\<bar>); sign = (if i < 0 then [45] else [])
      in sign @ replicate (w - length sign - length ds) 48 @ ds)"

text \<open>
  The subtraction that rounds down to seconds leaves \<open>i64\<close> for the smallest values: a
  checked build panics (\<open>None\<close>), any other wraps around.
\<close>

definition format_rfc3339_millis :: "bool \<Rightarrow> i64 \<Rightarrow> str option" where
  "format_rfc3339_millis checked epoch_millis =
     (let e = sint epoch_millis;
          millis = e mod 1000
      in if checked \<and> e - millis < i64_min then None
         else
           (let total_secs = sint (epoch_millis - word_of_int millis) sdiv 1000;
                secs_of_day = total_secs mod 86400;
                days = (total_secs - secs_of_day) sdiv 86400
            in case civil_from_days days of
                 (year, month, day) \<Rightarrow>
                   (let hour = secs_of_day sdiv 3600;
                        minute = (secs_of_day smod 3600) sdiv 60;
                        second = secs_of_day smod 60
                    in Some (zero_pad 4 year @ lit ''-'' @ zero_pad 2 month @ lit ''-'' @ zero_pad 2 day
                         @ lit ''T'' @ zero_pad 2 hour @ lit '':'' @ zero_pad 2 minute @ lit '':''
                         @ zero_pad 2 second @ lit ''.'' @ zero_pad 3 millis @ lit ''-00:00''))))"

lemma nat_text_length:
  assumes "n < 10 ^ w" "0 < w"
  shows "length (nat_text n) \<le> w"
  using assms
proof (induction n arbitrary: w rule: nat_text.induct)
  case (1 n)
  show ?case
  proof (cases "n < 10")
    case True
    with 1 show ?thesis by (simp add: nat_text.simps [of n])
  next
    case False
    with 1 obtain v where w: "w = Suc v" "0 < v"
      by (cases w; cases "w - 1") auto
    with 1(2) have "n div 10 < 10 ^ v" by (simp add: div_less_iff_less_mult mult.commute)
    with 1(1) [OF False _ w(2)] w False show ?thesis by (simp add: nat_text.simps [of n])
  qed
qed

lemma dec_value_digits:
  "\<forall>c \<in> set s. is_ascii_digit c \<Longrightarrow> dec_value (ascii_bytes s) = int (digits_value 10 s)"
proof (induction s rule: rev_induct)
  case (snoc c s)
  then have "uint (of_nat c :: byte) = int c"
    by (auto simp: is_ascii_digit_def uint_nat unat_of_nat)
  with snoc show ?case
    by (auto simp: dec_value_def ascii_bytes_def digits_value_def digit36_def is_ascii_digit_def)
qed (simp add: dec_value_def ascii_bytes_def digits_value_def)

lemma digits_value_zeros: "digits_value 10 (replicate n 48 @ s) = digits_value 10 s"
  by (induction n) (simp_all add: digits_value_def digit36_def is_ascii_digit_def)

lemma zero_pad_bytes:
  assumes "0 \<le> n" "n < 10 ^ w" "0 < w"
  shows "length (ascii_bytes (zero_pad w n)) = w" "list_all is_digit_byte (ascii_bytes (zero_pad w n))"
    "dec_value (ascii_bytes (zero_pad w n)) = n"
proof -
  have "nat n < 10 ^ w" using assms by (simp add: nat_less_iff)
  then have len: "length (nat_text (nat n)) \<le> w" using assms(3) by (rule nat_text_length)
  have pad: "zero_pad w n = replicate (w - length (nat_text (nat n))) 48 @ nat_text (nat n)"
    using assms by (simp add: zero_pad_def Let_def)
  have ds: "\<forall>c \<in> set (zero_pad w n). is_ascii_digit c"
    using nat_text_digits by (auto simp: pad is_ascii_digit_def)
  show "length (ascii_bytes (zero_pad w n)) = w" using len by (simp add: pad ascii_bytes_def)
  show "list_all is_digit_byte (ascii_bytes (zero_pad w n))"
    using ds digit_byte by (auto simp: list_all_iff ascii_bytes_def)
  show "dec_value (ascii_bytes (zero_pad w n)) = n"
    unfolding dec_value_digits [OF ds] unfolding pad digits_value_zeros using assms by simp
qed

text \<open>The first day of a year bounds its dates.\<close>

lemma year_days_mono:
  assumes "y \<le> y'"
  shows "y div 400 * 146097 + year_start (y mod 400) \<le> y' div 400 * 146097 + year_start (y' mod 400)"
  using assms
proof (induction y' rule: int_ge_induct)
  case (step i)
  then show ?case using march_year_succ [of i] year_last_bounds [of i] by linarith
qed simp

lemma date_between:
  assumes "valid_date y m d"
  shows "days_from_civil y m d + 719468 < y div 400 * 146097 + year_start (y mod 400) + 306"
    "(y - 1) div 400 * 146097 + year_start ((y - 1) mod 400) + 306 \<le> days_from_civil y m d + 719468"
proof -
  define mp Y where "mp = (if 3 \<le> m then m - 3 else m + 9)" and "Y = (if 3 \<le> m then y else y - 1)"
  define S where "S x = x div 400 * 146097 + year_start (x mod 400)" for x
  define doy where "doy = month_start mp + d - 1"
  note mo = march_of_date [OF assms, folded mp_def Y_def]
  have days: "days_from_civil y m d + 719468 = S Y + doy"
    using days_from_march [OF mo(1,2), of Y d, unfolded mo(5,6)] by (simp add: S_def doy_def)
  have step: "S y = S (y - 1) + year_last (y - 1) + 1"
    using march_year_succ [of "y - 1"] by (simp add: S_def)
  have lo: "mp < 10 \<Longrightarrow> doy < 306" unfolding doy_def
    using mo(1,2) by (rule month_cases) (use mo(3,4) in \<open>simp_all add: month_starts march_months\<close>)
  have hi: "10 \<le> mp \<Longrightarrow> 306 \<le> doy" unfolding doy_def
    using mo(1,2) by (rule month_cases) (use mo(3,4) in \<open>simp_all add: month_starts march_months\<close>)
  note doy = month_of_day(2,3) [OF mo(1-4), folded doy_def]
  have "S Y + doy < S y + 306 \<and> S (y - 1) + 306 \<le> S Y + doy"
  proof (cases "3 \<le> m")
    case True
    with assms have "Y = y" "mp < 10" by (simp_all add: Y_def mp_def valid_date_def)
    with lo doy(1) step year_last_bounds [of "y - 1"] show ?thesis by simp
  next
    case False
    with assms have "Y = y - 1" "10 \<le> mp" by (simp_all add: Y_def mp_def valid_date_def)
    with hi doy(2) step show ?thesis by simp
  qed
  then show "days_from_civil y m d + 719468 < y div 400 * 146097 + year_start (y mod 400) + 306"
    "(y - 1) div 400 * 146097 + year_start ((y - 1) mod 400) + 306 \<le> days_from_civil y m d + 719468"
    unfolding days S_def by simp_all
qed

lemma date_year_bounds:
  assumes "valid_date y m d" "-719528 \<le> days_from_civil y m d" "days_from_civil y m d < 2932897"
  shows "0 \<le> y" "y \<le> 9999"
proof -
  have a: "-1 div 400 * 146097 + year_start (-1 mod 400) = (-366::int)"
    and b: "9999 div 400 * 146097 + year_start (9999 mod 400) = (3652059::int)"
    by (simp_all add: year_start_def)
  show "0 \<le> y"
  proof (rule ccontr)
    assume "\<not> 0 \<le> y"
    then have "y \<le> -1" by simp
    from year_days_mono [OF this] date_between(1) [OF assms(1)] assms(2) a show False by linarith
  qed
  show "y \<le> 9999"
  proof (rule ccontr)
    assume "\<not> y \<le> 9999"
    then have "9999 \<le> y - 1" by simp
    from year_days_mono [OF this] date_between(2) [OF assms(1)] assms(3) b show False by linarith
  qed
qed

lemma sdiv_exact: "0 < b \<Longrightarrow> (b * q) sdiv b = (q::int)"
  by (cases "q = 0") (simp_all add: signed_divide_int_def abs_mult sgn_mult sgn_mult_abs)

lemma length_explicit:
  "length xs = 2 \<Longrightarrow> \<exists>a b. xs = [a, b]" "length xs = 3 \<Longrightarrow> \<exists>a b c. xs = [a, b, c]"
  "length xs = 4 \<Longrightarrow> \<exists>a b c d. xs = [a, b, c, d]"
  by (auto simp: eval_nat_numeral length_Suc_conv)

text \<open>Reading the fixed layout that the writer produces.\<close>

lemma parse_layout:
  assumes "length Y = 4" "length M = 2" "length D = 2" "length h = 2" "length mi = 2" "length s = 2" "length ms = 3"
    and dig: "list_all is_digit_byte (Y @ M @ D @ h @ mi @ s @ ms)"
    and date: "1 \<le> dec_value M" "dec_value M \<le> 12" "1 \<le> dec_value D" "dec_value D \<le> 31"
    and time: "0 \<le> dec_value h" "dec_value h \<le> 23" "0 \<le> dec_value mi" "dec_value mi \<le> 59"
      "0 \<le> dec_value s" "dec_value s \<le> 60"
  shows "parse_rfc3339_millis (Y @ 45 # M @ 45 # D @ 84 # h @ 58 # mi @ 58 # s @ 46 # ms @ [45, 48, 48, 58, 48, 48]) =
    Some ((days_from_civil (dec_value Y) (dec_value M) (dec_value D) * 86400 + dec_value h * 3600 +
      dec_value mi * 60 + dec_value s) * 1000 + dec_value ms)"
proof -
  obtain y1 y2 y3 y4 m1 m2 d1 d2 h1 h2 i1 i2 s1 s2 f1 f2 f3 where
    parts: "Y = [y1, y2, y3, y4]" "M = [m1, m2]" "D = [d1, d2]" "h = [h1, h2]" "mi = [i1, i2]"
      "s = [s1, s2]" "ms = [f1, f2, f3]"
    using length_explicit assms(1-7) by metis
  have nd: "\<not> is_digit_byte 45" "is_digit_byte 48" by (simp_all add: is_digit_byte_def)
  define bs where "bs = Y @ 45 # M @ 45 # D @ 84 # h @ 58 # mi @ 58 # s @ 46 # ms @ [45, 48, 48, 58, 48, 48]"
  have "parse_date bs = Some (dec_value Y, dec_value M, dec_value D)"
    using dig date unfolding bs_def parts by (simp add: parse_date_def digits_def eval_nat_numeral)
  moreover have "parse_fraction bs 19 = Some (dec_value ms, 23)"
    using dig nd unfolding bs_def parts by (simp add: parse_fraction_def byte_at_def)
  moreover have "parse_zone bs 23 = Some 0"
    using nd unfolding bs_def parts by (simp add: parse_zone_def byte_at_def digits_def dec_value_def)
  moreover have "digits bs 11 13 = Some (dec_value h)" "digits bs 14 16 = Some (dec_value mi)"
    "digits bs 17 19 = Some (dec_value s)"
    using dig unfolding bs_def parts by (simp_all add: digits_def)
  moreover have "bs ! 10 = 84" "bs ! 13 = 58" "length bs = 29" "byte_at bs 16 = Some 58"
    unfolding bs_def parts by (simp_all add: byte_at_def)
  ultimately show ?thesis
    using time unfolding bs_def [symmetric] by (simp add: parse_rfc3339_millis_def parse_time_def Let_def)
qed

definition instant_text :: "int \<Rightarrow> int \<Rightarrow> int \<Rightarrow> int \<Rightarrow> int \<Rightarrow> str" where
  "instant_text y m d sod ms = zero_pad 4 y @ lit ''-'' @ zero_pad 2 m @ lit ''-'' @ zero_pad 2 d @ lit ''T''
    @ zero_pad 2 (sod div 3600) @ lit '':'' @ zero_pad 2 (sod mod 3600 div 60) @ lit '':''
    @ zero_pad 2 (sod mod 60) @ lit ''.'' @ zero_pad 3 ms @ lit ''-00:00''"

lemma parse_instant_text:
  assumes y: "0 \<le> y" "y < 10 ^ 4" and md: "1 \<le> m" "m \<le> 12" "1 \<le> d" "d \<le> 31"
    and sod: "0 \<le> sod" "sod < 86400" and ms: "0 \<le> ms" "ms < 1000"
  shows "parse_rfc3339_millis (ascii_bytes (instant_text y m d sod ms)) = Some ((days_from_civil y m d * 86400 + sod) * 1000 + ms)"
proof -
  have hms: "0 \<le> sod div 3600" "sod div 3600 \<le> 23" "0 \<le> sod mod 3600 div 60" "sod mod 3600 div 60 \<le> 59"
    "0 \<le> sod mod 60" "sod mod 60 \<le> 59"
    using sod by simp_all
  have rng: "m < 10 ^ 2" "d < 10 ^ 2" "sod div 3600 < 10 ^ 2" "sod mod 3600 div 60 < 10 ^ 2" "sod mod 60 < 10 ^ 2"
    "ms < 10 ^ 3" "0 \<le> m" "0 \<le> d"
    using md ms(2) by (simp_all add: le_less_trans [OF hms(2)] le_less_trans [OF hms(4)] le_less_trans [OF hms(6)])
  note pads = zero_pad_bytes [OF y zero_less_numeral] zero_pad_bytes [OF rng(7,1) zero_less_numeral] zero_pad_bytes [OF rng(8,2) zero_less_numeral]
    zero_pad_bytes [OF hms(1) rng(3) zero_less_numeral] zero_pad_bytes [OF hms(3) rng(4) zero_less_numeral] zero_pad_bytes [OF hms(5) rng(5) zero_less_numeral]
    zero_pad_bytes [OF ms(1) rng(6) zero_less_numeral]
  have t: "ascii_bytes (instant_text y m d sod ms) = ascii_bytes (zero_pad 4 y) @ 45 # ascii_bytes (zero_pad 2 m) @ 45 #
      ascii_bytes (zero_pad 2 d) @ 84 # ascii_bytes (zero_pad 2 (sod div 3600)) @ 58 #
      ascii_bytes (zero_pad 2 (sod mod 3600 div 60)) @ 58 # ascii_bytes (zero_pad 2 (sod mod 60)) @ 46 #
      ascii_bytes (zero_pad 3 ms) @ [45, 48, 48, 58, 48, 48]"
    by (simp add: instant_text_def ascii_bytes_def)
  have "sod mod 3600 mod 60 = sod mod 60" by (rule mod_mod_cancel) simp
  then have "sod div 3600 * 3600 + sod mod 3600 div 60 * 60 + sod mod 60 = sod"
    using div_mult_mod_eq [of sod 3600] div_mult_mod_eq [of "sod mod 3600" 60] by linarith
  moreover have "parse_rfc3339_millis (ascii_bytes (instant_text y m d sod ms)) =
      Some ((days_from_civil y m d * 86400 + sod div 3600 * 3600 + sod mod 3600 div 60 * 60 + sod mod 60) * 1000 + ms)"
    unfolding t by (subst parse_layout) (simp_all only: pads list_all_append md hms order_trans [OF hms(6)] simp_thms le_numeral_simps)
  ultimately show ?thesis
    by (metis (no_types, opaque_lifting) add.assoc)
qed

lemma format_instant_text:
  assumes parts: "ms = sint e mod 1000" "sod = sint e div 1000 mod 86400" "days = sint e div 1000 div 86400"
    and low: "i64_min \<le> sint e - ms" and ymd: "civil_from_days days = (y, m, d)"
  shows "format_rfc3339_millis checked e = Some (instant_text y m d sod ms)"
proof -
  have e: "sint e = (days * 86400 + sod) * 1000 + ms" and sod: "0 \<le> sod" "sod < 86400" and ms: "0 \<le> ms" "ms < 1000"
    by (simp_all add: parts)
  have w: "e - word_of_int ms = word_of_int (sint e - ms)" by simp
  have "sint (word_of_int (sint e - ms) :: i64) = sint e - ms"
    using low ms sint_less [of e] by (intro sint_i64_of_int) simp_all
  then have "sint (e - word_of_int ms) = 1000 * (days * 86400 + sod)"
    unfolding w using e by simp
  moreover have "1000 * (days * 86400 + sod) sdiv 1000 = days * 86400 + sod" "(days * 86400 + sod - sod) sdiv 86400 = days"
    using sdiv_exact [of 1000 "days * 86400 + sod"] sdiv_exact [of 86400 days] by (simp_all add: mult.commute)
  ultimately show ?thesis
    using low ymd sod ms
    by (simp add: format_rfc3339_millis_def parts [symmetric] Let_def instant_text_def sdiv_nonneg smod_nonneg)
qed

text \<open>
  C22. Instants read back as written: for every number of milliseconds in the years 0 to
  9999, writing it and reading the text gives the same number.
\<close>

theorem instant_roundtrip:
  assumes "-62167219200000 \<le> sint e" and "sint e < 253402300800000"
  shows "\<exists>t. format_rfc3339_millis checked e = Some t \<and> parse_rfc3339_millis (ascii_bytes t) = Some (sint e)"
proof -
  define ms sod days where "ms = sint e mod 1000" and "sod = sint e div 1000 mod 86400" and "days = sint e div 1000 div 86400"
  have e: "sint e = (days * 86400 + sod) * 1000 + ms"
    by (simp add: ms_def days_def sod_def)
  have bounds: "0 \<le> sod" "sod < 86400" "0 \<le> ms" "ms < 1000" by (simp_all add: ms_def sod_def)
  have days: "-719528 \<le> days" "days < 2932897" using e bounds assms by auto
  obtain y m d where ymd: "civil_from_days days = (y, m, d)" by (cases "civil_from_days days")
  note date = date_of_day [OF ymd]
  have y: "0 \<le> y" "y < 10 ^ 4" using date_year_bounds [OF date(1)] date(2) days by simp_all
  have md: "1 \<le> m" "m \<le> 12" "1 \<le> d" "d \<le> 31"
    using date(1) by (auto simp: valid_date_def month_length_def split: if_splits)
  have "format_rfc3339_millis checked e = Some (instant_text y m d sod ms)"
    by (rule format_instant_text [OF ms_def sod_def days_def _ ymd]) (use assms bounds in simp)
  moreover have "parse_rfc3339_millis (ascii_bytes (instant_text y m d sod ms)) = Some (sint e)"
    using parse_instant_text [OF y md bounds] e date(2) by simp
  ultimately show ?thesis by blast
qed

theorem instant_roundtrip_witness:
  "\<exists>t. format_rfc3339_millis True (-1) = Some t \<and> parse_rfc3339_millis (ascii_bytes t) = Some (-1)"
  using instant_roundtrip [of "-1" True] by simp

lemma dec_value_bounds:
  "list_all is_digit_byte bs \<Longrightarrow> 0 \<le> dec_value bs \<and> dec_value bs < 10 ^ length bs"
proof (induction bs rule: rev_induct)
  case (snoc b bs)
  then have "0 \<le> uint b - 48" "uint b - 48 \<le> 9"
    by (simp_all add: is_digit_byte_def word_le_def)
  with snoc show ?case by (simp add: dec_value_def)
qed (simp add: dec_value_def)

lemma digits_bounds:
  assumes "digits bs a b = Some n"
  shows "0 \<le> n \<and> n < 10 ^ (b - a)"
proof -
  define part where "part = take (b - a) (drop a bs)"
  from assms have "a \<le> b" "b \<le> length bs" "list_all is_digit_byte part" "n = dec_value part"
    by (auto simp: digits_def Let_def part_def split: if_splits)
  moreover from this(1,2) have "length part = b - a" by (simp add: part_def)
  ultimately show ?thesis using dec_value_bounds [of part] by simp
qed

lemma days_bounds:
  assumes "0 \<le> y" "y < 10000" "1 \<le> m" "m \<le> 12" "1 \<le> d" "d \<le> 31"
  shows "-900000 < days_from_civil y m d" "days_from_civil y m d < 4000000"
proof -
  define Y where "Y = (if m \<le> 2 then y - 1 else y)"
  have Y: "-1 \<le> Y" "Y < 10000" using assms by (auto simp: Y_def)
  have e: "-1 \<le> Y div 400" "Y div 400 \<le> 24" using Y by (auto simp: zdiv_mono1 intro: order_trans)
  have r: "0 \<le> Y mod 400" "Y mod 400 \<le> 399" by simp_all
  have s: "0 \<le> year_start (Y mod 400)" "year_start (Y mod 400) \<le> 146097"
    using r by (simp_all add: year_start_def)
  have mp: "0 \<le> (m + 9) mod 12" "(m + 9) mod 12 \<le> 11" by simp_all
  have ms: "0 \<le> month_start ((m + 9) mod 12)" "month_start ((m + 9) mod 12) \<le> 337"
    using mp by (rule month_cases; simp add: month_starts)+
  have "days_from_civil y m d =
      Y div 400 * 146097 + year_start (Y mod 400) + month_start ((m + 9) mod 12) + d - 1 - 719468"
    using days_from_civil_eq [OF assms(3,4), of y d] by (simp add: Y_def Let_def)
  with e s ms assms show "-900000 < days_from_civil y m d" "days_from_civil y m d < 4000000" by linarith+
qed



text \<open>
  The reader does not check the day against the month: 31 February is accepted and
  silently becomes 3 March.
\<close>

lemma impossible_date_accepted:
  "parse_rfc3339_millis (ascii_bytes (lit ''2026-02-31'')) =
     parse_rfc3339_millis (ascii_bytes (lit ''2026-03-03'')) \<and>
   parse_rfc3339_millis (ascii_bytes (lit ''2026-02-31'')) \<noteq> None \<and> \<not> valid_date 2026 2 31"
  by (simp add: parse_rfc3339_millis_def parse_date_def parse_time_def digits_def ascii_bytes_def
      dec_value_def is_digit_byte_def days_from_civil_eq valid_date_def month_length_def
      year_start_def month_start_def)

text \<open>
  Writing the smallest instants fails: rounding down to full seconds leaves \<open>i64\<close>, so
  a checked build panics on every value in the last, incomplete second of the range.
\<close>

lemma format_underflow_panics:
  assumes "sint e < i64_min + 808"
  shows "format_rfc3339_millis True e = None"
proof -
  have "i64_min \<le> sint e" using sint_ge [of e] by simp
  with assms have "sint e div 1000 = -9223372036854776" 
    by (intro int_div_pos_eq [of _ _ _ "sint e + 9223372036854776000"]) auto
  then have "sint e - sint e mod 1000 = -9223372036854776000"
    using minus_mod_eq_div_mult [of "sint e" 1000] by simp
  then show ?thesis by (simp add: format_rfc3339_millis_def Let_def)
qed

end
