(* ===== verification/Bencode.thy ===== *)
theory Bencode
  imports Byte_Codec
begin

text \<open>
  The bencode codec of the nREPL wire protocol, \<^verbatim>\<open>crates/cljrs-bencode/src/lib.rs\<close>.  A
  \<open>BTreeMap\<close> is the list of its entries in ascending key order.  The decoder takes fuel,
  one unit per call and loop iteration; \<open>None\<close> is running out of it, which never happens
  with the fuel \<open>decode\<close> gives.
\<close>

section \<open>Values and encoding\<close>

datatype bencode =
    BInt i64
  | BBytes "byte list"
  | BList "bencode list"
  | BDict "(byte list \<times> bencode) list"

definition bencode_str :: "str \<Rightarrow> bencode" where
  "bencode_str s = BBytes (utf8_bytes s)"

definition as_str :: "bencode \<Rightarrow> str option" where
  "as_str v = (case v of BBytes b \<Rightarrow> from_utf8 b | _ \<Rightarrow> None)"

definition as_dict :: "bencode \<Rightarrow> (byte list \<times> bencode) list option" where
  "as_dict v = (case v of BDict d \<Rightarrow> Some d | _ \<Rightarrow> None)"

definition encode_bytes :: "byte list \<Rightarrow> byte list \<Rightarrow> byte list" where
  "encode_bytes b out = out @ ascii_bytes (nat_text (length b)) @ [58] @ b"

fun encode :: "bencode \<Rightarrow> byte list \<Rightarrow> byte list" where
  "encode (BInt i) out = out @ [105] @ ascii_bytes (int_text (sint i)) @ [101]"
| "encode (BBytes b) out = encode_bytes b out"
| "encode (BList items) out = fold encode items (out @ [108]) @ [101]"
| "encode (BDict entries) out =
     fold (\<lambda>(k, v) out. encode v (encode_bytes k out)) entries (out @ [100]) @ [101]"

definition encode_to_vec :: "bencode \<Rightarrow> byte list" where
  "encode_to_vec v = encode v []"

section \<open>Decoding\<close>

datatype parse_error = Incomplete | Invalid string

type_synonym 'a bres = "(parse_error + 'a \<times> nat) option"

definition bbind :: "'a bres \<Rightarrow> ('a \<Rightarrow> nat \<Rightarrow> 'b bres) \<Rightarrow> 'b bres" where
  "bbind m f =
     (case m of
        None \<Rightarrow> None
      | Some r \<Rightarrow> (case r of Inl e \<Rightarrow> Some (Inl e) | Inr (a, pos) \<Rightarrow> f a pos))"

text \<open>The scan for the end of an integer; a minus sign is allowed in front only.\<close>

fun scan_int :: "bool \<Rightarrow> byte list \<Rightarrow> parse_error + byte list" where
  "scan_int first [] = Inl Incomplete"
| "scan_int first (b # bs) =
     (if b = 101 then Inr []
      else if b = 45 \<and> first \<or> is_digit_byte b
      then (case scan_int False bs of Inl e \<Rightarrow> Inl e | Inr ds \<Rightarrow> Inr (b # ds))
      else Inl (Invalid ''non-digit in integer''))"

definition parse_int :: "byte list \<Rightarrow> nat \<Rightarrow> bencode bres" where
  "parse_int buf pos =
     Some (case scan_int True (drop (pos + 1) buf) of
        Inl e \<Rightarrow> Inl e
      | Inr ds \<Rightarrow>
          (case parse_i64 (byte_text ds) of
             Some n \<Rightarrow> Inr (BInt n, pos + 1 + length ds + 1)
           | None \<Rightarrow> Inl (Invalid ''integer out of range or empty'')))"

fun scan_len :: "byte list \<Rightarrow> parse_error + byte list" where
  "scan_len [] = Inl Incomplete"
| "scan_len (b # bs) =
     (if b = 58 then Inr []
      else if is_digit_byte b
      then (case scan_len bs of Inl e \<Rightarrow> Inl e | Inr ds \<Rightarrow> Inr (b # ds))
      else Inl (Invalid ''non-digit in string length''))"

definition parse_bytes :: "byte list \<Rightarrow> nat \<Rightarrow> bencode bres" where
  "parse_bytes buf pos =
     Some (case scan_len (drop pos buf) of
        Inl e \<Rightarrow> Inl e
      | Inr ds \<Rightarrow>
          (case parse_unsigned 10 (2 ^ 64 - 1) (byte_text ds) of
             None \<Rightarrow> Inl (Invalid ''bad string length'')
           | Some len \<Rightarrow>
               (let data_start = pos + length ds + 1; data_end = data_start + len
                in if 2 ^ 64 \<le> data_end then Inl (Invalid ''string length overflow'')
                   else if length buf < data_end then Inl Incomplete
                   else Inr (BBytes (take len (drop data_start buf)), data_end))))"

text \<open>\<open>BTreeMap::insert\<close> on the entries in key order.\<close>

fun dict_insert :: "byte list \<Rightarrow> 'v \<Rightarrow> (byte list \<times> 'v) list \<Rightarrow> (byte list \<times> 'v) list" where
  "dict_insert k v [] = [(k, v)]"
| "dict_insert k v ((k', v') # es) =
     (if k < k' then (k, v) # (k', v') # es
      else if k = k' then (k, v) # es
      else (k', v') # dict_insert k v es)"

function (sequential) parse_value :: "nat \<Rightarrow> byte list \<Rightarrow> nat \<Rightarrow> bencode bres"
and parse_items :: "nat \<Rightarrow> byte list \<Rightarrow> bencode list \<Rightarrow> nat \<Rightarrow> bencode bres"
and parse_entries :: "nat \<Rightarrow> byte list \<Rightarrow> (byte list \<times> bencode) list \<Rightarrow> nat \<Rightarrow> bencode bres"
where
  "parse_value 0 buf pos = None"
| "parse_value (Suc n) buf pos =
     (case byte_at buf pos of
        None \<Rightarrow> Some (Inl Incomplete)
      | Some b \<Rightarrow>
          if b = 105 then parse_int buf pos
          else if b = 108 then parse_items n buf [] (pos + 1)
          else if b = 100 then parse_entries n buf [] (pos + 1)
          else if is_digit_byte b then parse_bytes buf pos
          else Some (Inl (Invalid ''unexpected type marker'')))"
| "parse_items 0 buf items pos = None"
| "parse_items (Suc n) buf items pos =
     (if byte_at buf pos = Some 101 then Some (Inr (BList items, pos + 1))
      else bbind (parse_value n buf pos) (\<lambda>v pos. parse_items n buf (items @ [v]) pos))"
| "parse_entries 0 buf entries pos = None"
| "parse_entries (Suc n) buf entries pos =
     (if byte_at buf pos = Some 101 then Some (Inr (BDict entries, pos + 1))
      else bbind (parse_value n buf pos) (\<lambda>key pos.
        case key of
          BBytes k \<Rightarrow> bbind (parse_value n buf pos) (\<lambda>val pos.
                        parse_entries n buf (dict_insert k val entries) pos)
        | _ \<Rightarrow> Some (Inl (Invalid ''dict key must be a byte string''))))"
  by pat_completeness auto

termination
  by (relation "measure (\<lambda>x. case x of Inl (n, _) \<Rightarrow> n | Inr (Inl (n, _)) \<Rightarrow> n | Inr (Inr (n, _)) \<Rightarrow> n)") auto

text \<open>
  \<open>decode\<close>: a value with the number of bytes it took, \<open>None\<close> when more bytes are needed, or
  an error.  The fuel is twice the length of the buffer and one.
\<close>

fun report :: "parse_error + bencode \<times> nat \<Rightarrow> string + (bencode \<times> nat) option" where
  "report (Inr (v, pos)) = Inr (Some (v, pos))"
| "report (Inl Incomplete) = Inr None"
| "report (Inl (Invalid msg)) = Inl msg"

definition decode :: "byte list \<Rightarrow> (string + (bencode \<times> nat) option) option" where
  "decode buf = map_option report (parse_value (2 * length buf + 1) buf 0)"

end
