(* ===== verification/Bencode_Spec.thy ===== *)
theory Bencode_Spec
  imports Bencode
begin

text \<open>
  The bencode codec: encoded values read back whatever follows them, decoding always returns, and
  more input never changes what was decoded.
\<close>

section \<open>The encoded form\<close>

text \<open>Dictionaries have their keys in strictly ascending order.\<close>

fun wf_bencode :: "bencode \<Rightarrow> bool" where
  "wf_bencode (BInt i) = True"
| "wf_bencode (BBytes b) = True"
| "wf_bencode (BList items) = (\<forall>v \<in> set items. wf_bencode v)"
| "wf_bencode (BDict entries) =
     (sorted_wrt (<) (map fst entries) \<and> (\<forall>e \<in> set entries. wf_bencode (snd e)))"

lemma fold_appends:
  "(\<And>x out. x \<in> set xs \<Longrightarrow> f x out = out @ g x) \<Longrightarrow> fold f xs out = out @ concat (map g xs)"
  by (induction xs arbitrary: out) auto

lemma encode_append: "encode v out = out @ encode v []"
proof (induction v arbitrary: out)
  case (BList items)
  have "fold encode items out' = out' @ concat (map (\<lambda>v. encode v []) items)" for out'
    by (rule fold_appends) (rule BList.IH)
  from this [of "out @ [108]"] this [of "[108]"] show ?case by simp
next
  case (BDict entries)
  have "(case e of (k, v) \<Rightarrow> \<lambda>out. encode v (encode_bytes k out)) out' =
      out' @ (case e of (k, v) \<Rightarrow> encode_bytes k [] @ encode v [])" if e: "e \<in> set entries" for e out'
  proof (cases e)
    case (Pair k v)
    have "encode v (encode_bytes k out') = encode_bytes k out' @ encode v []"
      by (rule BDict.IH [OF e]) (simp add: Pair)
    then show ?thesis by (simp add: Pair encode_bytes_def)
  qed
  then have "fold (\<lambda>(k, v) out. encode v (encode_bytes k out)) entries out' =
      out' @ concat (map (\<lambda>(k, v). encode_bytes k [] @ encode v []) entries)" for out'
    by (rule fold_appends)
  from this [of "out @ [100]"] this [of "[100]"] show ?case by simp
qed (simp_all add: encode_bytes_def)

lemma encode_to_vec_simps [codec_simps]:
  "encode_to_vec (BInt i) = [105] @ ascii_bytes (int_text (sint i)) @ [101]"
  "encode_to_vec (BBytes b) = ascii_bytes (nat_text (length b)) @ [58] @ b"
  "encode_to_vec (BList items) = [108] @ concat (map encode_to_vec items) @ [101]"
  "encode_to_vec (BDict entries) =
     [100] @ concat (map (\<lambda>(k, v). encode_to_vec (BBytes k) @ encode_to_vec v) entries) @ [101]"
proof -
  have l: "fold encode items out = out @ concat (map encode_to_vec items)" for items out
    unfolding encode_to_vec_def by (rule fold_appends) (rule encode_append)
  have d: "fold (\<lambda>(k, v) out. encode v (encode_bytes k out)) entries out =
      out @ concat (map (\<lambda>(k, v). encode_to_vec (BBytes k) @ encode_to_vec v) entries)" for entries out
  proof (rule fold_appends)
    fix e out
    show "(case e of (k, v) \<Rightarrow> \<lambda>out. encode v (encode_bytes k out)) out =
      out @ (case e of (k, v) \<Rightarrow> encode_to_vec (BBytes k) @ encode_to_vec v)"
      using encode_append [of "snd e" "encode_bytes (fst e) out"]
      by (cases e) (simp add: encode_to_vec_def encode_bytes_def)
  qed
  show "encode_to_vec (BInt i) = [105] @ ascii_bytes (int_text (sint i)) @ [101]"
    "encode_to_vec (BBytes b) = ascii_bytes (nat_text (length b)) @ [58] @ b"
    by (simp_all add: encode_to_vec_def encode_bytes_def)
  show "encode_to_vec (BList items) = [108] @ concat (map encode_to_vec items) @ [101]"
    by (subst encode_to_vec_def) (simp add: l)
  show "encode_to_vec (BDict entries) =
     [100] @ concat (map (\<lambda>(k, v). encode_to_vec (BBytes k) @ encode_to_vec v) entries) @ [101]"
    by (subst encode_to_vec_def) (simp add: d)
qed

section \<open>Scanning\<close>

lemma digit_not_special: "is_digit_byte b \<Longrightarrow> b \<noteq> 101 \<and> b \<noteq> 58 \<and> b \<noteq> 45 \<and> b \<noteq> 105 \<and> b \<noteq> 108 \<and> b \<noteq> 100"
  by (auto simp: is_digit_byte_def)

lemma scan_int_digits:
  "list_all is_digit_byte ds \<Longrightarrow> scan_int first (ds @ 101 # rest) = Inr ds"
  by (induction ds arbitrary: first) (auto dest: digit_not_special)

lemma scan_len_digits: "list_all is_digit_byte ds \<Longrightarrow> scan_len (ds @ 58 # rest) = Inr ds"
  by (induction ds) (auto dest: digit_not_special)

lemma scan_int_end: "scan_int first bs = Inr ds \<Longrightarrow> \<exists>rest. bs = ds @ 101 # rest"
  by (induction first bs arbitrary: ds rule: scan_int.induct) (auto split: if_splits sum.splits)

lemma scan_len_end: "scan_len bs = Inr ds \<Longrightarrow> \<exists>rest. bs = ds @ 58 # rest"
  by (induction bs arbitrary: ds rule: scan_len.induct) (auto split: if_splits sum.splits)

lemma scan_int_extend: "scan_int first bs = r \<Longrightarrow> r \<noteq> Inl Incomplete \<Longrightarrow> scan_int first (bs @ ext) = r"
  by (induction first bs arbitrary: r rule: scan_int.induct) (auto split: sum.splits)

lemma scan_len_extend: "scan_len bs = r \<Longrightarrow> r \<noteq> Inl Incomplete \<Longrightarrow> scan_len (bs @ ext) = r"
  by (induction bs arbitrary: r rule: scan_len.induct) (auto split: sum.splits)

lemma nat_text_digit_bytes: "list_all is_digit_byte (ascii_bytes (nat_text n))"
  by (auto simp: list_all_iff ascii_bytes_def dest!: nat_text_digits digit_byte)

lemma int_text_small: "c \<in> set (int_text i) \<Longrightarrow> c < 256"
  by (auto simp: int_text_def is_ascii_digit_def split: if_splits dest!: nat_text_digits)

lemma nat_text_small: "c \<in> set (nat_text i) \<Longrightarrow> c < 256"
  by (auto simp: is_ascii_digit_def dest!: nat_text_digits)

lemma byte_at_append [simp]:
  "byte_at (pre @ b # rest) (length pre) = Some b"
  "i < length bs \<Longrightarrow> byte_at (bs @ ext) i = byte_at bs i"
  by (simp_all add: byte_at_def nth_append)

lemma parse_int_encoded:
  assumes "buf = pre @ encode_to_vec (BInt i) @ rest"
  shows "parse_int buf (length pre) = Some (Inr (BInt i, length pre + length (encode_to_vec (BInt i))))"
proof -
  have d: "drop (length pre + 1) buf = ascii_bytes (int_text (sint i)) @ 101 # rest"
    using assms by (simp add: encode_to_vec_simps)
  have "scan_int True (ascii_bytes (int_text (sint i)) @ 101 # rest) = Inr (ascii_bytes (int_text (sint i)))"
    using scan_int_digits [OF nat_text_digit_bytes] by (auto simp: int_text_def)
  moreover have "parse_i64 (byte_text (ascii_bytes (int_text (sint i)))) = Some i"
    using sint_ge [of i] sint_lt [of i]
    by (simp add: byte_text_ascii int_text_small parse_i64_text)
  ultimately show ?thesis
    unfolding parse_int_def d by (simp add: encode_to_vec_simps)
qed

lemma parse_bytes_encoded:
  assumes "buf = pre @ encode_to_vec (BBytes b) @ rest" and "length buf < 2 ^ 64"
  shows "parse_bytes buf (length pre) = Some (Inr (BBytes b, length pre + length (encode_to_vec (BBytes b))))"
proof -
  let ?ds = "ascii_bytes (nat_text (length b))"
  have d: "drop (length pre) buf = ?ds @ 58 # b @ rest"
    using assms by (simp add: encode_to_vec_simps)
  have len: "length buf = length pre + length (nat_text (length b)) + 1 + length b + length rest"
    using assms by (simp add: encode_to_vec_simps)
  have "parse_unsigned 10 (2 ^ 64 - 1) (byte_text ?ds) = Some (length b)"
    using assms(2) len
    by (simp add: byte_text_ascii nat_text_small parse_unsigned_def valid_digits_nat_text)
  moreover have "drop (length pre + length (nat_text (length b)) + 1) buf = b @ rest"
    using assms by (simp add: encode_to_vec_simps)
  ultimately show ?thesis
    using assms(2) len
    by (simp add: parse_bytes_def d scan_len_digits [OF nat_text_digit_bytes] encode_to_vec_simps Let_def)
qed

section \<open>Round trip\<close>

text \<open>\<open>reads v\<close>: the encoding of \<open>v\<close>, anywhere in a buffer, parses to \<open>v\<close> and its end.\<close>

definition reads :: "bencode \<Rightarrow> bool" where
  "reads v \<longleftrightarrow> (\<forall>n buf pre rest. buf = pre @ encode_to_vec v @ rest \<longrightarrow> length buf < 2 ^ 64 \<longrightarrow>
     2 * length (encode_to_vec v) + 1 \<le> n \<longrightarrow>
     parse_value n buf (length pre) = Some (Inr (v, length pre + length (encode_to_vec v))))"

lemma encode_head: "\<exists>b bs. encode_to_vec v = b # bs \<and> b \<noteq> 101"
proof (cases v)
  case (BBytes d)
  have "nat_text (length d) \<noteq> []" by simp
  then obtain c cs where c: "nat_text (length d) = c # cs" by (cases "nat_text (length d)") auto
  with nat_text_digit_bytes [of "length d"] have "is_digit_byte (of_nat c)" by simp
  with c BBytes show ?thesis by (auto simp: encode_to_vec_simps dest: digit_not_special)
qed (simp_all add: encode_to_vec_simps)

lemma encode_head_digit: "\<exists>b bs. encode_to_vec (BBytes d) = b # bs \<and> is_digit_byte b"
proof -
  have "nat_text (length d) \<noteq> []" by simp
  then obtain c cs where "nat_text (length d) = c # cs" by (cases "nat_text (length d)") auto
  with nat_text_digit_bytes [of "length d"] show ?thesis by (auto simp: encode_to_vec_simps)
qed

lemma encode_length_pos: "0 < length (encode_to_vec v)"
  using encode_head [of v] by auto

lemma reads_value:
  assumes "reads v" "buf = pre @ encode_to_vec v @ rest" "length buf < 2 ^ 64" "pos = length pre"
    "2 * length (encode_to_vec v) + 1 \<le> n"
  shows "parse_value n buf pos = Some (Inr (v, length (pre @ encode_to_vec v)))"
    "byte_at buf pos \<noteq> Some 101"
proof -
  show "parse_value n buf pos = Some (Inr (v, length (pre @ encode_to_vec v)))"
    using assms by (simp add: reads_def)
  obtain b bs where "encode_to_vec v = b # bs" "b \<noteq> 101" using encode_head by blast
  with assms show "byte_at buf pos \<noteq> Some 101" by simp
qed

lemma parse_items_encoded:
  assumes "\<forall>v \<in> set vs. reads v"
    "buf = pre @ concat (map encode_to_vec vs) @ 101 # rest" "length buf < 2 ^ 64" "pos = length pre"
    "2 * length (concat (map encode_to_vec vs)) + 2 \<le> n"
  shows "parse_items n buf acc pos =
    Some (Inr (BList (acc @ vs), pos + length (concat (map encode_to_vec vs)) + 1))"
  using assms
proof (induction vs arbitrary: n pre acc pos)
  case Nil
  then show ?case by (cases n) auto
next
  case (Cons v vs)
  from Cons.prems(5) obtain m where m: "n = Suc m"
    "2 * length (encode_to_vec v) + 1 + 2 * length (concat (map encode_to_vec vs)) \<le> m"
    by (cases n) auto
  have buf: "buf = pre @ encode_to_vec v @ concat (map encode_to_vec vs) @ 101 # rest"
    using Cons.prems(2) by simp
  have buf': "buf = (pre @ encode_to_vec v) @ concat (map encode_to_vec vs) @ 101 # rest"
    using Cons.prems(2) by simp
  note v = reads_value [OF _ buf Cons.prems(3,4), of m]
  have "parse_items m buf (acc @ [v]) (length (pre @ encode_to_vec v)) =
    Some (Inr (BList ((acc @ [v]) @ vs),
      length (pre @ encode_to_vec v) + length (concat (map encode_to_vec vs)) + 1))"
  proof (rule Cons.IH [OF _ buf' Cons.prems(3) refl])
    show "2 * length (concat (map encode_to_vec vs)) + 2 \<le> m"
      using m(2) encode_length_pos [of v] by linarith
  qed (use Cons.prems(1) in simp)
  with v Cons.prems m show ?case by (simp add: bbind_def)
qed

lemma dict_insert_last:
  "\<forall>e \<in> set es. fst e < k \<Longrightarrow> dict_insert k v es = es @ [(k, v)]"
  by (induction es) auto

lemma parse_entries_encoded:
  assumes "\<forall>e \<in> set es. reads (BBytes (fst e)) \<and> reads (snd e)"
    "buf = pre @ concat (map (\<lambda>(k, v). encode_to_vec (BBytes k) @ encode_to_vec v) es) @ 101 # rest"
    "length buf < 2 ^ 64" "pos = length pre"
    "2 * length (concat (map (\<lambda>(k, v). encode_to_vec (BBytes k) @ encode_to_vec v) es)) + 2 \<le> n"
    "sorted_wrt (<) (map fst (acc @ es))"
  shows "parse_entries n buf acc pos = Some (Inr (BDict (acc @ es),
    pos + length (concat (map (\<lambda>(k, v). encode_to_vec (BBytes k) @ encode_to_vec v) es)) + 1))"
  using assms
proof (induction es arbitrary: n pre acc pos)
  case Nil
  then show ?case by (cases n) auto
next
  case (Cons e es)
  obtain k v where e: "e = (k, v)" by fastforce
  let ?K = "encode_to_vec (BBytes k)" and ?V = "encode_to_vec v"
  let ?R = "concat (map (\<lambda>(k, v). encode_to_vec (BBytes k) @ encode_to_vec v) es)"
  from Cons.prems(5) obtain m where m: "n = Suc m"
    "2 * length ?K + 2 * length ?V + 1 + 2 * length ?R \<le> m"
    by (cases n) (auto simp: e)
  have buf: "buf = pre @ ?K @ (?V @ ?R @ 101 # rest)" using Cons.prems(2) by (simp add: e)
  have buf1: "buf = (pre @ ?K) @ ?V @ (?R @ 101 # rest)" using Cons.prems(2) by (simp add: e)
  have buf2: "buf = (pre @ ?K @ ?V) @ ?R @ 101 # rest" using Cons.prems(2) by (simp add: e)
  have key: "parse_value m buf pos = Some (Inr (BBytes k, length (pre @ ?K)))" "byte_at buf pos \<noteq> Some 101"
    using reads_value [OF _ buf Cons.prems(3,4), of m] Cons.prems(1) m e by auto
  have val: "parse_value m buf (length (pre @ ?K)) = Some (Inr (v, length ((pre @ ?K) @ ?V)))"
    using reads_value(1) [OF _ buf1 Cons.prems(3) refl, of m] Cons.prems(1) m e by auto
  have ins: "dict_insert k v acc = acc @ [(k, v)]"
    using Cons.prems(6) by (intro dict_insert_last) (auto simp: e sorted_wrt_append)
  have "parse_entries m buf (acc @ [(k, v)]) (length (pre @ ?K @ ?V)) =
    Some (Inr (BDict ((acc @ [(k, v)]) @ es), length (pre @ ?K @ ?V) + length ?R + 1))"
  proof (rule Cons.IH [OF _ buf2 Cons.prems(3) refl])
    show "2 * length ?R + 2 \<le> m"
      using m(2) encode_length_pos [of v] by linarith
  qed (use Cons.prems(1,6) in \<open>simp_all add: e\<close>)
  with key val ins m show ?case by (simp add: bbind_def e Cons.prems(4))
qed

lemma reads_bytes: "reads (BBytes d)"
  unfolding reads_def
proof (intro allI impI)
  fix n buf pre rest
  assume buf: "buf = pre @ encode_to_vec (BBytes d) @ rest" "length buf < 2 ^ 64"
    and n: "2 * length (encode_to_vec (BBytes d)) + 1 \<le> n"
  obtain b bs where b: "encode_to_vec (BBytes d) = b # bs" "is_digit_byte b" using encode_head_digit by blast
  then have "byte_at buf (length pre) = Some b" using buf by simp
  with n parse_bytes_encoded [OF buf] b(2)
  show "parse_value n buf (length pre) = Some (Inr (BBytes d, length pre + length (encode_to_vec (BBytes d))))"
    by (cases n) (auto dest: digit_not_special)
qed

lemma wf_reads: "wf_bencode v \<Longrightarrow> reads v"
proof (induction v)
  case (BInt i)
  show ?case
    unfolding reads_def
  proof (intro allI impI)
    fix n buf pre rest
    assume buf: "buf = pre @ encode_to_vec (BInt i) @ rest" and n: "2 * length (encode_to_vec (BInt i)) + 1 \<le> n"
    have "byte_at buf (length pre) = Some 105" using buf by (simp add: encode_to_vec_simps)
    with n parse_int_encoded [OF buf]
    show "parse_value n buf (length pre) = Some (Inr (BInt i, length pre + length (encode_to_vec (BInt i))))"
      by (cases n) simp_all
  qed
next
  case (BBytes d)
  show ?case by (rule reads_bytes)
next
  case (BList vs)
  show ?case
    unfolding reads_def
  proof (intro allI impI)
    fix n buf pre rest
    assume buf: "buf = pre @ encode_to_vec (BList vs) @ rest" "length buf < 2 ^ 64"
      and n: "2 * length (encode_to_vec (BList vs)) + 1 \<le> n"
    then obtain m where m: "n = Suc m" "2 * length (concat (map encode_to_vec vs)) + 2 \<le> m"
      by (cases n) (auto simp: encode_to_vec_simps)
    have buf': "buf = (pre @ [108]) @ concat (map encode_to_vec vs) @ 101 # rest"
      using buf by (simp add: encode_to_vec_simps)
    have "byte_at buf (length pre) = Some 108" using buf by (simp add: encode_to_vec_simps)
    with parse_items_encoded [OF _ buf' buf(2) refl m(2), of "[]"] BList m(1)
    show "parse_value n buf (length pre) = Some (Inr (BList vs, length pre + length (encode_to_vec (BList vs))))"
      by (simp add: encode_to_vec_simps)
  qed
next
  case (BDict es)
  have r: "\<forall>e \<in> set es. reads (BBytes (fst e)) \<and> reads (snd e)"
    using BDict reads_bytes by (auto simp: snds.simps)
  show ?case
    unfolding reads_def
  proof (intro allI impI)
    fix n buf pre rest
    assume buf: "buf = pre @ encode_to_vec (BDict es) @ rest" "length buf < 2 ^ 64"
      and n: "2 * length (encode_to_vec (BDict es)) + 1 \<le> n"
    let ?R = "concat (map (\<lambda>(k, v). encode_to_vec (BBytes k) @ encode_to_vec v) es)"
    obtain m where m: "n = Suc m" "2 * length ?R + 2 \<le> m"
      using n by (cases n) (auto simp: encode_to_vec_simps)
    have buf': "buf = (pre @ [100]) @ ?R @ 101 # rest"
      using buf by (simp add: encode_to_vec_simps)
    have "byte_at buf (length pre) = Some 100" using buf by (simp add: encode_to_vec_simps)
    with parse_entries_encoded [OF r buf' buf(2) refl m(2), of "[]"] BDict.prems m(1)
    show "parse_value n buf (length pre) = Some (Inr (BDict es, length pre + length (encode_to_vec (BDict es))))"
      by (simp add: encode_to_vec_simps(4))
  qed
qed

section \<open>More bytes\<close>

lemma parse_int_extend:
  assumes "parse_int buf pos = Some r" "r \<noteq> Inl Incomplete" "pos < length buf"
  shows "parse_int (buf @ ext) pos = Some r"
proof -
  have d: "drop (pos + 1) (buf @ ext) = drop (pos + 1) buf @ ext" using assms(3) by simp
  have "scan_int True (drop (pos + 1) buf) \<noteq> Inl Incomplete"
    using assms(1,2) by (auto simp: parse_int_def)
  from scan_int_extend [OF refl this, of ext] assms(1) show ?thesis
    unfolding parse_int_def d by simp
qed

lemma parse_bytes_extend:
  assumes "parse_bytes buf pos = Some r" "r \<noteq> Inl Incomplete" "pos < length buf"
  shows "parse_bytes (buf @ ext) pos = Some r"
proof -
  have d: "drop pos (buf @ ext) = drop pos buf @ ext" using assms(3) by simp
  have "scan_len (drop pos buf) \<noteq> Inl Incomplete"
    using assms(1,2) by (auto simp: parse_bytes_def)
  from scan_len_extend [OF refl this, of ext] assms(1,2) show ?thesis
    unfolding parse_bytes_def d
    by (auto simp: Let_def split: sum.splits option.splits if_splits)
qed

lemma parse_extend:
  "(\<forall>buf pos r m ext. parse_value n buf pos = Some r \<longrightarrow> r \<noteq> Inl Incomplete \<longrightarrow> n \<le> m \<longrightarrow>
      parse_value m (buf @ ext) pos = Some r) \<and>
   (\<forall>buf acc pos r m ext. parse_items n buf acc pos = Some r \<longrightarrow> r \<noteq> Inl Incomplete \<longrightarrow> n \<le> m \<longrightarrow>
      parse_items m (buf @ ext) acc pos = Some r) \<and>
   (\<forall>buf acc pos r m ext. parse_entries n buf acc pos = Some r \<longrightarrow> r \<noteq> Inl Incomplete \<longrightarrow> n \<le> m \<longrightarrow>
      parse_entries m (buf @ ext) acc pos = Some r)"
proof (induction n)
  case (Suc n)
  note val_ih = Suc.IH [THEN conjunct1, rule_format]
  note items = Suc.IH [THEN conjunct2, THEN conjunct1, rule_format]
  note entries = Suc.IH [THEN conjunct2, THEN conjunct2, rule_format]
  have "parse_value m (buf @ ext) pos = Some r"
    if r: "parse_value (Suc n) buf pos = Some r" "r \<noteq> Inl Incomplete" and m: "Suc n \<le> m" for buf pos r m ext
  proof -
    from m obtain k where k: "m = Suc k" "n \<le> k" by (cases m) auto
    from r have pos: "pos < length buf" by (auto simp: byte_at_def split: if_splits)
    then show ?thesis
      using r k parse_int_extend [OF _ r(2) pos] parse_bytes_extend [OF _ r(2) pos]
        items [OF _ r(2) k(2)] entries [OF _ r(2) k(2)]
      by (auto split: option.splits if_splits)
  qed
  moreover have "parse_items m (buf @ ext) acc pos = Some r"
    if r: "parse_items (Suc n) buf acc pos = Some r" "r \<noteq> Inl Incomplete" and m: "Suc n \<le> m" for buf acc pos r m ext
  proof -
    from m obtain k where k: "m = Suc k" "n \<le> k" by (cases m) auto
    show ?thesis
    proof (cases "byte_at buf pos = Some 101")
      case True
      with r k show ?thesis by (auto simp: byte_at_def nth_append split: if_splits)
    next
      case False
      with r(1) obtain x where x: "parse_value n buf pos = Some x" by (auto simp: bbind_def split: option.splits)
      with False r have nx: "x \<noteq> Inl Incomplete" by (auto simp: bbind_def)
      from nx x False have "pos < length buf"
        by (cases n) (auto simp: byte_at_def split: if_splits)
      then have "byte_at (buf @ ext) pos \<noteq> Some 101" using False by simp
      with False r x val_ih [OF x nx k(2)] items [OF _ r(2) k(2)] k(1) show ?thesis
        by (auto simp: bbind_def split: sum.splits)
    qed
  qed
  moreover have "parse_entries m (buf @ ext) acc pos = Some r"
    if r: "parse_entries (Suc n) buf acc pos = Some r" "r \<noteq> Inl Incomplete" and m: "Suc n \<le> m" for buf acc pos r m ext
  proof -
    from m obtain k where k: "m = Suc k" "n \<le> k" by (cases m) auto
    show ?thesis
    proof (cases "byte_at buf pos = Some 101")
      case True
      with r k show ?thesis by (auto simp: byte_at_def nth_append split: if_splits)
    next
      case False
      with r(1) obtain x where x: "parse_value n buf pos = Some x" by (auto simp: bbind_def split: option.splits)
      with False r have nx: "x \<noteq> Inl Incomplete" by (auto simp: bbind_def)
      from nx x False have "pos < length buf"
        by (cases n) (auto simp: byte_at_def split: if_splits)
      then have not_end: "byte_at (buf @ ext) pos \<noteq> Some 101" using False by simp
      note key = val_ih [OF x nx k(2), of ext]
      have val: "bbind (parse_value k (buf @ ext) p) (\<lambda>v. parse_entries k (buf @ ext) (dict_insert d v acc)) = Some r"
        if y: "bbind (parse_value n buf p) (\<lambda>v. parse_entries n buf (dict_insert d v acc)) = Some r" for d p
      proof -
        from y obtain z where z: "parse_value n buf p = Some z" by (auto simp: bbind_def split: option.splits)
        with y r(2) have "z \<noteq> Inl Incomplete" by (auto simp: bbind_def)
        from val_ih [OF z this k(2), of ext] y z entries [OF _ r(2) k(2)] show ?thesis
          by (auto simp: bbind_def split: sum.splits)
      qed
      show ?thesis
        using False r(1) x key not_end k(1) val
        by (cases x) (auto simp: bbind_def [of "Some _"] split: bencode.splits)
    qed
  qed
  ultimately show ?case by blast
qed simp

section \<open>Every buffer decodes\<close>

lemma dict_insert_keys: "fst ` set (dict_insert k v es) = insert k (fst ` set es)"
  by (induction k v es rule: dict_insert.induct) (simp_all add: insert_commute)

lemma dict_insert_sorted: "sorted_wrt (<) (map fst es) \<Longrightarrow> sorted_wrt (<) (map fst (dict_insert k v es))"
proof (induction es)
  case (Cons e es)
  obtain k' v' where e: "e = (k', v')" by fastforce
  with Cons have "\<forall>x \<in> fst ` set es. k' < x" "sorted_wrt (<) (map fst (dict_insert k v es))" by auto
  moreover from this(1) have "\<forall>x \<in> fst ` set (dict_insert k v es). k' < x" if "k' < k"
    using that unfolding dict_insert_keys by simp
  ultimately show ?case using Cons.prems e by auto
qed simp

lemma dict_insert_values: "e \<in> set (dict_insert k v es) \<Longrightarrow> snd e = v \<or> e \<in> set es"
  by (induction es) (auto split: if_splits)

text \<open>A parsed value lies after \<open>pos\<close> inside the buffer and is well formed.\<close>

definition parsed :: "byte list \<Rightarrow> nat \<Rightarrow> bencode bres \<Rightarrow> bool" where
  "parsed buf pos m \<longleftrightarrow> (\<exists>r. m = Some r \<and>
     (\<forall>v p. r = Inr (v, p) \<longrightarrow> pos < p \<and> p \<le> length buf \<and> wf_bencode v))"

lemma parsed_Inl [simp]: "parsed buf pos (Some (Inl e))"
  by (simp add: parsed_def)

lemma parsed_Inr [simp]:
  "parsed buf pos (Some (Inr (v, p))) \<longleftrightarrow> pos < p \<and> p \<le> length buf \<and> wf_bencode v"
  by (simp add: parsed_def)

lemma parsed_bind:
  assumes "parsed buf pos m" "\<And>v p. pos < p \<Longrightarrow> p \<le> length buf \<Longrightarrow> wf_bencode v \<Longrightarrow> parsed buf pos (f v p)"
  shows "parsed buf pos (bbind m f)"
  using assms by (auto simp: parsed_def bbind_def split: sum.splits)

lemma parsed_weaken: "parsed buf q m \<Longrightarrow> pos \<le> q \<Longrightarrow> parsed buf pos m"
  by (auto simp: parsed_def)

lemma parse_int_parsed: "pos < length buf \<Longrightarrow> parsed buf pos (parse_int buf pos)"
proof -
  assume pos: "pos < length buf"
  have "pos + 1 + length ds + 1 \<le> length buf" if "scan_int True (drop (pos + 1) buf) = Inr ds" for ds
  proof -
    from scan_int_end [OF that] obtain rest where "drop (pos + 1) buf = ds @ 101 # rest" by blast
    from arg_cong [OF this, of length] pos show ?thesis by simp
  qed
  then show ?thesis
    by (auto simp: parse_int_def parsed_def split: sum.splits option.splits)
qed

lemma parse_bytes_parsed: "parsed buf pos (parse_bytes buf pos)"
  by (auto simp: parse_bytes_def parsed_def Let_def split: sum.splits option.splits if_splits)

lemma parse_total:
  "(\<forall>buf pos. 2 * (length buf - pos) + 1 \<le> n \<longrightarrow> parsed buf pos (parse_value n buf pos)) \<and>
   (\<forall>buf acc pos. 2 * (length buf - pos) + 2 \<le> n \<longrightarrow> (\<forall>v \<in> set acc. wf_bencode v) \<longrightarrow>
      parsed buf pos (parse_items n buf acc pos)) \<and>
   (\<forall>buf acc pos. 2 * (length buf - pos) + 2 \<le> n \<longrightarrow> wf_bencode (BDict acc) \<longrightarrow>
      parsed buf pos (parse_entries n buf acc pos))"
proof (induction n)
  case (Suc n)
  note val_ih = Suc.IH [THEN conjunct1, rule_format]
  note items = Suc.IH [THEN conjunct2, THEN conjunct1, rule_format]
  note entries = Suc.IH [THEN conjunct2, THEN conjunct2, rule_format]
  have "parsed buf pos (parse_value (Suc n) buf pos)" if n: "2 * (length buf - pos) + 1 \<le> Suc n" for buf pos
  proof (cases "pos < length buf")
    case True
    then have b: "byte_at buf pos = Some (buf ! pos)" by (simp add: byte_at_def)
    have "2 * (length buf - (pos + 1)) + 2 \<le> n" using n True by simp
    from parsed_weaken [OF items [OF this, of "[]"], of pos] parsed_weaken [OF entries [OF this, of "[]"], of pos]
      parse_int_parsed [OF True] parse_bytes_parsed [of buf pos]
    show ?thesis by (simp add: b)
  qed (simp add: byte_at_def)
  moreover have "parsed buf pos (parse_items (Suc n) buf acc pos)"
    if n: "2 * (length buf - pos) + 2 \<le> Suc n" and acc: "\<forall>v \<in> set acc. wf_bencode v" for buf acc pos
  proof (cases "byte_at buf pos = Some 101")
    case True
    with acc show ?thesis by (simp add: byte_at_def split: if_splits)
  next
    case False
    have "parsed buf pos (bbind (parse_value n buf pos) (\<lambda>v. parse_items n buf (acc @ [v])))"
    proof (rule parsed_bind)
      show "parsed buf pos (parse_value n buf pos)" using n by (intro val_ih) simp
      show "parsed buf pos (parse_items n buf (acc @ [v]) p)"
        if "pos < p" "p \<le> length buf" "wf_bencode v" for v p
        by (rule parsed_weaken [OF items]) (use n acc that in auto)
    qed
    with False show ?thesis by simp
  qed
  moreover have "parsed buf pos (parse_entries (Suc n) buf acc pos)"
    if n: "2 * (length buf - pos) + 2 \<le> Suc n" and acc: "wf_bencode (BDict acc)" for buf acc pos
  proof (cases "byte_at buf pos = Some 101")
    case True
    with acc show ?thesis by (auto simp: byte_at_def split: if_splits)
  next
    case False
    have ins: "wf_bencode (BDict (dict_insert k v acc))" if "wf_bencode v" for k v
      using acc that dict_insert_sorted [of acc k v] by (auto dest: dict_insert_values)
    have entry: "parsed buf p (bbind (parse_value n buf p) (\<lambda>v. parse_entries n buf (dict_insert k v acc)))"
      if p: "pos < p" "p \<le> length buf" for k p
    proof (rule parsed_bind)
      show "parsed buf p (parse_value n buf p)" using n p by (intro val_ih) simp
      show "parsed buf p (parse_entries n buf (dict_insert k v acc) q)"
        if "p < q" "q \<le> length buf" "wf_bencode v" for v q
        by (rule parsed_weaken [OF entries]) (use n p that ins in auto)
    qed
    have "parsed buf pos (parse_value n buf pos)" using n by (intro val_ih) simp
    then have "parsed buf pos (parse_entries (Suc n) buf acc pos)"
      unfolding parse_entries.simps if_not_P [OF False]
    proof (rule parsed_bind)
      fix key p
      assume "pos < p" "p \<le> length buf"
      then show "parsed buf pos (case key of
          BBytes k \<Rightarrow> bbind (parse_value n buf p) (\<lambda>v. parse_entries n buf (dict_insert k v acc))
        | _ \<Rightarrow> Some (Inl (Invalid ''dict key must be a byte string'')))"
        using parsed_weaken [OF entry, of p pos] by (simp split: bencode.split)
    qed
    then show ?thesis .
  qed
  ultimately show ?case by blast
qed simp

section \<open>Properties of the codec\<close>

lemma report_None: "report x = Inr None \<longleftrightarrow> x = Inl Incomplete"
  by (cases x rule: report.cases) auto

lemma report_Some: "report x = Inr (Some y) \<longleftrightarrow> x = Inr y"
  by (cases x rule: report.cases) auto

lemma decode_encoded:
  assumes "wf_bencode v" "length (encode_to_vec v @ rest) < 2 ^ 64"
  shows "decode (encode_to_vec v @ rest) = Some (Inr (Some (v, length (encode_to_vec v))))"
proof -
  have "parse_value (2 * length (encode_to_vec v @ rest) + 1) (encode_to_vec v @ rest) 0 =
    Some (Inr (v, length ([] @ encode_to_vec v)))"
    by (rule reads_value(1) [OF wf_reads [OF assms(1)] _ assms(2)]) simp_all
  then show ?thesis unfolding decode_def by simp
qed

lemma decode_total:
  "\<exists>r. decode buf = Some r \<and> (\<forall>v n. r = Inr (Some (v, n)) \<longrightarrow> 0 < n \<and> n \<le> length buf \<and> wf_bencode v)"
proof -
  have "parsed buf 0 (parse_value (2 * length buf + 1) buf 0)"
    by (rule parse_total [THEN conjunct1, rule_format]) simp
  then obtain x where x: "parse_value (2 * length buf + 1) buf 0 = Some x"
    "\<forall>v p. x = Inr (v, p) \<longrightarrow> 0 < p \<and> p \<le> length buf \<and> wf_bencode v"
    unfolding parsed_def by blast
  show ?thesis
    unfolding decode_def x(1) using x(2) by (auto simp: report_Some)
qed

lemma decode_extend:
  assumes "decode buf = Some r" "r \<noteq> Inr None"
  shows "decode (buf @ ext) = Some r"
proof -
  obtain x where x: "parse_value (2 * length buf + 1) buf 0 = Some x" "r = report x"
    using assms(1) unfolding decode_def map_option_eq_Some by metis
  with assms(2) have "x \<noteq> Inl Incomplete" by (simp add: report_None)
  note x = x(1) this x(2)
  have "parse_value (2 * length (buf @ ext) + 1) (buf @ ext) 0 = Some x"
    by (rule parse_extend [THEN conjunct1, rule_format, OF x(1,2)]) simp
  with x(3) show ?thesis unfolding decode_def by simp
qed

definition bencode_dec :: "byte list \<Rightarrow> (bencode \<times> byte list) option" where
  "bencode_dec buf =
     (case decode buf of Some (Inr (Some (v, n))) \<Rightarrow> Some (v, drop n buf) | _ \<Rightarrow> None)"

interpretation bencoded: prefix_codec encode_to_vec bencode_dec wf_bencode "\<lambda>buf. length buf < 2 ^ 64"
  by unfold_locales (simp add: bencode_dec_def decode_encoded)

text \<open>
  C9. Bencode values read back: decoding a buffer that starts with the encoding of a value
  gives that value and the number of bytes of its encoding, whatever follows in the buffer.
\<close>

theorem bencode_roundtrip:
  assumes "wf_bencode v" and "length (encode_to_vec v @ rest) < 2 ^ 64"
  shows "decode (encode_to_vec v @ rest) = Some (Inr (Some (v, length (encode_to_vec v))))"
  by (rule decode_encoded [OF assms])

theorem bencode_roundtrip_witness:
  "decode (encode_to_vec (BDict [([97], BInt 7), ([98], BList [])]) @ [120]) =
     Some (Inr (Some (BDict [([97], BInt 7), ([98], BList [])],
       length (encode_to_vec (BDict [([97], BInt 7), ([98], BList [])])))))"
  by (rule bencode_roundtrip)
    (simp_all add: encode_to_vec_simps int_text_def nat_text.simps)

text \<open>
  C36. Decoding is total and its answers are final.  Every buffer gives a value with the
  number of bytes it took, an error, or the request for more bytes; a value or an error is
  never revised when more bytes arrive, so an error means that no continuation is valid.
\<close>

theorem decode_final:
  "\<exists>r. decode buf = Some r \<and>
     (case r of
        Inr (Some (v, n)) \<Rightarrow> 0 < n \<and> n \<le> length buf \<and> wf_bencode v \<and> (\<forall>ext. decode (buf @ ext) = Some r)
      | Inr None \<Rightarrow> True
      | Inl msg \<Rightarrow> (\<forall>ext. decode (buf @ ext) = Some r))"
proof -
  from decode_total [of buf] obtain r where r: "decode buf = Some r"
    "\<forall>v n. r = Inr (Some (v, n)) \<longrightarrow> 0 < n \<and> n \<le> length buf \<and> wf_bencode v" by blast
  show ?thesis
    using r decode_extend [OF r(1)]
    by (intro exI [of _ r]) (auto split: sum.split option.split)
qed

text \<open>
  Framing is exact: every proper prefix of the encoding of a value asks for more bytes,
  so a reader neither takes a partial message for a whole one nor reports an error.
\<close>

theorem proper_prefix_incomplete:
  assumes "wf_bencode v" and "length (encode_to_vec v) < 2 ^ 64" and "strict_prefix buf (encode_to_vec v)"
  shows "decode buf = Some (Inr None)"
proof (rule ccontr)
  assume "decode buf \<noteq> Some (Inr None)"
  with decode_total [of buf] obtain r where r: "decode buf = Some r" "r \<noteq> Inr None"
    and len: "\<forall>v n. r = Inr (Some (v, n)) \<longrightarrow> n \<le> length buf" by auto
  from assms(3) obtain ext where ext: "encode_to_vec v = buf @ ext" "ext \<noteq> []"
    by (auto simp: strict_prefix_def prefix_def)
  have "Some r = Some (Inr (Some (v, length (encode_to_vec v))))"
    using decode_extend [OF r, of ext] decode_encoded [OF assms(1), of "[]"] assms(2) ext(1) by simp
  with len ext show False by simp
qed

end
