(* ===== verification/Lexer.thy ===== *)
theory Lexer
  imports Rust_Numbers
begin

text \<open>
  The lexer of \<^verbatim>\<open>crates/cljrs-reader/src/lexer.rs\<close>, with the tokens of \<^verbatim>\<open>token.rs\<close> and
  the spans and errors of \<^verbatim>\<open>crates/cljrs-types\<close>.  Every operation is the whole method of
  the source: it returns its result and the lexer it leaves behind, on error paths too.
  The lemmas at the end describe how each operation moves the cursor.
\<close>

section \<open>Spans, errors, tokens\<close>

record span =
  sp_file :: str
  sp_start :: nat
  sp_end :: nat
  sp_line :: nat
  sp_col :: nat

definition span_new :: "str \<Rightarrow> nat \<Rightarrow> nat \<Rightarrow> nat \<Rightarrow> nat \<Rightarrow> span" where
  "span_new f s e ln c = \<lparr>sp_file = f, sp_start = s, sp_end = e, sp_line = ln, sp_col = c\<rparr>"

definition span_len :: "span \<Rightarrow> nat" where
  "span_len s = sp_end s - sp_start s"

definition span_is_empty :: "span \<Rightarrow> bool" where
  "span_is_empty s \<longleftrightarrow> span_len s = 0"

text \<open>\<open>miette::SourceSpan\<close>: an offset and a length.\<close>

definition source_span :: "span \<Rightarrow> nat \<times> nat" where
  "source_span s = (sp_start s, span_len s)"

text \<open>
  The text of an error message: one constructor per format string of the reader, with
  the values it interpolates.
\<close>

datatype read_msg =
    UnknownDispatch "uchar option"
  | UnterminatedRegex
  | UnknownSymbolic str
  | UnterminatedString
  | UnknownStringEscape uchar
  | InvalidUnicodeEscape uchar
  | UnterminatedUnicodeEscape
  | InvalidCodePoint str
  | OctalCharOutOfRange str
  | InvalidCodePointInChar str
  | UnknownCharName str
  | EofAfterBackslash
  | EmptyAutoKeyword
  | EmptyKeyword
  | ExpectedHexDigits
  | InvalidDigit uchar nat
  | InvalidOctal str
  | InvalidFloat str
  | UnexpectedCharacter uchar
  | UnexpectedClosingDelimiter
  | OddMapForms
  | EofAfterDiscard
  | Unclosed string
  | EofExpected string
  | ReaderCondRequiresParen
  | OddReaderCondClauses

text \<open>\<open>CljxError::ReadError\<close>: message, label span, source name and source text.\<close>

datatype cljx_error = ReadError read_msg "nat \<times> nat" str str

datatype token =
    Tok_Nil
  | Tok_Bool bool
  | Tok_Int i64
  | Tok_BigInt str
  | Tok_Float u64
  | Tok_BigDecimal str
  | Tok_Ratio str
  | Tok_Char uchar
  | Tok_Str str
  | Tok_Symbol str
  | Tok_Keyword str
  | Tok_AutoKeyword str
  | Tok_LParen
  | Tok_RParen
  | Tok_LBracket
  | Tok_RBracket
  | Tok_LBrace
  | Tok_RBrace
  | Tok_Quote
  | Tok_SyntaxQuote
  | Tok_Unquote
  | Tok_UnquoteSplice
  | Tok_Deref
  | Tok_Meta
  | Tok_HashFn
  | Tok_HashSet
  | Tok_HashVar
  | Tok_HashDiscard
  | Tok_Regex str
  | Tok_ReaderCond
  | Tok_ReaderCondSplice
  | Tok_Symbolic str
  | Tok_TaggedLiteral str
  | Tok_Eof

section \<open>Character classes\<close>

definition is_symbol_char :: "uchar \<Rightarrow> bool" where
  "is_symbol_char ch \<longleftrightarrow>
     ch \<notin> {32, 9, 10, 13, 44,        \<comment> \<open>space, tab, newline, carriage return, comma\<close>
          40, 41, 91, 93, 123, 125,  \<comment> \<open>parentheses, brackets, braces\<close>
          34, 59, 96, 126, 94, 64, 92}  \<comment> \<open>quote, semicolon, backquote, tilde, caret, at, backslash\<close>"

definition is_symbol_start :: "uchar \<Rightarrow> bool" where
  "is_symbol_start ch \<longleftrightarrow> is_symbol_char ch \<and> \<not> is_ascii_digit ch \<and> ch \<noteq> 35 \<and> ch \<noteq> 58"

section \<open>The lexer and its cursor\<close>

text \<open>
  The source keeps a byte offset \<open>pos\<close> and re-slices \<open>source[pos..]\<close> at every step; the
  model carries that suffix as \<open>lx_rest\<close> beside the offset.  \<open>lx_alnum\<close> is the Unicode
  table behind \<open>char::is_alphanumeric\<close> for characters above ASCII, and \<open>lx_checked\<close> says
  whether the build traps arithmetic overflow (Rust's debug profile) or wraps.
\<close>

record lexer =
  lx_source :: str
  lx_file :: str
  lx_rest :: str
  lx_pos :: nat
  lx_line :: nat
  lx_col :: nat
  lx_alnum :: "uchar \<Rightarrow> bool"
  lx_checked :: bool

definition lexer_new :: "(uchar \<Rightarrow> bool) \<Rightarrow> bool \<Rightarrow> str \<Rightarrow> str \<Rightarrow> lexer" where
  "lexer_new alnum checked src f =
     \<lparr>lx_source = src, lx_file = f, lx_rest = src, lx_pos = 0, lx_line = 1, lx_col = 1,
      lx_alnum = alnum, lx_checked = checked\<rparr>"

definition is_alphanumeric :: "lexer \<Rightarrow> uchar \<Rightarrow> bool" where
  "is_alphanumeric l c \<longleftrightarrow> (if c < 128 then is_ascii_alphanumeric c else lx_alnum l c)"

definition peek :: "lexer \<Rightarrow> uchar option" where
  "peek l = (case lx_rest l of [] \<Rightarrow> None | c # _ \<Rightarrow> Some c)"

definition peek_next :: "lexer \<Rightarrow> uchar option" where
  "peek_next l = (case lx_rest l of [] \<Rightarrow> None | [_] \<Rightarrow> None | _ # c # _ \<Rightarrow> Some c)"

definition advance :: "lexer \<Rightarrow> uchar option \<times> lexer" where
  "advance l =
     (case lx_rest l of
        [] \<Rightarrow> (None, l)
      | ch # cs \<Rightarrow>
          (Some ch,
           l\<lparr>lx_rest := cs,
             lx_pos := lx_pos l + len_utf8 ch,
             lx_line := (if ch = 10 then lx_line l + 1 else lx_line l),
             lx_col := (if ch = 10 then 1 else lx_col l + len_utf8 ch)\<rparr>))"

text \<open>\<open>self.advance();\<close> as a statement.\<close>

definition adv :: "lexer \<Rightarrow> lexer" where
  "adv l = snd (advance l)"

text \<open>The start of a token: offset, line and column.\<close>

type_synonym mark = "nat \<times> nat \<times> nat"

definition span_from :: "lexer \<Rightarrow> mark \<Rightarrow> span" where
  "span_from l at = (case at of (p, ln, c) \<Rightarrow> span_new (lx_file l) p (lx_pos l) ln c)"

definition make_error :: "lexer \<Rightarrow> read_msg \<Rightarrow> span \<Rightarrow> cljx_error" where
  "make_error l msg s = ReadError msg (source_span s) (lx_file l) (lx_source l)"

type_synonym lex_result = "(cljx_error, token \<times> span) outcome \<times> lexer"

text \<open>\<open>Ok((tok, self.span_from(...)))\<close> and \<open>Err(self.make_error(msg, span))\<close>.\<close>

definition lex_ok :: "token \<Rightarrow> lexer \<Rightarrow> mark \<Rightarrow> lex_result" where
  "lex_ok t l at = (Ok (t, span_from l at), l)"

definition lex_err :: "read_msg \<Rightarrow> lexer \<Rightarrow> mark \<Rightarrow> lex_result" where
  "lex_err msg l at = (Err (make_error l msg (span_from l at)), l)"

lemma lx_rest_adv [simp]: "lx_rest (adv l) = tl (lx_rest l)"
  by (simp add: adv_def advance_def split: list.split)

lemma lx_fixed_adv [simp]:
  "lx_source (adv l) = lx_source l" "lx_file (adv l) = lx_file l" "lx_alnum (adv l) = lx_alnum l"
  "lx_checked (adv l) = lx_checked l"
  by (simp_all add: adv_def advance_def split: list.split)

lemma advance_eq: "advance l = (peek l, adv l)"
  by (simp add: adv_def advance_def peek_def split: list.split)

lemma peek_None: "peek l = None \<longleftrightarrow> lx_rest l = []"
  by (simp add: peek_def split: list.split)

lemma peek_Some: "peek l = Some c \<longleftrightarrow> (\<exists>cs. lx_rest l = c # cs)"
  "Some c = peek l \<longleftrightarrow> (\<exists>cs. lx_rest l = c # cs)"
  by (auto simp add: peek_def split: list.splits)

lemma peek_Nil [simp]: "lx_rest l = [] \<Longrightarrow> peek l = None"
  by (simp add: peek_def)

lemma peek_Cons [simp]: "lx_rest l = c # cs \<Longrightarrow> peek l = Some c"
  by (simp add: peek_def)

lemma peek_next_simps [simp]:
  "lx_rest l = [c] \<Longrightarrow> peek_next l = None"
  "lx_rest l = c # d # cs \<Longrightarrow> peek_next l = Some d"
  by (simp_all add: peek_next_def)

text \<open>
  \<open>while let Some(c) = self.peek() { if p(c) { buf.push(c); self.advance(); } else { break } }\<close>,
  the loop that collects symbol characters, digits, hex digits and radix digits.
\<close>

function take_chars :: "(uchar \<Rightarrow> bool) \<Rightarrow> lexer \<Rightarrow> str \<times> lexer" where
  "take_chars p l =
     (case peek l of
        None \<Rightarrow> ([], l)
      | Some c \<Rightarrow>
          if p c then (case take_chars p (adv l) of (buf, l') \<Rightarrow> (c # buf, l')) else ([], l))"
  by pat_completeness auto
termination
  by (relation "measure (\<lambda>(p, l). length (lx_rest l))") (auto simp: peek_Some)

declare take_chars.simps [simp del]

definition read_symbol_chars :: "lexer \<Rightarrow> str \<times> lexer" where
  "read_symbol_chars l = take_chars is_symbol_char l"

section \<open>Whitespace and comments\<close>

text \<open>\<open>while let Some(ch) = self.advance() { if ch == '\n' { break } }\<close>\<close>

function skip_line :: "lexer \<Rightarrow> lexer" where
  "skip_line l =
     (case advance l of
        (None, l1) \<Rightarrow> l1
      | (Some ch, l1) \<Rightarrow> if ch = 10 then l1 else skip_line l1)"
  by pat_completeness auto
termination
  by (relation "measure (\<lambda>l. length (lx_rest l))") (auto simp: advance_eq peek_Some)

declare skip_line.simps [simp del]

lemma skip_line_shorter: "length (lx_rest (skip_line l)) \<le> length (lx_rest l) - 1"
proof (induction l rule: skip_line.induct)
  case (1 l)
  show ?case
  proof (cases "lx_rest l")
    case Nil
    then show ?thesis
      by (simp add: skip_line.simps [of l] advance_eq)
  next
    case (Cons c cs)
    with 1 have "c \<noteq> 10 \<Longrightarrow> length (lx_rest (skip_line (adv l))) \<le> length cs - 1"
      by (simp add: advance_eq)
    with Cons show ?thesis
      by (auto simp: skip_line.simps [of l] advance_eq)
  qed
qed

function skip_whitespace_and_comments :: "lexer \<Rightarrow> lexer" where
  "skip_whitespace_and_comments l =
     (case peek l of
        None \<Rightarrow> l
      | Some c \<Rightarrow>
          if c = 35 \<and> lx_pos l = 0 then
            (if peek_next l = Some 33 then skip_whitespace_and_comments (skip_line l) else l)
          else if c = 32 \<or> c = 9 \<or> c = 13 \<or> c = 10 \<or> c = 44 then
            skip_whitespace_and_comments (adv l)
          else if c = 59 then skip_whitespace_and_comments (skip_line l)
          else l)"
  by pat_completeness auto
termination
proof (relation "measure (\<lambda>l. length (lx_rest l))", goal_cases)
  case 1
  then show ?case by simp
next
  case (2 l c)
  with skip_line_shorter [of l] show ?case by (auto simp: peek_Some)
next
  case (3 l c)
  then show ?case by (auto simp: peek_Some)
next
  case (4 l c)
  with skip_line_shorter [of l] show ?case by (auto simp: peek_Some)
qed

declare skip_whitespace_and_comments.simps [simp del]

section \<open>Reader-macro tokens\<close>

definition lex_unquote :: "lexer \<Rightarrow> mark \<Rightarrow> lex_result" where
  "lex_unquote l at =
     (let l1 = adv l
      in if peek l1 = Some 64 then lex_ok Tok_UnquoteSplice (adv l1) at
         else lex_ok Tok_Unquote l1 at)"

text \<open>The body of a regex literal, after its opening quote; escapes are kept verbatim.\<close>

function lex_regex_loop :: "str \<Rightarrow> lexer \<Rightarrow> mark \<Rightarrow> lex_result" where
  "lex_regex_loop buf l at =
     (case advance l of
        (None, l1) \<Rightarrow> lex_err UnterminatedRegex l1 at
      | (Some c, l1) \<Rightarrow>
          if c = 34 then lex_ok (Tok_Regex buf) l1 at
          else if c = 92 then
            (case advance l1 of
               (Some d, l2) \<Rightarrow> lex_regex_loop (buf @ [92, d]) l2 at
             | (None, l2) \<Rightarrow> lex_err UnterminatedRegex l2 at)
          else lex_regex_loop (buf @ [c]) l1 at)"
  by pat_completeness auto
termination
  by (relation "measure (\<lambda>(buf, l, at). length (lx_rest l))") (auto simp: advance_eq peek_Some)

declare lex_regex_loop.simps [simp del]

definition lex_regex :: "lexer \<Rightarrow> mark \<Rightarrow> lex_result" where
  "lex_regex l at = lex_regex_loop [] (adv l) at"

definition lex_symbolic :: "lexer \<Rightarrow> mark \<Rightarrow> lex_result" where
  "lex_symbolic l at =
     (case read_symbol_chars (adv l) of
        (name, l1) \<Rightarrow>
          if name = lit ''Inf'' \<or> name = lit ''-Inf'' \<or> name = lit ''NaN''
          then lex_ok (Tok_Symbolic name) l1 at
          else lex_err (UnknownSymbolic name) l1 at)"

definition lex_hash :: "lexer \<Rightarrow> mark \<Rightarrow> lex_result" where
  "lex_hash l at =
     (let l1 = adv l
      in case peek l1 of
           None \<Rightarrow> lex_err (UnknownDispatch None) l1 at
         | Some c \<Rightarrow>
             if c = 40 then lex_ok Tok_HashFn (adv l1) at
             else if c = 123 then lex_ok Tok_HashSet (adv l1) at
             else if c = 39 then lex_ok Tok_HashVar (adv l1) at
             else if c = 95 then lex_ok Tok_HashDiscard (adv l1) at
             else if c = 34 then lex_regex l1 at
             else if c = 63 then
               (let l2 = adv l1
                in if peek l2 = Some 64 then lex_ok Tok_ReaderCondSplice (adv l2) at
                   else lex_ok Tok_ReaderCond l2 at)
             else if c = 35 then lex_symbolic l1 at
             else if is_symbol_start c then
               (case read_symbol_chars l1 of (name, l2) \<Rightarrow> lex_ok (Tok_TaggedLiteral name) l2 at)
             else lex_err (UnknownDispatch (Some c)) l1 at)"

section \<open>String literals\<close>

fun read_hex :: "nat \<Rightarrow> str \<Rightarrow> lexer \<Rightarrow> mark \<Rightarrow> (cljx_error, str) outcome \<times> lexer" where
  "read_hex 0 hex l at = (Ok hex, l)"
| "read_hex (Suc n) hex l at =
     (case advance l of
        (Some c, l1) \<Rightarrow>
          if is_ascii_hexdigit c then read_hex n (hex @ [c]) l1 at
          else (Err (make_error l1 (InvalidUnicodeEscape c) (span_from l1 at)), l1)
      | (None, l1) \<Rightarrow> (Err (make_error l1 UnterminatedUnicodeEscape (span_from l1 at)), l1))"

definition read_unicode_escape :: "lexer \<Rightarrow> mark \<Rightarrow> (cljx_error, uchar) outcome \<times> lexer" where
  "read_unicode_escape l at =
     (case read_hex 4 [] l at of
        (Ok hex, l1) \<Rightarrow>
          let code = digits_value 16 hex
          in if is_scalar code then (Ok code, l1)
             else (Err (make_error l1 (InvalidCodePoint hex) (span_from l1 at)), l1)
      | (Err e, l1) \<Rightarrow> (Err e, l1)
      | (Panic, l1) \<Rightarrow> (Panic, l1))"

lemma read_hex_shorter: "length (lx_rest (snd (read_hex n hex l at))) \<le> length (lx_rest l)"
proof (induction n hex l at rule: read_hex.induct)
  case (2 n hex l at)
  then show ?case
    by (cases "lx_rest l") (auto simp: advance_eq)
qed simp

lemma read_unicode_escape_shorter:
  "length (lx_rest (snd (read_unicode_escape l at))) \<le> length (lx_rest l)"
  using read_hex_shorter [of 4 "[]" l at]
  by (auto simp: read_unicode_escape_def Let_def split: prod.splits outcome.splits)

lemma read_unicode_escape_shorter':
  "(r, l') = read_unicode_escape l at \<Longrightarrow> length (lx_rest l') \<le> length (lx_rest l)"
  by (metis read_unicode_escape_shorter snd_conv)

text \<open>The one-character escapes of a string literal.\<close>

definition string_escape :: "uchar \<Rightarrow> uchar option" where
  "string_escape c =
     (if c = 110 then Some 10 else if c = 116 then Some 9 else if c = 114 then Some 13
      else if c = 98 then Some 8 else if c = 102 then Some 12
      else if c = 92 then Some 92 else if c = 34 then Some 34 else None)"

function lex_string_loop :: "str \<Rightarrow> lexer \<Rightarrow> mark \<Rightarrow> lex_result" where
  "lex_string_loop buf l at =
     (case advance l of
        (None, l1) \<Rightarrow> lex_err UnterminatedString l1 at
      | (Some c, l1) \<Rightarrow>
          if c = 34 then lex_ok (Tok_Str buf) l1 at
          else if c = 92 then
            (case advance l1 of
               (None, l2) \<Rightarrow> lex_err UnterminatedString l2 at
             | (Some d, l2) \<Rightarrow>
                 (case string_escape d of
                    Some e \<Rightarrow> lex_string_loop (buf @ [e]) l2 at
                  | None \<Rightarrow>
                      if d = 117 then
                        (case read_unicode_escape l2 at of
                           (Ok u, l3) \<Rightarrow> lex_string_loop (buf @ [u]) l3 at
                         | (Err e, l3) \<Rightarrow> (Err e, l3)
                         | (Panic, l3) \<Rightarrow> (Panic, l3))
                      else lex_err (UnknownStringEscape d) l2 at))
          else lex_string_loop (buf @ [c]) l1 at)"
  by pat_completeness auto
termination
  by (relation "measure (\<lambda>(buf, l, at). length (lx_rest l))")
    (auto simp: advance_eq peek_Some dest: read_unicode_escape_shorter')

declare lex_string_loop.simps [simp del]

definition lex_string :: "lexer \<Rightarrow> mark \<Rightarrow> lex_result" where
  "lex_string l at = lex_string_loop [] (adv l) at"

section \<open>Character literals\<close>

text \<open>
  \<open>self.pos += n; self.col += n\<close>, where \<open>n\<close> is the byte length of the text \<open>s\<close> the cursor
  steps over.  Unlike \<^const>\<open>advance\<close> it never starts a new line.
\<close>

definition step_over :: "str \<Rightarrow> lexer \<Rightarrow> lexer" where
  "step_over s l =
     l\<lparr>lx_rest := drop (length s) (lx_rest l), lx_pos := lx_pos l + utf8_len s,
       lx_col := lx_col l + utf8_len s\<rparr>"

definition char_name :: "str \<Rightarrow> uchar option" where
  "char_name name =
     (if name = lit ''newline'' then Some 10 else if name = lit ''space'' then Some 32
      else if name = lit ''tab'' then Some 9 else if name = lit ''backspace'' then Some 8
      else if name = lit ''formfeed'' then Some 12 else if name = lit ''return'' then Some 13
      else None)"

definition is_octal_name :: "str \<Rightarrow> bool" where
  "is_octal_name name \<longleftrightarrow>
     name \<noteq> [] \<and> hd name = 111 \<and> 2 \<le> utf8_len name \<and> utf8_len name \<le> 4 \<and>
     list_all (\<lambda>c. 48 \<le> c \<and> c \<le> 55) (tl name)"

definition lex_char_literal :: "lexer \<Rightarrow> mark \<Rightarrow> lex_result" where
  "lex_char_literal l at =
     (let l1 = adv l;
          name = takeWhile (\<lambda>c. is_alphanumeric l1 c \<or> c = 45) (lx_rest l1)
      in case char_name name of
           Some ch \<Rightarrow> lex_ok (Tok_Char ch) (step_over name l1) at
         | None \<Rightarrow>
             if is_octal_name name then
               (let code = digits_value 8 (tl name)
                in if 255 < code then lex_err (OctalCharOutOfRange name) l1 at
                   else lex_ok (Tok_Char code) (step_over name l1) at)
             else if name \<noteq> [] \<and> hd name = 117 \<and> 5 \<le> utf8_len name then
               (case split_bytes 4 (tl name) of
                  None \<Rightarrow> (Panic, l1)
                | Some (hex_part, _) \<Rightarrow>
                    if list_all is_ascii_hexdigit hex_part then
                      (let code = digits_value 16 hex_part
                       in if is_scalar code
                          then lex_ok (Tok_Char code) (step_over (117 # hex_part) l1) at
                          else lex_err (InvalidCodePointInChar hex_part) l1 at)
                    else lex_err (UnknownCharName name) l1 at)
             else if utf8_len name = 1 \<or> name = [] then
               (case lx_rest l1 of
                  c # _ \<Rightarrow> lex_ok (Tok_Char c) (step_over [c] l1) at
                | [] \<Rightarrow> lex_err EofAfterBackslash l1 at)
             else lex_err (UnknownCharName name) l1 at)"

section \<open>Keywords and symbols\<close>

definition lex_keyword :: "lexer \<Rightarrow> mark \<Rightarrow> lex_result" where
  "lex_keyword l at =
     (let l1 = adv l
      in if peek l1 = Some 58 then
           (case read_symbol_chars (adv l1) of
              (name, l2) \<Rightarrow>
                if name = [] then lex_err EmptyAutoKeyword l2 at
                else lex_ok (Tok_AutoKeyword name) l2 at)
         else
           (case read_symbol_chars l1 of
              (name, l2) \<Rightarrow>
                if name = [] then lex_err EmptyKeyword l2 at
                else lex_ok (Tok_Keyword name) l2 at))"

definition peek_version_hash :: "lexer \<Rightarrow> str option" where
  "peek_version_hash l =
     (let r = tl (lx_rest l);
          hash = takeWhile is_ascii_hexdigit (take 40 r)
      in if 7 \<le> length hash
         then (case drop (length hash) r of
                 [] \<Rightarrow> Some hash
               | c # _ \<Rightarrow> if is_ascii_hexdigit c then None else Some hash)
         else None)"

definition lex_symbol :: "lexer \<Rightarrow> mark \<Rightarrow> lex_result" where
  "lex_symbol l at =
     (case read_symbol_chars l of
        (name0, l1) \<Rightarrow>
          case (if peek l1 = Some 64
                then (case peek_version_hash l1 of
                        Some hash \<Rightarrow> (name0 @ [64] @ hash, (adv ^^ length hash) (adv l1))
                      | None \<Rightarrow> (name0, l1))
                else (name0, l1)) of
            (name, l2) \<Rightarrow>
              lex_ok (if name = lit ''nil'' then Tok_Nil
                      else if name = lit ''true'' then Tok_Bool True
                      else if name = lit ''false'' then Tok_Bool False
                      else Tok_Symbol name) l2 at)"

section \<open>Numbers\<close>

text \<open>Negation of an \<open>i64\<close>: the minimum has no negation, which a checked build traps.\<close>

definition neg_i64 :: "bool \<Rightarrow> i64 \<Rightarrow> i64 option" where
  "neg_i64 checked n = (if checked \<and> sint n = i64_min then None else Some (- n))"

text \<open>The digit loop of a radix literal, on wrapping \<open>u128\<close> arithmetic.\<close>

fun radix_value :: "nat \<Rightarrow> nat \<Rightarrow> str \<Rightarrow> (uchar, nat) outcome" where
  "radix_value radix v [] = Ok v"
| "radix_value radix v (c # cs) =
     (case to_digit radix c of
        Ok d \<Rightarrow> radix_value radix ((v * radix + d) mod 2 ^ 128) cs
      | Err _ \<Rightarrow> Err c
      | Panic \<Rightarrow> Panic)"

definition lex_hex_number :: "bool \<Rightarrow> lexer \<Rightarrow> mark \<Rightarrow> lex_result" where
  "lex_hex_number negative l at =
     (case take_chars is_ascii_hexdigit (adv l) of
        (hex, l1) \<Rightarrow>
          if hex = [] then lex_err ExpectedHexDigits l1 at
          else
            let v = (case parse_unsigned 16 (2 ^ 128 - 1) hex of Some n \<Rightarrow> n | None \<Rightarrow> 2 ^ 128 - 1)
            in if negative then
                 (if v \<le> 2 ^ 63 then lex_ok (Tok_Int (0 - word_of_nat v)) l1 at
                  else lex_ok (Tok_BigInt (45 # nat_text v)) l1 at)
               else if v \<le> 2 ^ 63 - 1 then lex_ok (Tok_Int (word_of_nat v)) l1 at
               else lex_ok (Tok_BigInt (nat_text v)) l1 at)"

definition lex_radix_number :: "bool \<Rightarrow> str \<Rightarrow> lexer \<Rightarrow> mark \<Rightarrow> lex_result" where
  "lex_radix_number negative int_part l at =
     (let radix = (case parse_unsigned 10 (2 ^ 32 - 1) int_part of Some n \<Rightarrow> n | None \<Rightarrow> 0)
      in case take_chars is_ascii_alphanumeric (adv l) of
           (digits, l1) \<Rightarrow>
             (case radix_value radix 0 digits of
                Panic \<Rightarrow> (Panic, l1)
              | Err c \<Rightarrow> lex_err (InvalidDigit c radix) l1 at
              | Ok v \<Rightarrow>
                  if negative then
                    (if v \<le> 2 ^ 63 then
                       (case neg_i64 (lx_checked l1) (word_of_nat v) of
                          None \<Rightarrow> (Panic, l1)
                        | Some n \<Rightarrow> lex_ok (Tok_Int n) l1 at)
                     else lex_ok (Tok_BigInt (45 # nat_text v)) l1 at)
                  else if v \<le> 2 ^ 63 - 1 then lex_ok (Tok_Int (word_of_nat v)) l1 at
                  else lex_ok (Tok_BigInt (nat_text v)) l1 at))"

definition lex_octal_number :: "bool \<Rightarrow> str \<Rightarrow> lexer \<Rightarrow> mark \<Rightarrow> lex_result" where
  "lex_octal_number negative int_part l at =
     (if list_ex (\<lambda>b. b = 56 \<or> b = 57) int_part
      then lex_err (InvalidOctal ((if negative then [45] else []) @ int_part)) l at
      else
        let v = (case parse_unsigned 8 (2 ^ 63 - 1) int_part of Some n \<Rightarrow> n | None \<Rightarrow> 0)
        in lex_ok (Tok_Int (if negative then - word_of_nat v else word_of_nat v)) l at)"

text \<open>The fraction and the exponent of a float literal, each with the text it adds.\<close>

definition lex_fraction :: "str \<Rightarrow> lexer \<Rightarrow> str \<times> lexer" where
  "lex_fraction raw l =
     (if peek l = Some 46
      then (case take_chars is_ascii_digit (adv l) of (ds, l1) \<Rightarrow> (raw @ [46] @ ds, l1))
      else (raw, l))"

definition lex_exponent :: "str \<Rightarrow> lexer \<Rightarrow> str \<times> lexer" where
  "lex_exponent raw l =
     (if peek l = Some 101 \<or> peek l = Some 69
      then
        (let l1 = adv l
         in case (case peek l1 of
                    Some c \<Rightarrow> if c = 43 \<or> c = 45 then (raw @ [101, c], adv l1) else (raw @ [101], l1)
                  | None \<Rightarrow> (raw @ [101], l1)) of
              (raw2, l2) \<Rightarrow>
                (case take_chars is_ascii_digit l2 of (ds, l3) \<Rightarrow> (raw2 @ ds, l3)))
      else (raw, l))"

definition lex_float_number :: "str \<Rightarrow> lexer \<Rightarrow> mark \<Rightarrow> lex_result" where
  "lex_float_number raw0 l at =
     (case lex_fraction raw0 l of
        (raw1, l1) \<Rightarrow>
          case lex_exponent raw1 l1 of
            (raw, l2) \<Rightarrow>
              if peek l2 = Some 77 then lex_ok (Tok_BigDecimal raw) (adv l2) at
              else (case parse_f64 raw of
                      Some val \<Rightarrow> lex_ok (Tok_Float val) l2 at
                    | None \<Rightarrow> lex_err (InvalidFloat raw) l2 at))"

definition lex_number :: "lexer \<Rightarrow> mark \<Rightarrow> lex_result" where
  "lex_number l at =
     (let negative = (peek l = Some 45);
          l1 = (if peek l = Some 45 \<or> peek l = Some 43 then adv l else l);
          sign_str = (if negative then [45] else [])
      in case take_chars is_ascii_digit l1 of
           (int_part, l2) \<Rightarrow>
             if int_part = [48] \<and> (peek l2 = Some 120 \<or> peek l2 = Some 88)
             then lex_hex_number negative l2 at
             else if peek l2 = Some 114 \<or> peek l2 = Some 82
             then lex_radix_number negative int_part l2 at
             else if 1 < length int_part \<and> hd int_part = 48 \<and>
                     peek l2 \<notin> {Some 46, Some 101, Some 69, Some 78, Some 77, Some 47}
             then lex_octal_number negative int_part l2 at
             else if peek l2 = Some 78
             then lex_ok (Tok_BigInt (sign_str @ int_part)) (adv l2) at
             else if peek l2 = Some 77
             then lex_ok (Tok_BigDecimal (sign_str @ int_part)) (adv l2) at
             else if peek l2 = Some 46 \<or> peek l2 = Some 101 \<or> peek l2 = Some 69
             then lex_float_number (sign_str @ int_part) l2 at
             else if peek l2 = Some 47 \<and>
                     (case peek_next l2 of Some c \<Rightarrow> is_ascii_digit c | None \<Rightarrow> False)
             then (case take_chars is_ascii_digit (adv l2) of
                     (denom, l3) \<Rightarrow> lex_ok (Tok_Ratio (sign_str @ int_part @ [47] @ denom)) l3 at)
             else (case parse_i64 (sign_str @ int_part) of
                     Some n \<Rightarrow> lex_ok (Tok_Int n) l2 at
                   | None \<Rightarrow> lex_ok (Tok_BigInt (sign_str @ int_part)) l2 at))"

section \<open>Token dispatch\<close>

text \<open>The single-character tokens.\<close>

definition punctuation :: "uchar \<Rightarrow> token option" where
  "punctuation ch =
     (if ch = 40 then Some Tok_LParen else if ch = 41 then Some Tok_RParen
      else if ch = 91 then Some Tok_LBracket else if ch = 93 then Some Tok_RBracket
      else if ch = 123 then Some Tok_LBrace else if ch = 125 then Some Tok_RBrace
      else if ch = 39 then Some Tok_Quote else if ch = 96 then Some Tok_SyntaxQuote
      else if ch = 64 then Some Tok_Deref else if ch = 94 then Some Tok_Meta
      else None)"

definition lex_token :: "uchar \<Rightarrow> lexer \<Rightarrow> mark \<Rightarrow> lex_result" where
  "lex_token ch l at =
     (case punctuation ch of
        Some t \<Rightarrow> lex_ok t (adv l) at
      | None \<Rightarrow>
          if ch = 126 then lex_unquote l at
          else if ch = 35 then lex_hash l at
          else if ch = 34 then lex_string l at
          else if ch = 92 then lex_char_literal l at
          else if ch = 58 then lex_keyword l at
          else if is_ascii_digit ch then lex_number l at
          else if (ch = 43 \<or> ch = 45) \<and>
                  (case peek_next l of Some d \<Rightarrow> is_ascii_digit d | None \<Rightarrow> False)
          then lex_number l at
          else if is_symbol_start ch then lex_symbol l at
          else if ch = 43 \<or> ch = 45 then lex_symbol l at
          else lex_err (UnexpectedCharacter ch) (adv l) at)"

definition mark_of :: "lexer \<Rightarrow> mark" where
  "mark_of l = (lx_pos l, lx_line l, lx_col l)"

definition next_token :: "lexer \<Rightarrow> lex_result" where
  "next_token l0 =
     (let l = skip_whitespace_and_comments l0; at = mark_of l
      in case peek l of
           None \<Rightarrow> lex_ok Tok_Eof l at
         | Some ch \<Rightarrow> lex_token ch l at)"

text \<open>\<open>Iterator for Lexer\<close>.\<close>

definition lexer_iter_next :: "lexer \<Rightarrow> (cljx_error, token \<times> span) outcome option \<times> lexer" where
  "lexer_iter_next l =
     (case next_token l of
        (r, l') \<Rightarrow>
          ((case r of Ok (Tok_Eof, _) \<Rightarrow> None | _ \<Rightarrow> Some r), l'))"

end
