(* ===== verification/Lexer_Moves.thy ===== *)
theory Lexer_Moves
  imports Lexer
begin

text \<open>
  How the lexer moves its cursor.  \<open>fwd k l l'\<close> says that \<open>l'\<close> is \<open>l\<close> after reading some
  text: the text is what lies between the two suffixes, the byte offset grew by its UTF-8
  length and the constant fields are kept.  Line and column are within bounds, and with
  \<open>k\<close> they are exactly what the text's newlines make of them.
\<close>

section \<open>Reading forward\<close>

definition lc_step :: "nat \<times> nat \<Rightarrow> uchar \<Rightarrow> nat \<times> nat" where
  "lc_step p ch = (if ch = 10 then (fst p + 1, 1) else (fst p, snd p + len_utf8 ch))"

definition moved :: "bool \<Rightarrow> str \<Rightarrow> lexer \<Rightarrow> lexer \<Rightarrow> bool" where
  "moved k d l l' \<longleftrightarrow>
     lx_rest l = d @ lx_rest l' \<and> lx_pos l' = lx_pos l + utf8_len d \<and>
     lx_source l' = lx_source l \<and> lx_file l' = lx_file l \<and>
     lx_alnum l' = lx_alnum l \<and> lx_checked l' = lx_checked l \<and>
     lx_line l' \<le> lx_line l + utf8_len d \<and>
     (1 \<le> lx_col l \<longrightarrow> 1 \<le> lx_col l' \<and> lx_col l' \<le> lx_col l + utf8_len d) \<and>
     (k \<longrightarrow> (lx_line l', lx_col l') = foldl lc_step (lx_line l, lx_col l) d)"

definition fwd :: "bool \<Rightarrow> lexer \<Rightarrow> lexer \<Rightarrow> bool" where
  "fwd k l l' \<longleftrightarrow> (\<exists>d. moved k d l l')"

definition fwd1 :: "bool \<Rightarrow> lexer \<Rightarrow> lexer \<Rightarrow> bool" where
  "fwd1 k l l' \<longleftrightarrow> (\<exists>d. d \<noteq> [] \<and> moved k d l l')"

lemma moved_refl: "moved k [] l l"
  by (simp add: moved_def)

lemma moved_trans: "moved k d l m \<Longrightarrow> moved k e m n \<Longrightarrow> moved k (d @ e) l n"
  by (auto simp: moved_def)

lemma moved_weaken: "moved k d l m \<Longrightarrow> moved False d l m"
  by (simp add: moved_def)

lemma moved_adv: "lx_rest l = c # cs \<Longrightarrow> moved k [c] l (adv l)"
  by (auto simp: moved_def adv_def advance_def lc_step_def)

lemma fwd_refl [simp, intro]: "fwd k l l"
  using moved_refl by (auto simp: fwd_def)

lemma fwd_trans [trans]: "fwd k l m \<Longrightarrow> fwd k m n \<Longrightarrow> fwd k l n"
  by (auto simp: fwd_def dest: moved_trans)

lemma fwd1_fwd: "fwd1 k l m \<Longrightarrow> fwd k l m"
  by (auto simp: fwd_def fwd1_def)

lemma fwd1_trans: "fwd1 k l m \<Longrightarrow> fwd k m n \<Longrightarrow> fwd1 k l n"
  unfolding fwd_def fwd1_def by (blast intro: moved_trans append_is_Nil_conv [THEN iffD1, THEN conjunct1])

lemma fwd_fwd1: "fwd k l m \<Longrightarrow> fwd1 k m n \<Longrightarrow> fwd1 k l n"
  unfolding fwd_def fwd1_def by (blast intro: moved_trans append_is_Nil_conv [THEN iffD1, THEN conjunct2])

lemma fwd_weaken: "fwd k l m \<Longrightarrow> fwd False l m"
  by (auto simp: fwd_def dest: moved_weaken)

lemma fwd1_weaken: "fwd1 k l m \<Longrightarrow> fwd1 False l m"
  by (auto simp: fwd1_def dest: moved_weaken)

lemma fwd1_adv: "lx_rest l \<noteq> [] \<Longrightarrow> fwd1 k l (adv l)"
  by (cases "lx_rest l") (auto simp: fwd1_def dest: moved_adv)

lemma fwd_adv [simp, intro]: "fwd k l (adv l)"
proof (cases "lx_rest l")
  case Nil
  then have "adv l = l" by (simp add: adv_def advance_def)
  then show ?thesis by simp
next
  case Cons
  then show ?thesis by (simp add: fwd1_adv fwd1_fwd)
qed

lemma fwd_adv_trans: "fwd k l m \<Longrightarrow> fwd k l (adv m)"
  using fwd_adv fwd_trans by blast

lemma fwd_adv_start: "fwd k (adv l) m \<Longrightarrow> fwd k l m"
  using fwd_adv fwd_trans by blast

lemma fwd_adv_pow: "fwd k l ((adv ^^ n) l)"
  by (induction n) (auto intro: fwd_adv_trans)

lemma fwd1_length: "fwd1 k l m \<Longrightarrow> length (lx_rest m) < length (lx_rest l)"
  by (auto simp: fwd1_def moved_def)

lemma fwd_length: "fwd k l m \<Longrightarrow> length (lx_rest m) \<le> length (lx_rest l)"
  by (auto simp: fwd_def moved_def)

lemma fwd_fixed:
  assumes "fwd k l m"
  shows "lx_source m = lx_source l" and "lx_file m = lx_file l"
    and "lx_alnum m = lx_alnum l" and "lx_checked m = lx_checked l"
  using assms by (auto simp: fwd_def moved_def)

lemma foldl_lc_step_no_newline:
  "10 \<notin> set s \<Longrightarrow> foldl lc_step (ln, c) s = (ln, c + utf8_len s)"
  by (induction s arbitrary: c) (auto simp: lc_step_def)

lemma moved_step_over:
  assumes "prefix s (lx_rest l)" and "k \<longrightarrow> 10 \<notin> set s"
  shows "moved k s l (step_over s l)"
  using assms by (auto simp: moved_def step_over_def prefix_def foldl_lc_step_no_newline)

lemma fwd_step_over: "prefix s (lx_rest l) \<Longrightarrow> (k \<longrightarrow> 10 \<notin> set s) \<Longrightarrow> fwd k l (step_over s l)"
  using moved_step_over by (auto simp: fwd_def)

section \<open>The collecting loops\<close>

lemma take_chars_eq:
  "take_chars p l = (takeWhile p (lx_rest l), (adv ^^ length (takeWhile p (lx_rest l))) l)"
proof (induction p l rule: take_chars.induct)
  case (1 p l)
  show ?case
  proof (cases "lx_rest l")
    case Nil
    then show ?thesis by (simp add: take_chars.simps [of p l])
  next
    case (Cons c cs)
    with 1 show ?thesis
      by (auto simp: take_chars.simps [of p l] funpow_swap1)
  qed
qed

lemma lx_rest_adv_pow [simp]: "lx_rest ((adv ^^ n) l) = drop n (lx_rest l)"
  by (induction n arbitrary: l) (auto simp: funpow_swap1 drop_Suc)

lemma take_chars_fwd: "take_chars p l = (s, l') \<Longrightarrow> fwd k l l'"
  by (auto simp: take_chars_eq fwd_adv_pow)

lemma take_chars_rest:
  "take_chars p l = (s, l') \<Longrightarrow> s = takeWhile p (lx_rest l) \<and> lx_rest l' = dropWhile p (lx_rest l)"
  by (auto simp: take_chars_eq dropWhile_eq_drop)

lemma take_chars_fwd1:
  "take_chars p l = (s, l') \<Longrightarrow> s \<noteq> [] \<Longrightarrow> fwd1 k l l'"
proof -
  assume *: "take_chars p l = (s, l')" "s \<noteq> []"
  then obtain n where n: "l' = (adv ^^ n) (adv l)" and ne: "lx_rest l \<noteq> []"
    by (cases "lx_rest l") (auto simp: take_chars_eq funpow_swap1 split: if_splits)
  have "fwd1 k l (adv l)" by (rule fwd1_adv [OF ne])
  then show ?thesis using fwd_adv_pow n fwd1_trans by blast
qed

lemma skip_line_fwd: "fwd k l (skip_line l)"
proof (induction l rule: skip_line.induct)
  case (1 l)
  show ?case
  proof (cases "lx_rest l")
    case Nil
    then show ?thesis by (simp add: skip_line.simps [of l] advance_eq)
  next
    case (Cons c cs)
    with 1 show ?thesis
      by (auto simp: skip_line.simps [of l] advance_eq intro: fwd_adv_start)
  qed
qed

lemma skip_whitespace_fwd: "fwd k l (skip_whitespace_and_comments l)"
proof (induction l rule: skip_whitespace_and_comments.induct)
  case (1 l)
  show ?case
  proof (cases "lx_rest l")
    case Nil
    then show ?thesis by (simp add: skip_whitespace_and_comments.simps [of l])
  next
    case (Cons c cs)
    with 1 show ?thesis
      by (auto simp: skip_whitespace_and_comments.simps [of l]
          intro: fwd_adv_start fwd_trans [OF skip_line_fwd])
  qed
qed

text \<open>What follows the skipped text is the end of the file or a character that starts a token.\<close>

lemma skip_whitespace_stops:
  "peek (skip_whitespace_and_comments l) = Some c \<Longrightarrow> c \<notin> {32, 9, 13, 10, 44, 59}"
proof (induction l rule: skip_whitespace_and_comments.induct)
  case (1 l)
  show ?case
  proof (cases "lx_rest l")
    case Nil
    with "1.prems" show ?thesis by (simp add: skip_whitespace_and_comments.simps [of l])
  next
    case (Cons d cs)
    with 1 show ?thesis
      by (auto simp: skip_whitespace_and_comments.simps [of l] split: if_splits)
  qed
qed

section \<open>Well-formed results\<close>

text \<open>
  The tokens that source text can spell: not the end of the file, and a symbolic value
  only with one of its three names.
\<close>

fun content_token :: "token \<Rightarrow> bool" where
  "content_token Tok_Eof = False"
| "content_token (Tok_Symbolic s) = (s \<in> {lit ''Inf'', lit ''-Inf'', lit ''NaN''})"
| "content_token _ = True"

lemmas content_token_intros [intro!] = content_token.simps(3-) [THEN iffD2, OF TrueI]

lemma content_token_not_Eof: "content_token t \<Longrightarrow> t \<noteq> Tok_Eof"
  by auto

text \<open>
  The result of a lexing method that started at \<open>l\<close> for a token marked \<open>at\<close>: the cursor
  moved forward, a token carries the span from the mark to the cursor, and an error is a
  \<open>ReadError\<close> labelled with that span.
\<close>

definition well_lexed :: "bool \<Rightarrow> lexer \<Rightarrow> mark \<Rightarrow> lex_result \<Rightarrow> bool" where
  "well_lexed k l at r \<longleftrightarrow>
     fwd k l (snd r) \<and>
     (case fst r of
        Ok (t, sp) \<Rightarrow> content_token t \<and> sp = span_from (snd r) at
      | Err e \<Rightarrow> \<exists>msg. e = make_error (snd r) msg (span_from (snd r) at) \<and>
                    (\<forall>c. msg \<noteq> UnexpectedCharacter c)
      | Panic \<Rightarrow> True)"

lemma well_lexed_ok [intro]: "fwd k l m \<Longrightarrow> content_token t \<Longrightarrow> well_lexed k l at (lex_ok t m at)"
  by (simp add: well_lexed_def lex_ok_def)

lemma well_lexed_err [intro]:
  "fwd k l m \<Longrightarrow> (\<And>c. msg \<noteq> UnexpectedCharacter c) \<Longrightarrow> well_lexed k l at (lex_err msg m at)"
  by (auto simp: well_lexed_def lex_err_def)

lemma well_lexed_panic [intro]: "fwd k l m \<Longrightarrow> well_lexed k l at (Panic, m)"
  by (simp add: well_lexed_def)

lemma well_lexed_trans: "fwd k l m \<Longrightarrow> well_lexed k m at r \<Longrightarrow> well_lexed k l at r"
  by (auto simp: well_lexed_def intro: fwd_trans)

lemma well_lexed_adv: "well_lexed k (adv l) at r \<Longrightarrow> well_lexed k l at r"
  by (rule well_lexed_trans [OF fwd_adv])

lemma well_lexed_adv2: "well_lexed k (adv (adv l)) at r \<Longrightarrow> well_lexed k l at r"
  by (blast intro: well_lexed_adv)

lemma fwd_adv2 [simp, intro]: "fwd k l (adv (adv l))"
  by (blast intro: fwd_adv_trans fwd_adv)

lemma well_lexed_fwd: "well_lexed k l at r \<Longrightarrow> fwd k l (snd r)"
  by (simp add: well_lexed_def)

text \<open>Case analysis over the branches of a method, one branch at a time.\<close>

lemma well_lexed_split:
  "(b \<Longrightarrow> well_lexed k l at x) \<Longrightarrow> (\<not> b \<Longrightarrow> well_lexed k l at y) \<Longrightarrow>
     well_lexed k l at (if b then x else y)"
  "(opt = None \<Longrightarrow> well_lexed k l at x) \<Longrightarrow> (\<And>a. opt = Some a \<Longrightarrow> well_lexed k l at (f a)) \<Longrightarrow>
     well_lexed k l at (case opt of None \<Rightarrow> x | Some a \<Rightarrow> f a)"
  "(\<And>a b. p = (a, b) \<Longrightarrow> well_lexed k l at (g a b)) \<Longrightarrow>
     well_lexed k l at (case p of (a, b) \<Rightarrow> g a b)"
  "(xs = [] \<Longrightarrow> well_lexed k l at x) \<Longrightarrow> (\<And>a as. xs = a # as \<Longrightarrow> well_lexed k l at (h a as)) \<Longrightarrow>
     well_lexed k l at (case xs of [] \<Rightarrow> x | a # as \<Rightarrow> h a as)"
  by (auto split: option.split prod.split list.split)

lemma well_lexed_regex_loop: "well_lexed k l at (lex_regex_loop buf l at)"
proof (induction buf l at rule: lex_regex_loop.induct)
  case (1 buf l at)
  show ?case
  proof (cases "lx_rest l")
    case Nil
    then show ?thesis by (auto simp: lex_regex_loop.simps [of buf l] advance_eq)
  next
    case (Cons c cs)
    with 1 show ?thesis
      by (cases cs)
        (auto simp: lex_regex_loop.simps [of buf l] advance_eq
          intro: well_lexed_adv well_lexed_adv2)
  qed
qed

lemma read_hex_fwd:
  "fwd k l (snd (read_hex n hex l at)) \<and>
   (\<forall>e. fst (read_hex n hex l at) = Err e \<longrightarrow>
      (\<exists>msg. e = make_error (snd (read_hex n hex l at)) msg (span_from (snd (read_hex n hex l at)) at) \<and>
             (\<forall>c. msg \<noteq> UnexpectedCharacter c)))"
proof (induction n hex l at rule: read_hex.induct)
  case (2 n hex l at)
  then show ?case
    by (cases "lx_rest l") (auto simp: advance_eq intro: fwd_adv_start)
qed simp

lemma read_unicode_escape_fwd:
  assumes "read_unicode_escape l at = (r, l')"
  shows "fwd k l l'"
    and "r = Err e \<Longrightarrow> \<exists>msg. e = make_error l' msg (span_from l' at) \<and> (\<forall>c. msg \<noteq> UnexpectedCharacter c)"
  using assms read_hex_fwd [of k l 4 "[]" at]
  by (auto simp: read_unicode_escape_def Let_def split: prod.splits outcome.splits if_splits)

text \<open>One step of the string loop, by the characters it sees.\<close>

lemma lex_string_loop_unfold:
  "lx_rest l = [] \<Longrightarrow> lex_string_loop buf l at = lex_err UnterminatedString (adv l) at"
  "lx_rest l = 34 # cs \<Longrightarrow> lex_string_loop buf l at = lex_ok (Tok_Str buf) (adv l) at"
  "lx_rest l = c # cs \<Longrightarrow> c \<noteq> 34 \<Longrightarrow> c \<noteq> 92 \<Longrightarrow>
     lex_string_loop buf l at = lex_string_loop (buf @ [c]) (adv l) at"
  "lx_rest l = [92] \<Longrightarrow> lex_string_loop buf l at = lex_err UnterminatedString (adv (adv l)) at"
  "lx_rest l = 92 # d # cs \<Longrightarrow> string_escape d = Some e \<Longrightarrow>
     lex_string_loop buf l at = lex_string_loop (buf @ [e]) (adv (adv l)) at"
  "lx_rest l = 92 # 117 # cs \<Longrightarrow>
     lex_string_loop buf l at =
       (case read_unicode_escape (adv (adv l)) at of
          (Ok u, l3) \<Rightarrow> lex_string_loop (buf @ [u]) l3 at
        | (Err e, l3) \<Rightarrow> (Err e, l3) | (Panic, l3) \<Rightarrow> (Panic, l3))"
  "lx_rest l = 92 # d # cs \<Longrightarrow> string_escape d = None \<Longrightarrow> d \<noteq> 117 \<Longrightarrow>
     lex_string_loop buf l at = lex_err (UnknownStringEscape d) (adv (adv l)) at"
  by (simp_all add: lex_string_loop.simps [of buf l] advance_eq string_escape_def)

lemma well_lexed_string_loop: "well_lexed k l at (lex_string_loop buf l at)"
proof (induction "length (lx_rest l)" arbitrary: buf l rule: less_induct)
  case less
  have IH: "length (lx_rest m) < length (lx_rest l) \<Longrightarrow> fwd k l m \<Longrightarrow>
      well_lexed k l at (lex_string_loop b m at)" for b m
    using less by (blast intro: well_lexed_trans)
  consider "lx_rest l = []" | cs where "lx_rest l = 34 # cs" | "lx_rest l = [92]"
    | c cs where "lx_rest l = c # cs" "c \<noteq> 34" "c \<noteq> 92"
    | d e cs where "lx_rest l = 92 # d # cs" "string_escape d = Some e"
    | cs where "lx_rest l = 92 # 117 # cs"
    | d cs where "lx_rest l = 92 # d # cs" "string_escape d = None" "d \<noteq> 117"
    by (metis not_Some_eq list.exhaust)
  then show ?case
  proof cases
    case (6 cs)
    obtain r l3 where esc: "read_unicode_escape (adv (adv l)) at = (r, l3)" by fastforce
    from read_unicode_escape_fwd(1) [OF esc] have f: "fwd k l l3"
      using fwd_adv2 fwd_trans by blast
    from fwd_length [OF read_unicode_escape_fwd(1) [OF esc]] 6
    have "length (lx_rest l3) < length (lx_rest l)" by simp
    with f have "well_lexed k l at (lex_string_loop (buf @ [u]) l3 at)" for u
      by (rule IH [rotated])
    with f 6 esc read_unicode_escape_fwd(2) [OF esc] show ?thesis
      by (cases r) (auto simp: lex_string_loop_unfold, auto simp: well_lexed_def)
  qed (auto simp: lex_string_loop_unfold intro!: IH)
qed

section \<open>Every lexing method is well behaved\<close>

lemma read_symbol_chars_fwd: "read_symbol_chars l = (s, l') \<Longrightarrow> fwd k l l'"
  by (simp add: read_symbol_chars_def take_chars_fwd)

lemma well_lexed_unquote: "well_lexed k (adv l) at (lex_unquote l at)"
  by (auto simp: lex_unquote_def Let_def)

lemma well_lexed_regex: "well_lexed k l at (lex_regex l at)"
  unfolding lex_regex_def by (rule well_lexed_adv [OF well_lexed_regex_loop])

lemma well_lexed_string: "well_lexed k (adv l) at (lex_string l at)"
  unfolding lex_string_def by (rule well_lexed_string_loop)

lemma well_lexed_symbolic: "well_lexed k l at (lex_symbolic l at)"
  by (auto simp: lex_symbolic_def split: prod.splits
      dest!: read_symbol_chars_fwd [where k = k] intro: fwd_adv_start)

lemma well_lexed_hash: "well_lexed k (adv l) at (lex_hash l at)"
  unfolding lex_hash_def Let_def
  by (intro well_lexed_split well_lexed_ok well_lexed_err well_lexed_regex well_lexed_symbolic
      fwd_adv fwd_adv2 fwd_refl read_symbol_chars_fwd) auto

lemma well_lexed_keyword: "well_lexed k (adv l) at (lex_keyword l at)"
  by (auto simp: lex_keyword_def Let_def split: prod.splits
      dest!: read_symbol_chars_fwd [where k = k] intro: fwd_adv_start)

lemma well_lexed_symbol: "well_lexed k l at (lex_symbol l at)"
  by (auto simp: lex_symbol_def split: prod.splits option.splits if_splits
      dest!: read_symbol_chars_fwd [where k = k]
      intro!: well_lexed_ok intro: fwd_trans [OF _ fwd_trans [OF fwd_adv fwd_adv_pow]])

lemma well_lexed_hex_number: "well_lexed k l at (lex_hex_number neg l at)"
  by (auto simp: lex_hex_number_def Let_def split: prod.splits
      dest!: take_chars_fwd [where k = k] intro: fwd_adv_start)

lemma well_lexed_radix_number: "well_lexed k l at (lex_radix_number neg ip l at)"
  by (auto simp: lex_radix_number_def Let_def split: prod.splits outcome.splits option.splits
      dest!: take_chars_fwd [where k = k] intro: fwd_adv_start)

lemma well_lexed_octal_number: "well_lexed k l at (lex_octal_number neg ip l at)"
  by (auto simp: lex_octal_number_def Let_def)

lemma lex_fraction_fwd: "lex_fraction raw l = (raw', l') \<Longrightarrow> fwd k l l'"
  by (auto simp: lex_fraction_def split: prod.splits if_splits
      dest!: take_chars_fwd [where k = k] intro: fwd_adv_start)

lemma lex_exponent_fwd: "lex_exponent raw l = (raw', l') \<Longrightarrow> fwd k l l'"
  by (auto simp: lex_exponent_def Let_def split: prod.splits if_splits option.splits
      dest!: take_chars_fwd [where k = k] intro: fwd_adv_start)

lemma well_lexed_float_number: "well_lexed k l at (lex_float_number raw l at)"
  by (auto simp: lex_float_number_def split: prod.splits option.splits
      dest!: lex_fraction_fwd [where k = k] lex_exponent_fwd [where k = k]
      intro: fwd_trans fwd_adv_trans)

lemma reads_number:
  assumes "peek l = Some c" and "is_ascii_digit c \<or> c = 45 \<or> c = 43"
  shows "well_lexed k l at (lex_number l at)" and "fwd1 k l (snd (lex_number l at))"
proof -
  define l1 where "l1 = (if peek l = Some 45 \<or> peek l = Some 43 then adv l else l)"
  obtain int_part l2 where tc: "take_chars is_ascii_digit l1 = (int_part, l2)" by fastforce
  from assms(1) obtain cs where cs: "lx_rest l = c # cs" by (auto simp: peek_Some)
  have f: "fwd1 k l l2"
  proof (cases "c = 45 \<or> c = 43")
    case True
    with assms(1) have "l1 = adv l" by (auto simp: l1_def)
    with cs take_chars_fwd [OF tc] show ?thesis
      using fwd1_adv fwd1_trans by (metis list.distinct(1))
  next
    case False
    with assms cs have "l1 = l" and "int_part \<noteq> []"
      using take_chars_rest [OF tc] by (auto simp: l1_def)
    with tc show ?thesis by (auto intro: take_chars_fwd1)
  qed
  have w: "well_lexed k l2 at (lex_number l at)"
    unfolding lex_number_def Let_def l1_def [symmetric] tc prod.case
    by (intro well_lexed_split well_lexed_ok well_lexed_hex_number well_lexed_radix_number
        well_lexed_octal_number well_lexed_float_number fwd_adv fwd_refl
        fwd_adv_start [OF take_chars_fwd]) auto
  show "well_lexed k l at (lex_number l at)"
    using w f by (blast intro: well_lexed_trans fwd1_fwd)
  show "fwd1 k l (snd (lex_number l at))"
    using w f by (blast intro: fwd1_trans well_lexed_fwd)
qed

lemma split_bytes_append: "split_bytes n s = Some (a, b) \<Longrightarrow> s = a @ b"
  by (induction n s arbitrary: a b rule: split_bytes.induct) (auto split: if_splits)

lemma well_lexed_char_literal:
  assumes nl: "k \<longrightarrow> peek (adv l) \<noteq> Some 10"
  shows "well_lexed k (adv l) at (lex_char_literal l at)"
proof -
  define name where "name = takeWhile (\<lambda>c. is_alphanumeric (adv l) c \<or> c = 45) (lx_rest (adv l))"
  have pre: "prefix name (lx_rest (adv l))"
    unfolding name_def by (metis prefixI takeWhile_dropWhile_id)
  have no_nl: "10 \<notin> set name"
    by (auto simp: name_def is_alphanumeric_def is_ascii_alphanumeric_def is_ascii_digit_def
        dest!: set_takeWhileD)
  have over: "fwd k (adv l) (step_over name (adv l))"
    using pre no_nl by (auto intro: fwd_step_over)
  have over_hex: "fwd k (adv l) (step_over (117 # hex) (adv l))"
    if "name \<noteq> []" "hd name = 117" "split_bytes 4 (tl name) = Some (hex, b)" for hex b
  proof (rule fwd_step_over)
    from that have "name = (117 # hex) @ b"
      using split_bytes_append by (metis append_Cons list.collapse)
    with pre no_nl show "prefix (117 # hex) (lx_rest (adv l))" and "k \<longrightarrow> 10 \<notin> set (117 # hex)"
      by (metis append_prefixD, simp)
  qed
  have over_one: "fwd k (adv l) (step_over [c] (adv l))" if "lx_rest (adv l) = c # cs" for c cs
  proof (rule fwd_step_over)
    show "prefix [c] (lx_rest (adv l))" using that by simp
    show "k \<longrightarrow> 10 \<notin> set [c]" using nl peek_Cons [OF that] by auto
  qed
  show ?thesis
    unfolding lex_char_literal_def Let_def name_def [symmetric]
    by (intro well_lexed_split well_lexed_ok well_lexed_err well_lexed_panic
        over over_hex over_one fwd_refl) auto
qed

section \<open>The next token\<close>

lemma lex_symbol_fwd1:
  assumes "peek l = Some c" and "is_symbol_char c"
  shows "fwd1 k l (snd (lex_symbol l at))"
proof -
  obtain name l1 where n: "read_symbol_chars l = (name, l1)" by fastforce
  with assms have "name \<noteq> []"
    by (auto simp: read_symbol_chars_def peek_Some dest!: take_chars_rest)
  with n have f1: "fwd1 k l l1"
    by (auto simp: read_symbol_chars_def intro: take_chars_fwd1)
  have "fwd k l1 (snd (lex_symbol l at))"
    using n by (auto simp: lex_symbol_def lex_ok_def split: option.splits
        intro: fwd_trans [OF fwd_adv fwd_adv_pow])
  with f1 show ?thesis by (rule fwd1_trans)
qed

lemma peek_adv: "peek (adv l) = peek_next l"
  by (simp add: peek_def peek_next_def split: list.split)

lemma reads_adv:
  assumes "lx_rest l \<noteq> []" and "well_lexed k (adv l) at r"
  shows "well_lexed k l at r" and "fwd1 k l (snd r)"
  using assms by (auto intro: well_lexed_adv fwd1_trans [OF fwd1_adv] well_lexed_fwd)

lemma punctuation_content: "punctuation c = Some t \<Longrightarrow> content_token t"
  by (auto simp: punctuation_def split: if_splits)

text \<open>
  Dispatch is total: a character that is neither skipped nor handled by another branch
  starts a symbol, so the final error branch is never taken.
\<close>

lemma dispatch_total:
  assumes "c \<notin> {32, 9, 13, 10, 44, 59}" and "punctuation c = None"
    and "c \<notin> {126, 35, 34, 92, 58}" and "\<not> is_ascii_digit c"
  shows "is_symbol_start c"
  using assms by (auto simp: punctuation_def is_symbol_start_def is_symbol_char_def split: if_splits)

lemma reads_token:
  assumes c: "peek l = Some c" "c \<notin> {32, 9, 13, 10, 44, 59}"
    and nl: "k \<longrightarrow> \<not> (c = 92 \<and> peek_next l = Some 10)"
  shows "well_lexed k l at (lex_token c l at) \<and> fwd1 k l (snd (lex_token c l at))"
proof -
  have ne: "lx_rest l \<noteq> []" using c by (auto simp: peek_Some)
  note start = reads_adv [OF ne]
  have symbol: "well_lexed k l at (lex_symbol l at) \<and> fwd1 k l (snd (lex_symbol l at))"
    if "is_symbol_start c"
    using that c well_lexed_symbol lex_symbol_fwd1 by (auto simp: is_symbol_start_def)
  have char: "c = 92 \<Longrightarrow> well_lexed k (adv l) at (lex_char_literal l at)"
    using nl by (intro well_lexed_char_literal) (auto simp: peek_adv)
  show ?thesis
  proof (cases "punctuation c")
    case (Some t)
    then have "well_lexed k (adv l) at (lex_ok t (adv l) at)"
      by (auto dest: punctuation_content)
    with Some start show ?thesis by (simp add: lex_token_def)
  next
    case None
    with c dispatch_total [OF c(2) None] symbol char reads_number [OF c(1), of k at]
      start [OF well_lexed_unquote, of k at] start [OF well_lexed_hash, of k at]
      start [OF well_lexed_string, of k at] start [OF well_lexed_keyword, of k at]
      start [of k at "lex_char_literal l at"]
    show ?thesis
      by (auto simp: lex_token_def)
  qed
qed

end
