(* ===== verification/Lexer_Spec.thy ===== *)
theory Lexer_Spec
  imports Lexer_Moves
begin

text \<open>
  What the lexer promises: it always makes progress, its tokens tile the source with
  exact byte spans, its line and column counters are right and stay within \<open>u32\<close>, its
  dispatch is total, and the literals it reads denote what they should.
\<close>

text \<open>The definitions that evaluate the lexer on a concrete source.\<close>

lemmas lexer_eval =
  lexer_new_def next_token_def Let_def mark_of_def skip_whitespace_and_comments.simps
  peek_def peek_next_def lex_token_def punctuation_def lex_ok_def lex_err_def span_from_def
  span_new_def adv_def advance_def take_chars.simps read_symbol_chars_def is_symbol_char_def
  is_symbol_start_def is_ascii_digit_def len_utf8_def

section \<open>The cursor invariant\<close>

text \<open>The consumed text \<open>d\<close> and the remaining suffix make up the source.\<close>

definition lex_at :: "str \<Rightarrow> lexer \<Rightarrow> bool" where
  "lex_at d l \<longleftrightarrow>
     lx_source l = d @ lx_rest l \<and> lx_pos l = utf8_len d \<and>
     lx_line l \<le> 1 + utf8_len d \<and> 1 \<le> lx_col l \<and> lx_col l \<le> 1 + utf8_len d"

lemma lex_at_new: "lex_at [] (lexer_new alnum checked src f)"
  by (simp add: lex_at_def lexer_new_def)

lemma lex_at_moved: "lex_at d l \<Longrightarrow> moved k e l l' \<Longrightarrow> lex_at (d @ e) l'"
  by (auto simp: lex_at_def moved_def)

lemma span_from_mark [simp]:
  "sp_start (span_from l (mark_of m)) = lx_pos m" "sp_end (span_from l (mark_of m)) = lx_pos l"
  "sp_file (span_from l (mark_of m)) = lx_file l"
  "sp_line (span_from l (mark_of m)) = lx_line m" "sp_col (span_from l (mark_of m)) = lx_col m"
  by (simp_all add: span_from_def mark_of_def span_new_def)

lemma next_token_cases:
  assumes "next_token l = (r, l')"
  obtains (eof) s where "moved True s l l'" "lx_rest l' = []" "r = Ok (Tok_Eof, span_from l' (mark_of l'))"
  | (tok) s m d c where "moved True s l m" "peek m = Some c" "c \<notin> {32, 9, 13, 10, 44, 59}"
      "d \<noteq> []" "moved False d m l'" "well_lexed False m (mark_of m) (r, l')"
      "(r, l') = lex_token c m (mark_of m)"
proof -
  define m where "m = skip_whitespace_and_comments l"
  from skip_whitespace_fwd obtain s where s: "moved True s l m"
    unfolding m_def fwd_def by blast
  show thesis
  proof (cases "peek m")
    case None
    with assms s show thesis
      by (intro eof [of s]) (auto simp: next_token_def Let_def m_def lex_ok_def peek_None)
  next
    case (Some c)
    have c: "c \<notin> {32, 9, 13, 10, 44, 59}"
      using Some skip_whitespace_stops unfolding m_def by blast
    from assms Some have r: "(r, l') = lex_token c m (mark_of m)"
      by (simp add: next_token_def Let_def m_def)
    from reads_token [OF Some c, of False "mark_of m"]
    have w: "well_lexed False m (mark_of m) (r, l')" and "fwd1 False m l'"
      unfolding r [symmetric] by simp_all
    then obtain d where "d \<noteq> []" "moved False d m l'" by (auto simp: fwd1_def)
    with s Some c w r show thesis by (intro tok)
  qed
qed

text \<open>
  C34. Every call of \<open>next_token\<close> either reports the end of the file, with nothing left to
  read, or consumes at least one character --- also when it reports an error, so a caller
  that keeps asking for tokens after errors always reaches the end.
\<close>

theorem next_token_progress:
  assumes "next_token l = (r, l')"
  shows "(lx_rest l' = [] \<and> (\<exists>sp. r = Ok (Tok_Eof, sp))) \<or>
         (length (lx_rest l') < length (lx_rest l) \<and> (\<forall>sp. r \<noteq> Ok (Tok_Eof, sp)))"
  using assms
proof (cases rule: next_token_cases)
  case eof
  then show ?thesis by blast
next
  case (tok s m d c)
  then have "length (lx_rest l') < length (lx_rest l)"
    by (cases d) (auto simp: moved_def)
  moreover from tok(6) have "r \<noteq> Ok (Tok_Eof, sp)" for sp
    by (auto simp: well_lexed_def)
  ultimately show ?thesis by blast
qed

theorem next_token_progress_witness:
  "length (lx_rest (snd (next_token (lexer_new (\<lambda>_. False) True (lit ''(x'') (lit ''f''))))) < 2 \<and>
   (\<forall>sp. fst (next_token (lexer_new (\<lambda>_. False) True (lit ''(x'') (lit ''f''))) \<noteq> Ok (Tok_Eof, sp))"
  using next_token_progress [of "lexer_new (\<lambda>_. False) True (lit ''(x'') (lit ''f'')",
      OF prod.collapse [symmetric]]
  by (auto simp: lexer_eval)



section \<open>Lines and columns\<close>

text \<open>The line and column after a text, as an editor counts them: both from 1, in bytes.\<close>

definition line_col :: "str \<Rightarrow> nat \<times> nat" where
  "line_col d = foldl lc_step (1, 1) d"

lemma line_col_moved:
  "(lx_line l, lx_col l) = line_col d \<Longrightarrow> moved True e l l' \<Longrightarrow>
   (lx_line l', lx_col l') = line_col (d @ e)"
  by (simp add: moved_def line_col_def)

text \<open>
  In a source without a backslash directly before a newline, the lexer's line and
  column are those of its position: if they are before a call of \<open>next_token\<close>, they are
  after it, and a token's span carries the line and column of its first byte.
\<close>

theorem next_token_line_col:
  assumes at: "lex_at d l" "(lx_line l, lx_col l) = line_col d"
    and src: "\<nexists>a b. lx_source l = a @ [92, 10] @ b"
    and n: "next_token l = (r, l')"
  shows "\<exists>e. lex_at (d @ e) l' \<and> (lx_line l', lx_col l') = line_col (d @ e) \<and>
    (\<forall>t sp. r = Ok (t, sp) \<longrightarrow>
       (\<exists>s x. e = s @ x \<and> sp_start sp = utf8_len (d @ s) \<and> (sp_line sp, sp_col sp) = line_col (d @ s)))"
  using n
proof (cases rule: next_token_cases)
  case (eof s)
  from at(1) eof(1) have l': "lex_at (d @ s) l'" by (rule lex_at_moved)
  from at(2) eof(1) have "(lx_line l', lx_col l') = line_col (d @ s)" by (rule line_col_moved)
  with l' eof(3) show ?thesis
    by (intro exI [of _ s]) (auto simp: lex_at_def)
next
  case (tok s m x c)
  from at(1) tok(1) have m: "lex_at (d @ s) m" by (rule lex_at_moved)
  from at(2) tok(1) have mlc: "(lx_line m, lx_col m) = line_col (d @ s)"
    by (rule line_col_moved)
  have "\<not> (c = 92 \<and> peek_next m = Some 10)"
  proof
    assume "c = 92 \<and> peek_next m = Some 10"
    with tok(2) obtain b where "lx_rest m = [92, 10] @ b"
      by (auto simp: peek_Some peek_next_def split: list.splits)
    with m tok(1) have "lx_source l = (d @ s) @ [92, 10] @ b"
      by (simp add: lex_at_def moved_def)
    with src show False by blast
  qed
  with reads_token [OF tok(2,3), of True "mark_of m"] obtain y where
    y: "moved True y m l'" "well_lexed True m (mark_of m) (r, l')"
    unfolding tok(7) [symmetric] by (auto simp: fwd1_def)
  from m y(1) have l': "lex_at ((d @ s) @ y) l'" by (rule lex_at_moved)
  from mlc y(1) have lc: "(lx_line l', lx_col l') = line_col ((d @ s) @ y)"
    by (rule line_col_moved)
  have "\<exists>s' x. s @ y = s' @ x \<and> sp_start sp = utf8_len (d @ s') \<and>
      (sp_line sp, sp_col sp) = line_col (d @ s')" if "r = Ok (t, sp)" for t sp
    using y(2) m mlc that
    by (intro exI [of _ s] exI [of _ y]) (auto simp: well_lexed_def lex_at_def)
  with l' lc show ?thesis
    by (intro exI [of _ "s @ y"]) simp
qed

text \<open>
  A character literal that spells a newline directly (a backslash followed by the
  newline itself) does not advance the line counter: the lexer stays on the same line
  although it has read past the end of it, so every later token carries a line that is
  one too small.
\<close>

theorem raw_newline_char_keeps_line:
  assumes "lx_rest l = 92 # 10 # cs"
  shows "\<exists>sp l'. next_token l = (Ok (Tok_Char 10, sp), l') \<and> lx_rest l' = cs \<and>
    lx_line l' = lx_line l \<and> fst (foldl lc_step (lx_line l, lx_col l) [92, 10]) = lx_line l + 1"
proof -
  have skip: "skip_whitespace_and_comments l = l"
    using assms by (simp add: skip_whitespace_and_comments.simps)
  have rest: "lx_rest (adv l) = 10 # cs" using assms by simp
  have line: "lx_line (adv l) = lx_line l"
    using assms by (simp add: adv_def advance_def)
  have "takeWhile (\<lambda>c. is_alphanumeric (adv l) c \<or> c = 45) (10 # cs) = []"
    by (simp add: is_alphanumeric_def is_ascii_alphanumeric_def is_ascii_digit_def)
  then have "lex_char_literal l (mark_of l) =
      lex_ok (Tok_Char 10) (step_over [10] (adv l)) (mark_of l)"
    by (simp add: lex_char_literal_def rest char_name_def is_octal_name_def
        del: lx_rest_adv)
  with assms skip rest line show ?thesis
    by (simp add: next_token_def lex_token_def punctuation_def lex_ok_def step_over_def lc_step_def)
qed

section \<open>Counter bounds\<close>

text \<open>The lexers that repeated calls of \<open>next_token\<close> reach from \<open>Lexer::new\<close>.\<close>

inductive lexer_reach :: "(uchar \<Rightarrow> bool) \<Rightarrow> bool \<Rightarrow> str \<Rightarrow> str \<Rightarrow> lexer \<Rightarrow> bool"
  for alnum checked src f where
  reach_new: "lexer_reach alnum checked src f (lexer_new alnum checked src f)"
| reach_next: "lexer_reach alnum checked src f l \<Longrightarrow>
     lexer_reach alnum checked src f (snd (next_token l))"

lemma next_token_moved:
  assumes "next_token l = (r, l')"
  obtains e where "moved False e l l'"
  using assms
proof (cases rule: next_token_cases)
  case (eof s)
  then show ?thesis using moved_weaken that by blast
next
  case (tok s m d c)
  then show ?thesis using moved_weaken moved_trans that by blast
qed

lemma lexer_reach_at:
  "lexer_reach alnum checked src f l \<Longrightarrow> lx_source l = src \<and> (\<exists>d. lex_at d l)"
proof (induction rule: lexer_reach.induct)
  case reach_new
  have "lx_source (lexer_new alnum checked src f) = src" by (simp add: lexer_new_def)
  then show ?case using lex_at_new by blast
next
  case (reach_next l)
  then obtain d where d: "lex_at d l" by blast
  obtain e where "moved False e l (snd (next_token l))"
    using next_token_moved [OF prod.collapse [symmetric]] by blast
  with d reach_next show ?case
    using lex_at_moved by (metis moved_def)
qed

text \<open>
  The counters stay within their machine types: however many tokens are read, the
  offset never passes the source and stays on a character boundary, and for a source of
  less than \<open>2 ^ 32 - 1\<close> bytes line and column stay below \<open>2 ^ 32\<close>, so the \<open>u32\<close> counters
  never overflow.
\<close>

theorem lexer_counters_bounded:
  assumes "lexer_reach alnum checked src f l" and "utf8_len src < 2 ^ 32 - 1"
  shows "lx_line l < 2 ^ 32 \<and> lx_col l < 2 ^ 32 \<and> lx_pos l \<le> utf8_len src \<and>
    (\<exists>d. prefix d src \<and> lx_pos l = utf8_len d)"
proof -
  from lexer_reach_at [OF assms(1)] obtain d where "lx_source l = src" "lex_at d l" by blast
  then have d: "src = d @ lx_rest l" "lx_pos l = utf8_len d"
    "lx_line l \<le> 1 + utf8_len d" "lx_col l \<le> 1 + utf8_len d"
    by (auto simp: lex_at_def)
  then have "utf8_len d \<le> utf8_len src" by simp
  with d assms(2) show ?thesis by (auto simp: prefix_def)
qed

text \<open>
  Dispatch is complete: the lexer's \<open>unexpected character\<close> error is never reported,
  whatever the source; every character starts a token of some kind or is skipped.
\<close>

lemma unexpected_character_unreachable:
  "fst (next_token l) \<noteq> Err (ReadError (UnexpectedCharacter c) s f t)"
proof -
  obtain r l' where n: "next_token l = (r, l')" by fastforce
  then show ?thesis
  proof (cases rule: next_token_cases)
    case (tok s' m d c')
    from tok(6) n show ?thesis
      by (auto simp: well_lexed_def make_error_def)
  qed (simp add: n)
qed

section \<open>Literals\<close>

text \<open>A text that ends a token: the end of the source or a character no symbol contains.\<close>

definition delimited :: "str \<Rightarrow> bool" where
  "delimited rest \<longleftrightarrow> rest = [] \<or> \<not> is_symbol_char (hd rest)"

lemma skip_whitespace_stay:
  assumes "lx_rest l = c # cs" "c \<notin> {32, 9, 13, 10, 44, 59, 35}"
  shows "skip_whitespace_and_comments l = l"
  using assms by (simp add: skip_whitespace_and_comments.simps)

lemma next_token_stay:
  assumes "lx_rest l = c # cs" "c \<notin> {32, 9, 13, 10, 44, 59, 35}"
  shows "next_token l = lex_token c l (mark_of l)"
  using assms by (simp add: next_token_def skip_whitespace_stay)

lemma delimited_peek:
  "delimited rest \<Longrightarrow> lx_rest l = rest \<Longrightarrow> is_symbol_char c \<Longrightarrow> peek l \<noteq> Some c"
  by (auto simp: delimited_def peek_def split: list.splits)

lemma take_chars_delimited:
  assumes "lx_rest l = s @ rest" "\<forall>c \<in> set s. p c" "delimited rest" "\<And>c. p c \<Longrightarrow> is_symbol_char c"
  shows "take_chars p l = (s, (adv ^^ length s) l)"
proof -
  have "takeWhile p (s @ rest) = s"
    using assms by (intro takeWhile_append_stop) (auto simp: delimited_def)
  with assms(1) show ?thesis by (simp add: take_chars_eq)
qed

lemma digit_symbol_char: "is_ascii_digit c \<Longrightarrow> is_symbol_char c"
  by (auto simp: is_ascii_digit_def is_symbol_char_def)

text \<open>Reading a decimal digit string, with its sign, that ends at a delimiter.\<close>

lemma lex_number_decimal:
  assumes l: "lx_rest l = (if neg then [45] else []) @ ds @ rest"
    and ds: "ds \<noteq> []" "\<forall>c \<in> set ds. is_ascii_digit c" and rest: "delimited rest"
  shows "lex_number l at =
    (if 1 < length ds \<and> hd ds = 48
     then lex_octal_number neg ds ((adv ^^ length ds) (if neg then adv l else l)) at
     else lex_ok (case parse_i64 ((if neg then [45] else []) @ ds) of
                    Some n \<Rightarrow> Tok_Int n | None \<Rightarrow> Tok_BigInt ((if neg then [45] else []) @ ds))
            ((adv ^^ length ds) (if neg then adv l else l)) at)"
proof -
  define l1 where "l1 = (if neg then adv l else l)"
  define l2 where "l2 = (adv ^^ length ds) l1"
  have l1: "lx_rest l1 = ds @ rest" using l by (simp add: l1_def)
  have hd: "is_ascii_digit (hd ds)" using ds by simp
  have pk: "peek l = Some (if neg then 45 else hd ds)"
    using l ds(1) by (cases ds) (auto simp: peek_def)
  from hd have "hd ds \<noteq> 45" "hd ds \<noteq> 43" by (auto simp: is_ascii_digit_def)
  with pk have sign: "peek l = Some 45 \<longleftrightarrow> neg" "peek l \<noteq> Some 43" by auto
  then have start: "(if peek l = Some 45 \<or> peek l = Some 43 then adv l else l) = l1"
    by (simp add: l1_def)
  have tc: "take_chars is_ascii_digit l1 = (ds, l2)"
    unfolding l2_def by (rule take_chars_delimited [OF l1 ds(2) rest digit_symbol_char])
  have l2: "lx_rest l2 = rest" by (simp add: l2_def l1)
  have no: "peek l2 \<noteq> Some c" if "is_symbol_char c" for c
    by (rule delimited_peek [OF rest l2 that])
  have no': "peek l2 \<notin> {Some 120, Some 88, Some 114, Some 82, Some 46, Some 101, Some 69,
      Some 78, Some 77, Some 47}"
    using no by (simp add: is_symbol_char_def)
  have "lex_number l at =
    (if 1 < length ds \<and> hd ds = 48 then lex_octal_number neg ds l2 at
     else (case parse_i64 ((if neg then [45] else []) @ ds) of
             Some n \<Rightarrow> lex_ok (Tok_Int n) l2 at
           | None \<Rightarrow> lex_ok (Tok_BigInt ((if neg then [45] else []) @ ds)) l2 at))"
    unfolding lex_number_def Let_def start tc prod.case
    using no' sign by (simp split: option.split)
  then show ?thesis
    by (simp add: l2_def l1_def split: option.split)
qed


lemma next_token_number:
  assumes l: "lx_rest l = (if neg then [45] else []) @ ds @ rest"
    and ds: "ds \<noteq> []" "\<forall>c \<in> set ds. is_ascii_digit c"
  shows "next_token l = lex_number l (mark_of l)"
proof -
  obtain d es where d: "ds = d # es" "is_ascii_digit d" using ds by (cases ds) auto
  show ?thesis
  proof (cases neg)
    case True
    with l d have r: "lx_rest l = 45 # d # es @ rest" by simp
    then have "peek_next l = Some d" by simp
    with d(2) next_token_stay [OF r] show ?thesis
      by (simp add: lex_token_def punctuation_def is_ascii_digit_def)
  next
    case False
    with l d have r: "lx_rest l = d # es @ rest" by simp
    from d(2) have "d \<notin> {32, 9, 13, 10, 44, 59, 35}" "punctuation d = None"
      "d \<noteq> 126" "d \<noteq> 35" "d \<noteq> 34" "d \<noteq> 92" "d \<noteq> 58"
      by (auto simp: is_ascii_digit_def punctuation_def)
    with d(2) next_token_stay [OF r] show ?thesis
      by (simp add: lex_token_def)
  qed
qed

text \<open>
  The decimal text of every \<open>i64\<close>, as the printer writes it, is read as the integer token
  of that value; the text of an integer outside the range becomes a big-integer token.
\<close>

lemma next_token_integer:
  assumes "lx_rest l = int_text i @ rest" and "delimited rest"
  shows "\<exists>sp l'. next_token l =
      (Ok (if i64_min \<le> i \<and> i \<le> i64_max then Tok_Int (word_of_int i) else Tok_BigInt (int_text i), sp), l') \<and>
    lx_rest l' = rest"
proof -
  define neg ds where "neg = (i < 0)" and "ds = nat_text (nat \<bar>i\<bar>)"
  have tx: "int_text i = (if neg then [45] else []) @ ds"
    by (auto simp: int_text_def neg_def ds_def)
  have ds: "ds \<noteq> []" "\<forall>c \<in> set ds. is_ascii_digit c"
    by (auto simp: ds_def dest: nat_text_digits)
  have not_octal: "\<not> (1 < length ds \<and> hd ds = 48)"
    using nat_text_hd_zero [of "nat \<bar>i\<bar>"] by (cases ds) (auto simp: ds_def)
  have l: "lx_rest l = (if neg then [45] else []) @ ds @ rest"
    using assms(1) tx by simp
  have rest': "lx_rest ((adv ^^ length ds) (if neg then adv l else l)) = rest"
    using l by simp
  have val: "parse_i64 (int_text i) =
      (if i64_min \<le> i \<and> i \<le> i64_max then Some (word_of_int i) else None)"
    by (rule parse_i64_text)
  show ?thesis
    using next_token_number [OF l ds] lex_number_decimal [OF l ds assms(2)] not_octal rest' val
    by (auto simp: tx lex_ok_def)
qed

text \<open>The same with the suffix \<open>N\<close> that the printer gives big integers.\<close>

lemma next_token_bigint:
  assumes "lx_rest l = int_text i @ 78 # rest"
  shows "\<exists>sp l'. next_token l = (Ok (Tok_BigInt (int_text i), sp), l') \<and> lx_rest l' = rest"
proof -
  define neg ds where "neg = (i < 0)" and "ds = nat_text (nat \<bar>i\<bar>)"
  have tx: "int_text i = (if neg then [45] else []) @ ds"
    by (auto simp: int_text_def neg_def ds_def)
  have ds: "ds \<noteq> []" "\<forall>c \<in> set ds. is_ascii_digit c"
    by (auto simp: ds_def dest: nat_text_digits)
  define l1 l2 where "l1 = (if neg then adv l else l)" and "l2 = (adv ^^ length ds) l1"
  have l: "lx_rest l = (if neg then [45] else []) @ ds @ 78 # rest" using assms tx by simp
  have l1: "lx_rest l1 = ds @ 78 # rest" using l by (simp add: l1_def)
  have l2: "lx_rest l2 = 78 # rest" by (simp add: l2_def l1)
  then have pk: "peek l2 = Some 78" by simp
  have "takeWhile is_ascii_digit (ds @ 78 # rest) = ds"
    using ds by (intro takeWhile_append_stop) (auto simp: is_ascii_digit_def)
  then have tc: "take_chars is_ascii_digit l1 = (ds, l2)"
    using l1 by (simp add: take_chars_eq l2_def)
  have hd: "is_ascii_digit (hd ds)" using ds by simp
  then have "hd ds \<noteq> 45" "hd ds \<noteq> 43" by (auto simp: is_ascii_digit_def)
  with l ds(1) have sign: "peek l = Some 45 \<longleftrightarrow> neg" "peek l \<noteq> Some 43"
    by (cases ds; auto simp: peek_def)+
  then have start: "(if peek l = Some 45 \<or> peek l = Some 43 then adv l else l) = l1"
    by (simp add: l1_def)
  have "lex_number l (mark_of l) = lex_ok (Tok_BigInt (int_text i)) (adv l2) (mark_of l)"
    unfolding lex_number_def Let_def start tc prod.case
    using pk sign tx by simp
  with next_token_number [OF l ds] l2 show ?thesis by (simp add: lex_ok_def)
qed

text \<open>
  An octal literal that does not fit into \<open>i64\<close> is silently read as the integer 0: the
  overflow of \<open>from_str_radix\<close> is replaced by 0 instead of being reported or promoted to a
  big integer, as every other radix is.
\<close>

theorem octal_overflow_reads_zero:
  assumes "lx_rest l = ds @ rest" and "delimited rest"
    and "1 < length ds" and "hd ds = 48" and "\<forall>c \<in> set ds. 48 \<le> c \<and> c \<le> 55"
    and "2 ^ 63 \<le> digits_value 8 ds"
  shows "\<exists>sp l'. next_token l = (Ok (Tok_Int 0, sp), l') \<and> lx_rest l' = rest"
proof -
  have ds: "ds \<noteq> []" "\<forall>c \<in> set ds. is_ascii_digit c"
    using assms(3,5) by (auto simp: is_ascii_digit_def)
  have l: "lx_rest l = (if False then [45] else []) @ ds @ rest" using assms(1) by simp
  have "list_ex (\<lambda>b. b = 56 \<or> b = 57) ds = False"
    using assms(5) by (auto simp: list_ex_iff)
  moreover have "parse_unsigned 8 (2 ^ 63 - 1) ds = None"
    using assms(6) by (simp add: parse_unsigned_def)
  ultimately show ?thesis
    using next_token_number [OF l ds] lex_number_decimal [OF l ds assms(2)] assms(1,3,4)
    by (simp add: lex_octal_number_def lex_ok_def)
qed

text \<open>
  A radix literal whose radix is not between 2 and 36 crashes the reader:
  \<open>char::to_digit\<close> panics on it, where an error should be reported.
\<close>

theorem radix_out_of_range_panics:
  assumes "lx_rest l = nat_text r @ 114 # d # rest" and "is_ascii_alphanumeric d" and "r < 2 \<or> 36 < r"
  shows "fst (next_token l) = Panic"
proof -
  let ?ds = "nat_text r"
  have ds: "?ds \<noteq> []" "\<forall>c \<in> set ?ds. is_ascii_digit c"
    by (auto dest: nat_text_digits)
  have l: "lx_rest l = (if False then [45] else []) @ ?ds @ 114 # d # rest" using assms(1) by simp
  define l2 where "l2 = (adv ^^ length ?ds) l"
  have l2: "lx_rest l2 = 114 # d # rest" by (simp add: l2_def assms(1))
  have "takeWhile is_ascii_digit (?ds @ 114 # d # rest) = ?ds"
    using ds by (intro takeWhile_append_stop) (auto simp: is_ascii_digit_def)
  then have tc: "take_chars is_ascii_digit l = (?ds, l2)"
    using assms(1) by (simp add: take_chars_eq l2_def)
  have "peek l \<noteq> Some 45" "peek l \<noteq> Some 43"
    using assms(1) hd_nat_text_digit [of r] by (cases ?ds; auto simp: peek_def is_ascii_digit_def)+
  then have num: "lex_number l (mark_of l) = lex_radix_number False ?ds l2 (mark_of l)"
    unfolding lex_number_def Let_def using tc l2 by simp
  define radix where
    "radix = (case parse_unsigned 10 (2 ^ 32 - 1) ?ds of Some n \<Rightarrow> n | None \<Rightarrow> 0)"
  have "radix < 2 \<or> 36 < radix"
    using assms(3) by (auto simp: radix_def parse_unsigned_def split: option.splits if_splits)
  then have "radix_value radix 0 (d # ds') = Panic" for ds'
    by (auto simp: to_digit_def)
  then have "fst (lex_radix_number False ?ds l2 (mark_of l)) = Panic"
    unfolding lex_radix_number_def radix_def [symmetric] Let_def
    using l2 assms(2) by (simp add: take_chars_eq del: radix_value.simps)
  with num next_token_number [OF l ds] show ?thesis by simp
qed

subsection \<open>Symbols and keywords\<close>

text \<open>A name that the reader takes as one symbol: symbol characters, not starting like
  a number, a quote or a dispatch macro, and not one of the reserved words.\<close>

definition symbol_name :: "str \<Rightarrow> bool" where
  "symbol_name s \<longleftrightarrow>
     s \<noteq> [] \<and> list_all is_symbol_char s \<and> is_symbol_start (hd s) \<and> hd s \<noteq> 39 \<and>
     \<not> (hd s \<in> {43, 45} \<and> tl s \<noteq> [] \<and> is_ascii_digit (hd (tl s))) \<and>
     s \<notin> {lit ''nil'', lit ''true'', lit ''false''}"

definition keyword_name :: "str \<Rightarrow> bool" where
  "keyword_name s \<longleftrightarrow> s \<noteq> [] \<and> list_all is_symbol_char s \<and> hd s \<noteq> 58"

lemma read_symbol_chars_delimited:
  assumes "lx_rest l = s @ rest" "list_all is_symbol_char s" "delimited rest"
  shows "read_symbol_chars l = (s, (adv ^^ length s) l)"
  using assms by (simp add: read_symbol_chars_def take_chars_delimited list_all_iff)

text \<open>
  A valid name followed by a delimiter other than the at-sign of a version suffix is read
  as the symbol of that name, and with a colon before it as the keyword of that name.
\<close>

lemma lex_symbol_plain:
  assumes l: "lx_rest l = s @ rest" "list_all is_symbol_char s"
    and rest: "delimited rest" "\<forall>cs. rest \<noteq> 64 # cs"
  shows "lex_symbol l at =
    lex_ok (if s = lit ''nil'' then Tok_Nil else if s = lit ''true'' then Tok_Bool True
            else if s = lit ''false'' then Tok_Bool False else Tok_Symbol s) ((adv ^^ length s) l) at"
proof -
  have "peek ((adv ^^ length s) l) \<noteq> Some 64"
    using l rest(2) by (auto simp: peek_Some)
  then show ?thesis
    by (simp add: lex_symbol_def read_symbol_chars_delimited [OF l rest(1)])
qed

lemma next_token_symbol:
  assumes "lx_rest l = s @ rest" and "symbol_name s" and "delimited rest" and "\<forall>cs. rest \<noteq> 64 # cs"
  shows "\<exists>sp l'. next_token l = (Ok (Tok_Symbol s, sp), l') \<and> lx_rest l' = rest"
proof -
  obtain c cs where s: "s = c # cs" using assms(2) by (cases s) (auto simp: symbol_name_def)
  with assms(1) have r: "lx_rest l = c # cs @ rest" by simp
  have c: "is_symbol_start c" "c \<noteq> 39" "list_all is_symbol_char s"
    using assms(2) s by (auto simp: symbol_name_def)
  have "\<not> ((c = 43 \<or> c = 45) \<and> (case peek_next l of Some d \<Rightarrow> is_ascii_digit d | None \<Rightarrow> False))"
  proof (cases "cs @ rest")
    case (Cons d ds)
    with r have "peek_next l = Some d" by simp
    moreover have "c = 43 \<or> c = 45 \<Longrightarrow> \<not> is_ascii_digit d"
      using assms(2,3) s Cons
      by (cases cs) (auto simp: symbol_name_def delimited_def dest: digit_symbol_char)
    ultimately show ?thesis by auto
  qed (use r in simp)
  moreover have "c \<notin> {32, 9, 13, 10, 44, 59, 35}" "punctuation c = None" "\<not> is_ascii_digit c"
    "c \<notin> {126, 35, 34, 92, 58}"
    using c by (auto simp: is_symbol_start_def is_symbol_char_def punctuation_def)
  ultimately have "next_token l = lex_symbol l (mark_of l)"
    using next_token_stay [OF r] c by (auto simp: lex_token_def)
  moreover have "s \<notin> {lit ''nil'', lit ''true'', lit ''false''}"
    using assms(2) unfolding symbol_name_def by blast
  ultimately show ?thesis
    using lex_symbol_plain [OF assms(1) c(3) assms(3,4)] assms(1)
    unfolding lex_ok_def by auto
qed

lemma next_token_keyword:
  assumes "lx_rest l = 58 # s @ rest" and "keyword_name s" and "delimited rest"
  shows "\<exists>sp l'. next_token l = (Ok (Tok_Keyword s, sp), l') \<and> lx_rest l' = rest"
proof -
  have ne: "s \<noteq> []" and hd: "hd s \<noteq> 58" and all: "list_all is_symbol_char s"
    using assms(2) by (auto simp: keyword_name_def)
  have r1: "lx_rest (adv l) = s @ rest" using assms(1) by simp
  have "peek (adv l) \<noteq> Some 58"
    using r1 ne hd by (cases s) (auto simp: peek_def)
  then show ?thesis
    using next_token_stay [OF assms(1)] read_symbol_chars_delimited [OF r1 all assms(3)] ne assms(1)
    by (simp add: lex_token_def punctuation_def lex_keyword_def lex_ok_def Let_def)
qed

end
