(* ===== verification/Parser.thy ===== *)
theory Parser
  imports Lexer_Spec
begin

text \<open>
  The recursive-descent parser of \<^verbatim>\<open>crates/cljrs-reader/src/parser.rs\<close> with the forms of
  \<^verbatim>\<open>form.rs\<close>.  The mutually recursive methods take fuel, one unit per call; \<open>None\<close> is
  running out of it, which \<open>Parser_Spec\<close> shows never happens with the fuel the entry
  points give.
\<close>

section \<open>Forms\<close>

datatype form_kind =
    FK_Nil
  | FK_Bool bool
  | FK_Int i64
  | FK_BigInt str
  | FK_Float u64
  | FK_BigDecimal str
  | FK_Ratio str
  | FK_Char uchar
  | FK_Str str
  | FK_Regex str
  | FK_Symbolic u64
  | FK_Symbol str
  | FK_Keyword str
  | FK_AutoKeyword str
  | FK_List "form list"
  | FK_Vector "form list"
  | FK_Map "form list"
  | FK_Set "form list"
  | FK_Quote form
  | FK_SyntaxQuote form
  | FK_Unquote form
  | FK_UnquoteSplice form
  | FK_Deref form
  | FK_Var form
  | FK_Meta form form
  | FK_AnonFn "form list"
  | FK_TaggedLiteral str form
  | FK_ReaderCond bool "form list"
and form = Form (fm_kind: form_kind) (fm_span: span)

section \<open>The parser and its lookahead\<close>

record parser =
  pr_lexer :: lexer
  pr_peeked :: "(token \<times> span) option"

definition parser_new :: "(uchar \<Rightarrow> bool) \<Rightarrow> bool \<Rightarrow> str \<Rightarrow> str \<Rightarrow> parser" where
  "parser_new alnum checked src f =
     \<lparr>pr_lexer = lexer_new alnum checked src f, pr_peeked = None\<rparr>"

text \<open>
  The result of a parsing method: its outcome and the parser it leaves; \<open>None\<close> is out of
  fuel.  \<open>pbind\<close> is the \<open>?\<close> operator: an error or panic ends the method.
\<close>

type_synonym 'a pres = "((cljx_error, 'a) outcome \<times> parser) option"

definition pbind :: "'a pres \<Rightarrow> ('a \<Rightarrow> parser \<Rightarrow> 'b pres) \<Rightarrow> 'b pres" where
  "pbind m f =
     (case m of
        None \<Rightarrow> None
      | Some (r, p) \<Rightarrow>
          (case r of Ok a \<Rightarrow> f a p | Err e \<Rightarrow> Some (Err e, p) | Panic \<Rightarrow> Some (Panic, p)))"

abbreviation pok :: "'a \<Rightarrow> parser \<Rightarrow> 'a pres" where
  "pok a p \<equiv> Some (Ok a, p)"

definition fill :: "parser \<Rightarrow> unit pres" where
  "fill p =
     (case pr_peeked p of
        Some _ \<Rightarrow> pok () p
      | None \<Rightarrow>
          (case next_token (pr_lexer p) of
             (r, l) \<Rightarrow>
               (case r of
                  Ok pair \<Rightarrow> pok () (p\<lparr>pr_lexer := l, pr_peeked := Some pair\<rparr>)
                | Err e \<Rightarrow> Some (Err e, p\<lparr>pr_lexer := l\<rparr>)
                | Panic \<Rightarrow> Some (Panic, p\<lparr>pr_lexer := l\<rparr>))))"

definition bump :: "parser \<Rightarrow> (token \<times> span) pres" where
  "bump p = pbind (fill p) (\<lambda>_ p.
     case pr_peeked p of
       Some pair \<Rightarrow> pok pair (p\<lparr>pr_peeked := None\<rparr>)
     | None \<Rightarrow> Some (Panic, p))"

definition peek_tok :: "parser \<Rightarrow> token pres" where
  "peek_tok p = pbind (fill p) (\<lambda>_ p.
     case pr_peeked p of Some (t, _) \<Rightarrow> pok t p | None \<Rightarrow> Some (Panic, p))"

definition peek_span :: "parser \<Rightarrow> span pres" where
  "peek_span p = pbind (fill p) (\<lambda>_ p.
     case pr_peeked p of Some (_, s) \<Rightarrow> pok s p | None \<Rightarrow> Some (Panic, p))"

definition perr :: "read_msg \<Rightarrow> span \<Rightarrow> parser \<Rightarrow> 'a pres" where
  "perr msg s p =
     Some (Err (ReadError msg (source_span s) (lx_file (pr_lexer p)) (lx_source (pr_lexer p))), p)"

definition merged_span :: "span \<Rightarrow> span \<Rightarrow> span" where
  "merged_span s e = span_new (sp_file s) (sp_start s) (sp_end e) (sp_line s) (sp_col s)"

section \<open>Tokens that make forms\<close>

text \<open>The tokens that are a form by themselves.\<close>

definition atom_kind :: "token \<Rightarrow> form_kind option" where
  "atom_kind tok =
     (case tok of
        Tok_Nil \<Rightarrow> Some FK_Nil
      | Tok_Bool b \<Rightarrow> Some (FK_Bool b)
      | Tok_Int n \<Rightarrow> Some (FK_Int n)
      | Tok_BigInt s \<Rightarrow> Some (FK_BigInt s)
      | Tok_Float x \<Rightarrow> Some (FK_Float x)
      | Tok_BigDecimal s \<Rightarrow> Some (FK_BigDecimal s)
      | Tok_Ratio s \<Rightarrow> Some (FK_Ratio s)
      | Tok_Char c \<Rightarrow> Some (FK_Char c)
      | Tok_Str s \<Rightarrow> Some (FK_Str s)
      | Tok_Regex s \<Rightarrow> Some (FK_Regex s)
      | Tok_Symbol s \<Rightarrow> Some (FK_Symbol s)
      | Tok_Keyword s \<Rightarrow> Some (FK_Keyword s)
      | Tok_AutoKeyword s \<Rightarrow> Some (FK_AutoKeyword s)
      | _ \<Rightarrow> None)"

text \<open>\<open>##Inf\<close>, \<open>##-Inf\<close> and \<open>##NaN\<close>; any other name is the source's \<open>unreachable!\<close>.\<close>

definition parse_symbolic :: "token \<Rightarrow> span \<Rightarrow> parser \<Rightarrow> form option pres" where
  "parse_symbolic tok span p =
     (case tok of
        Tok_Symbolic s \<Rightarrow>
          if s = lit ''Inf'' then pok (Some (Form (FK_Symbolic f64_infinity) span)) p
          else if s = lit ''-Inf'' then pok (Some (Form (FK_Symbolic f64_neg_infinity) span)) p
          else if s = lit ''NaN'' then pok (Some (Form (FK_Symbolic f64_nan) span)) p
          else Some (Panic, p)
      | _ \<Rightarrow> Some (Panic, p))"

text \<open>The opening tokens of the plain collections: closing token, name in errors, kind.\<close>

definition seq_kind :: "token \<Rightarrow> (token \<times> string \<times> (form list \<Rightarrow> form_kind)) option" where
  "seq_kind tok =
     (case tok of
        Tok_LParen \<Rightarrow> Some (Tok_RParen, ''list'', FK_List)
      | Tok_LBracket \<Rightarrow> Some (Tok_RBracket, ''vector'', FK_Vector)
      | Tok_HashSet \<Rightarrow> Some (Tok_RBrace, ''set'', FK_Set)
      | Tok_HashFn \<Rightarrow> Some (Tok_RParen, ''anonymous function'', FK_AnonFn)
      | _ \<Rightarrow> None)"

text \<open>The reader macros that wrap the next form.\<close>

definition wrap_kind :: "token \<Rightarrow> (string \<times> (form \<Rightarrow> form_kind)) option" where
  "wrap_kind tok =
     (case tok of
        Tok_Quote \<Rightarrow> Some (''quoted form'', FK_Quote)
      | Tok_SyntaxQuote \<Rightarrow> Some (''syntax-quoted form'', FK_SyntaxQuote)
      | Tok_Unquote \<Rightarrow> Some (''unquoted form'', FK_Unquote)
      | Tok_UnquoteSplice \<Rightarrow> Some (''unquote-spliced form'', FK_UnquoteSplice)
      | Tok_Deref \<Rightarrow> Some (''deref form'', FK_Deref)
      | Tok_HashVar \<Rightarrow> Some (''var form'', FK_Var)
      | Tok_TaggedLiteral tag \<Rightarrow> Some (''tagged literal value'', FK_TaggedLiteral tag)
      | _ \<Rightarrow> None)"

definition is_splice :: "form \<Rightarrow> bool" where
  "is_splice f \<longleftrightarrow> (case fm_kind f of FK_ReaderCond True _ \<Rightarrow> True | _ \<Rightarrow> False)"

section \<open>Recursive descent\<close>

function (sequential) parse_raw :: "nat \<Rightarrow> parser \<Rightarrow> form option pres"
and parse_seq_forms ::
  "nat \<Rightarrow> token \<Rightarrow> span \<Rightarrow> string \<Rightarrow> form list \<Rightarrow> parser \<Rightarrow> (form list \<times> span) pres"
and require_form :: "nat \<Rightarrow> span \<Rightarrow> string \<Rightarrow> parser \<Rightarrow> form pres"
and parse_reader_cond :: "nat \<Rightarrow> bool \<Rightarrow> span \<Rightarrow> parser \<Rightarrow> form pres"
where
  "parse_raw 0 p = None"
| "parse_raw (Suc n) p =
     pbind (peek_tok p) (\<lambda>tok p.
     pbind (peek_span p) (\<lambda>span p.
       if tok = Tok_Eof then pok None p
       else if tok \<in> {Tok_RParen, Tok_RBracket, Tok_RBrace} then
         pbind (bump p) (\<lambda>_ p. perr UnexpectedClosingDelimiter span p)
       else case atom_kind tok of
         Some k \<Rightarrow> pbind (bump p) (\<lambda>_ p. pok (Some (Form k span)) p)
       | None \<Rightarrow>
         (case seq_kind tok of
            Some (closing, name, mk) \<Rightarrow>
              pbind (bump p) (\<lambda>_ p.
              pbind (parse_seq_forms n closing span name [] p) (\<lambda>(forms, close) p.
                pok (Some (Form (mk forms) (merged_span span close))) p))
          | None \<Rightarrow>
            (case wrap_kind tok of
               Some (what, mk) \<Rightarrow>
                 pbind (bump p) (\<lambda>_ p.
                 pbind (require_form n span what p) (\<lambda>inner p.
                   pok (Some (Form (mk inner) (merged_span span (fm_span inner)))) p))
             | None \<Rightarrow>
               (if tok = Tok_LBrace then
                  pbind (bump p) (\<lambda>_ p.
                  pbind (parse_seq_forms n Tok_RBrace span ''map'' [] p) (\<lambda>(forms, close) p.
                    if \<not> list_ex is_splice forms \<and> odd (length forms)
                    then perr OddMapForms span p
                    else pok (Some (Form (FK_Map forms) (merged_span span close))) p))
                else if tok = Tok_Meta then
                  pbind (bump p) (\<lambda>_ p.
                  pbind (require_form n span ''meta form'' p) (\<lambda>meta p.
                  pbind (require_form n span ''annotated form'' p) (\<lambda>target p.
                    pok (Some (Form (FK_Meta meta target) (merged_span span (fm_span target)))) p)))
                else if tok = Tok_HashDiscard then
                  pbind (bump p) (\<lambda>_ p.
                  pbind (peek_tok p) (\<lambda>t p.
                    if t = Tok_Eof then perr EofAfterDiscard span p
                    else pbind (parse_raw n p) (\<lambda>_ p. pok None p)))
                else if tok = Tok_ReaderCond \<or> tok = Tok_ReaderCondSplice then
                  pbind (bump p) (\<lambda>_ p.
                  pbind (parse_reader_cond n (tok = Tok_ReaderCondSplice) span p) (\<lambda>form p.
                    pok (Some form) p))
                else
                  pbind (bump p) (\<lambda>_ p. parse_symbolic tok span p))))))"
| "parse_seq_forms 0 closing open_span name forms p = None"
| "parse_seq_forms (Suc n) closing open_span name forms p =
     pbind (peek_tok p) (\<lambda>tok p.
       if tok = Tok_Eof then perr (Unclosed name) open_span p
       else if tok = closing then pbind (bump p) (\<lambda>(_, close_span) p. pok (forms, close_span) p)
       else pbind (parse_raw n p) (\<lambda>r p.
              case r of
                Some form \<Rightarrow> parse_seq_forms n closing open_span name (forms @ [form]) p
              | None \<Rightarrow> parse_seq_forms n closing open_span name forms p))"
| "require_form 0 macro_span what p = None"
| "require_form (Suc n) macro_span what p =
     pbind (peek_tok p) (\<lambda>tok p.
       if tok = Tok_Eof then perr (EofExpected what) macro_span p
       else pbind (parse_raw n p) (\<lambda>r p.
              case r of Some form \<Rightarrow> pok form p | None \<Rightarrow> require_form n macro_span what p))"
| "parse_reader_cond 0 splicing start p = None"
| "parse_reader_cond (Suc n) splicing start p =
     pbind (peek_tok p) (\<lambda>next p.
       if next \<noteq> Tok_LParen then pbind (peek_span p) (\<lambda>s p. perr ReaderCondRequiresParen s p)
       else
         pbind (bump p) (\<lambda>(_, open_span) p.
         pbind (parse_seq_forms n Tok_RParen open_span ''reader conditional'' [] p)
           (\<lambda>(clauses, close_span) p.
              if odd (length clauses) then perr OddReaderCondClauses open_span p
              else pok (Form (FK_ReaderCond splicing clauses) (merged_span start close_span)) p)))"

  by pat_completeness auto

termination
  by (relation "measure (\<lambda>x. case x of
        Inl (Inl (n, _)) \<Rightarrow> n | Inl (Inr (n, _)) \<Rightarrow> n
      | Inr (Inl (n, _)) \<Rightarrow> n | Inr (Inr (n, _)) \<Rightarrow> n)") auto

fun parse_one :: "nat \<Rightarrow> parser \<Rightarrow> form option pres" where
  "parse_one 0 p = None"
| "parse_one (Suc n) p =
     pbind (peek_tok p) (\<lambda>tok p.
       if tok = Tok_Eof then pok None p
       else pbind (parse_raw n p) (\<lambda>r p.
              case r of Some form \<Rightarrow> pok (Some form) p | None \<Rightarrow> parse_one n p))"

fun parse_all :: "nat \<Rightarrow> form list \<Rightarrow> parser \<Rightarrow> form list pres" where
  "parse_all 0 forms p = None"
| "parse_all (Suc n) forms p =
     pbind (parse_one n p) (\<lambda>r p.
       case r of Some form \<Rightarrow> parse_all n (forms @ [form]) p | None \<Rightarrow> pok forms p)"

text \<open>\<open>Iterator for Parser\<close>: an error is an item, the end of the file ends the iteration.\<close>

definition parser_iter_next :: "nat \<Rightarrow> parser \<Rightarrow> ((cljx_error, form) outcome option \<times> parser) option" where
  "parser_iter_next n p =
     map_option (\<lambda>(r, p').
       ((case r of Ok (Some form) \<Rightarrow> Some (Ok form) | Ok None \<Rightarrow> None
         | Err e \<Rightarrow> Some (Err e) | Panic \<Rightarrow> Some Panic), p')) (parse_one n p)"

text \<open>
  The fuel of the entry points.  Every call of \<open>parse_raw\<close> that is not at the end of the
  file consumes a token, and between two tokens at most two methods are entered.
\<close>

definition psize :: "parser \<Rightarrow> nat" where
  "psize p = length (lx_rest (pr_lexer p)) +
     (case pr_peeked p of Some (t, _) \<Rightarrow> if t = Tok_Eof then 0 else 1 | None \<Rightarrow> 0)"

definition parser_fuel :: "parser \<Rightarrow> nat" where
  "parser_fuel p = 2 * psize p + 3"

definition read_one :: "parser \<Rightarrow> form option pres" where
  "read_one p = parse_one (parser_fuel p) p"

definition read_all :: "parser \<Rightarrow> form list pres" where
  "read_all p = parse_all (parser_fuel p) [] p"

end
