(* ===== verification/Environment.thy ===== *)
theory Environment
  imports Rust_Numbers "HOL-Library.AList"
begin

text \<open>
  Namespaces, vars, dynamic bindings and local frames: the parts of
  \<^verbatim>\<open>crates/cljrs-env/src/env.rs\<close> and \<^verbatim>\<open>dynamics.rs\<close> that decide what a name means, with \<open>Var\<close> and
  \<open>Namespace\<close> of \<^verbatim>\<open>cljrs-value/src/types.rs\<close>.  A \<open>GcPtr<Var>\<close> is an index into the store of vars,
  so that two names of one var share it; a hash map is the association list of its entries.
  The type of values is a parameter.
\<close>

section \<open>Vars and namespaces\<close>

record 'v var =
  va_namespace :: str
  va_name :: str
  va_value :: "'v option"
  va_is_macro :: bool
  va_meta :: "'v option"

definition var_new :: "str \<Rightarrow> str \<Rightarrow> 'v var" where
  "var_new n s = \<lparr>va_namespace = n, va_name = s, va_value = None, va_is_macro = False, va_meta = None\<rparr>"

definition var_bind :: "'v \<Rightarrow> 'v var \<Rightarrow> 'v var" where
  "var_bind v x = x\<lparr>va_value := Some v\<rparr>"

record namespace =
  ns_name :: str
  ns_interns :: "(str \<times> nat) list"
  ns_refers :: "(str \<times> nat) list"
  ns_aliases :: "(str \<times> str) list"
  ns_source_file :: "str option"
  ns_git_repo_root :: "str option"
  ns_is_versioned :: bool

definition namespace_new :: "str \<Rightarrow> namespace" where
  "namespace_new n =
     \<lparr>ns_name = n, ns_interns = [], ns_refers = [], ns_aliases = [], ns_source_file = None,
      ns_git_repo_root = None, ns_is_versioned = False\<rparr>"

definition namespace_new_versioned :: "str \<Rightarrow> namespace" where
  "namespace_new_versioned n = (namespace_new n)\<lparr>ns_is_versioned := True\<rparr>"

definition set_source_location :: "str \<Rightarrow> str option \<Rightarrow> namespace \<Rightarrow> namespace" where
  "set_source_location file root n = n\<lparr>ns_source_file := Some file, ns_git_repo_root := root\<rparr>"

section \<open>The global environment\<close>

text \<open>\<open>gl_out_var\<close> is the static \<open>OUT_VAR_KEY\<close>, which \<open>intern\<close> registers.\<close>

record 'v globals =
  gl_vars :: "'v var list"
  gl_namespaces :: "(str \<times> namespace) list"
  gl_loaded :: "str list"
  gl_version_cache :: "(str \<times> 'v) list"
  gl_versioned_sources :: "(str \<times> str) list"
  gl_native_provenance :: "(str \<times> str) list"
  gl_out_var :: "nat option"

definition globals_new :: "'v globals" where
  "globals_new =
     \<lparr>gl_vars = [], gl_namespaces = [], gl_loaded = [], gl_version_cache = [],
      gl_versioned_sources = [], gl_native_provenance = [], gl_out_var = None\<rparr>"

definition find_ns :: "'v globals \<Rightarrow> str \<Rightarrow> namespace option" where
  "find_ns g n = map_of (gl_namespaces g) n"

definition put_ns :: "str \<Rightarrow> namespace \<Rightarrow> 'v globals \<Rightarrow> 'v globals" where
  "put_ns n x g = g\<lparr>gl_namespaces := AList.update n x (gl_namespaces g)\<rparr>"

definition mark_loaded :: "str \<Rightarrow> 'v globals \<Rightarrow> 'v globals" where
  "mark_loaded n g = g\<lparr>gl_loaded := List.insert n (gl_loaded g)\<rparr>"

definition is_loaded :: "'v globals \<Rightarrow> str \<Rightarrow> bool" where
  "is_loaded g n \<longleftrightarrow> n \<in> set (gl_loaded g)"

definition resolve_alias :: "'v globals \<Rightarrow> str \<Rightarrow> str \<Rightarrow> str option" where
  "resolve_alias g current alias = Option.bind (find_ns g current) (\<lambda>n. map_of (ns_aliases n) alias)"

text \<open>\<open>str::split_once\<close>: the text before and after the first occurrence.\<close>

fun split_once :: "uchar \<Rightarrow> str \<Rightarrow> (str \<times> str) option" where
  "split_once c [] = None"
| "split_once c (x # xs) =
     (if x = c then Some ([], xs) else map_option (\<lambda>(a, b). (x # a, b)) (split_once c xs))"

definition resolve_auto_keyword :: "'v globals \<Rightarrow> str \<Rightarrow> str \<Rightarrow> str + str" where
  "resolve_auto_keyword g current name =
     (case split_once 47 name of
        Some (alias, kw) \<Rightarrow>
          (case resolve_alias g current alias of
             Some n \<Rightarrow> Inr (n @ lit ''/'' @ kw)
           | None \<Rightarrow> Inl (lit ''invalid token: ::'' @ name @ lit '' (no such namespace alias: '' @ alias @ lit '')''))
      | None \<Rightarrow> Inr (current @ lit ''/'' @ name))"

definition get_or_create_ns :: "str \<Rightarrow> 'v globals \<Rightarrow> namespace \<times> 'v globals" where
  "get_or_create_ns n g =
     (case find_ns g n of
        Some x \<Rightarrow> (x, g)
      | None \<Rightarrow> (namespace_new n, put_ns n (namespace_new n) g))"

definition intern :: "str \<Rightarrow> str \<Rightarrow> 'v \<Rightarrow> 'v globals \<Rightarrow> nat \<times> 'v globals" where
  "intern n name v g =
     (case get_or_create_ns n g of (x, g1) \<Rightarrow>
        case map_of (ns_interns x) name of
          Some a \<Rightarrow> (a, g1\<lparr>gl_vars := (gl_vars g1)[a := var_bind v (gl_vars g1 ! a)]\<rparr>)
        | None \<Rightarrow>
            let a = length (gl_vars g1);
                g2 = g1\<lparr>gl_vars := gl_vars g1 @ [var_bind v (var_new n name)],
                        gl_out_var := (if n = lit ''clojure.core'' \<and> name = lit ''*out*'' then Some a
                                       else gl_out_var g1)\<rparr>
            in (a, put_ns n (x\<lparr>ns_interns := AList.update name a (ns_interns x)\<rparr>) g2))"

definition lookup_var :: "'v globals \<Rightarrow> str \<Rightarrow> str \<Rightarrow> nat option" where
  "lookup_var g n name = Option.bind (find_ns g n) (\<lambda>x. map_of (ns_interns x) name)"

definition lookup_var_in_ns :: "'v globals \<Rightarrow> str \<Rightarrow> str \<Rightarrow> nat option" where
  "lookup_var_in_ns g n name =
     Option.bind (find_ns g n) (\<lambda>x.
       case map_of (ns_interns x) name of
         Some a \<Rightarrow> Some a
       | None \<Rightarrow> (case map_of (ns_refers x) name of Some a \<Rightarrow> Some a | None \<Rightarrow> None))"

definition refer_all :: "str \<Rightarrow> str \<Rightarrow> 'v globals \<Rightarrow> 'v globals" where
  "refer_all dst src g =
     (case (find_ns g src, find_ns g dst) of
        (Some s, Some d) \<Rightarrow>
          put_ns dst (d\<lparr>ns_refers := fold (\<lambda>(name, a). AList.update name a) (ns_interns s) (ns_refers d)\<rparr>) g
      | _ \<Rightarrow> g)"

definition refer_named :: "str \<Rightarrow> str \<Rightarrow> str list \<Rightarrow> 'v globals \<Rightarrow> 'v globals" where
  "refer_named dst src names g =
     (case (find_ns g src, find_ns g dst) of
        (Some s, Some d) \<Rightarrow>
          put_ns dst
            (d\<lparr>ns_refers :=
                 fold (\<lambda>name r. case map_of (ns_interns s) name of
                                  Some a \<Rightarrow> AList.update name a r | None \<Rightarrow> r)
                   names (ns_refers d)\<rparr>) g
      | _ \<Rightarrow> g)"

definition add_alias :: "str \<Rightarrow> str \<Rightarrow> str \<Rightarrow> 'v globals \<Rightarrow> 'v globals" where
  "add_alias current alias full g =
     (case get_or_create_ns current g of (x, g1) \<Rightarrow>
        put_ns current (x\<lparr>ns_aliases := AList.update alias full (ns_aliases x)\<rparr>) g1)"

definition get_ns_git_context :: "'v globals \<Rightarrow> str \<Rightarrow> (str \<times> str) option" where
  "get_ns_git_context g n =
     Option.bind (find_ns g n) (\<lambda>x.
       Option.bind (ns_source_file x) (\<lambda>f. map_option (Pair f) (ns_git_repo_root x)))"

definition versioned_key :: "str \<Rightarrow> str \<Rightarrow> str \<Rightarrow> str" where
  "versioned_key n name commit = n @ lit ''/'' @ name @ lit ''@'' @ commit"

definition cache_versioned :: "str \<Rightarrow> str \<Rightarrow> str \<Rightarrow> 'v \<Rightarrow> 'v globals \<Rightarrow> 'v globals" where
  "cache_versioned n name commit v g =
     g\<lparr>gl_version_cache := AList.update (versioned_key n name commit) v (gl_version_cache g)\<rparr>"

definition get_cached_versioned :: "'v globals \<Rightarrow> str \<Rightarrow> str \<Rightarrow> str \<Rightarrow> 'v option" where
  "get_cached_versioned g n name commit = map_of (gl_version_cache g) (versioned_key n name commit)"

definition cache_versioned_ns :: "'v \<Rightarrow> str \<Rightarrow> str \<Rightarrow> 'v globals \<Rightarrow> 'v globals" where
  "cache_versioned_ns vnil n commit g =
     g\<lparr>gl_version_cache := AList.update (n @ lit ''@'' @ commit) vnil (gl_version_cache g)\<rparr>"

definition record_versioned_source :: "str \<Rightarrow> str \<Rightarrow> 'v globals \<Rightarrow> 'v globals" where
  "record_versioned_source n src g =
     g\<lparr>gl_versioned_sources := AList.update n src (gl_versioned_sources g)\<rparr>"

definition set_native_provenance :: "str \<Rightarrow> str \<Rightarrow> 'v globals \<Rightarrow> 'v globals" where
  "set_native_provenance n commit g =
     g\<lparr>gl_native_provenance := AList.update n commit (gl_native_provenance g)\<rparr>"

definition native_provenance_for :: "'v globals \<Rightarrow> str \<Rightarrow> str option" where
  "native_provenance_for g n = map_of (gl_native_provenance g) n"

section \<open>Output targets\<close>

text \<open>
  The thread-local stacks of a thread, their innermost entry first, and what the thread has
  written to the two streams.
\<close>

datatype output_target = Capture str | Stdout | Stderr

record 'v thread =
  th_bindings :: "(nat \<times> 'v) list list"
  th_targets :: "output_target list"
  th_stdout :: str
  th_stderr :: str

definition push_capture :: "'v thread \<Rightarrow> 'v thread" where
  "push_capture th = th\<lparr>th_targets := Capture [] # th_targets th\<rparr>"

definition pop_capture :: "'v thread \<Rightarrow> str option \<times> 'v thread" where
  "pop_capture th =
     (case th_targets th of
        Capture buf # ts \<Rightarrow> (Some buf, th\<lparr>th_targets := ts\<rparr>)
      | _ # ts \<Rightarrow> (None, th\<lparr>th_targets := ts\<rparr>)
      | [] \<Rightarrow> (None, th))"

definition push_stream :: "bool \<Rightarrow> 'v thread \<Rightarrow> 'v thread" where
  "push_stream stderr th = th\<lparr>th_targets := (if stderr then Stderr else Stdout) # th_targets th\<rparr>"

definition pop_stream :: "'v thread \<Rightarrow> 'v thread" where
  "pop_stream th = th\<lparr>th_targets := tl (th_targets th)\<rparr>"

text \<open>
  \<open>resolve\<close>: the index of the topmost capture buffer, or whether the topmost marker is
  \<open>stderr\<close>.  The accumulator is the marker seen first.
\<close>

fun resolve_target :: "bool option \<Rightarrow> output_target list \<Rightarrow> bool + nat" where
  "resolve_target stderr [] = Inl (case stderr of Some b \<Rightarrow> b | None \<Rightarrow> False)"
| "resolve_target stderr (Capture buf # ts) = Inr 0"
| "resolve_target stderr (Stderr # ts) =
     map_sum id Suc (resolve_target (case stderr of Some b \<Rightarrow> Some b | None \<Rightarrow> Some True) ts)"
| "resolve_target stderr (Stdout # ts) =
     map_sum id Suc (resolve_target (case stderr of Some b \<Rightarrow> Some b | None \<Rightarrow> Some False) ts)"

fun append_capture :: "str \<Rightarrow> output_target \<Rightarrow> output_target" where
  "append_capture s (Capture buf) = Capture (buf @ s)"
| "append_capture s t = t"

definition emit :: "str \<Rightarrow> 'v thread \<Rightarrow> 'v thread" where
  "emit s th =
     (case resolve_target None (th_targets th) of
        Inr i \<Rightarrow> th\<lparr>th_targets := (th_targets th)[i := append_capture s (th_targets th ! i)]\<rparr>
      | Inl True \<Rightarrow> th\<lparr>th_stderr := th_stderr th @ s\<rparr>
      | Inl False \<Rightarrow> th\<lparr>th_stdout := th_stdout th @ s\<rparr>)"

definition emit_ln :: "str \<Rightarrow> 'v thread \<Rightarrow> 'v thread" where
  "emit_ln s th =
     (case resolve_target None (th_targets th) of
        Inr i \<Rightarrow>
          th\<lparr>th_targets := (th_targets th)[i := append_capture [10] (append_capture s (th_targets th ! i))]\<rparr>
      | Inl True \<Rightarrow> th\<lparr>th_stderr := th_stderr th @ s @ [10]\<rparr>
      | Inl False \<Rightarrow> th\<lparr>th_stdout := th_stdout th @ s @ [10]\<rparr>)"

section \<open>Dynamic bindings\<close>

text \<open>
  \<open>sentinel_stream\<close> reads a value as a keyword, which the parameter does: the namespace
  and the name of a keyword value.
\<close>

type_synonym 'v keyword_view = "'v \<Rightarrow> (str option \<times> str) option"

definition sentinel_stream :: "'v keyword_view \<Rightarrow> 'v \<Rightarrow> bool option" where
  "sentinel_stream kw v =
     (case kw v of
        Some (Some n, name) \<Rightarrow>
          if n = lit ''cljrs.io'' then
            if name = lit ''stderr'' then Some True
            else if name = lit ''stdout'' then Some False else None
          else None
      | _ \<Rightarrow> None)"

text \<open>\<open>push_frame\<close> also gives the guard: whether a stream marker was pushed.\<close>

definition push_frame ::
  "'v keyword_view \<Rightarrow> nat option \<Rightarrow> (nat \<times> 'v) list \<Rightarrow> 'v thread \<Rightarrow> bool \<times> 'v thread" where
  "push_frame kw out_var bindings th =
     (let stream = Option.bind out_var (\<lambda>a. Option.bind (map_of bindings a) (sentinel_stream kw));
          th1 = th\<lparr>th_bindings := bindings # th_bindings th\<rparr>
      in case stream of
           Some stderr \<Rightarrow> (True, push_stream stderr th1)
         | None \<Rightarrow> (False, th1))"

definition pop_frame :: "'v thread \<Rightarrow> 'v thread" where
  "pop_frame th = th\<lparr>th_bindings := tl (th_bindings th)\<rparr>"

definition drop_guard :: "bool \<Rightarrow> 'v thread \<Rightarrow> 'v thread" where
  "drop_guard pushed_stream th = pop_frame (if pushed_stream then pop_stream th else th)"

fun find_binding :: "nat \<Rightarrow> (nat \<times> 'v) list list \<Rightarrow> 'v option" where
  "find_binding a [] = None"
| "find_binding a (f # fs) = (case map_of f a of Some v \<Rightarrow> Some v | None \<Rightarrow> find_binding a fs)"

definition deref_var :: "'v globals \<Rightarrow> 'v thread \<Rightarrow> nat \<Rightarrow> 'v option" where
  "deref_var g th a =
     (case find_binding a (th_bindings th) of
        Some v \<Rightarrow> Some v
      | None \<Rightarrow> va_value (gl_vars g ! a))"

definition is_thread_bound :: "'v thread \<Rightarrow> nat \<Rightarrow> bool" where
  "is_thread_bound th a \<longleftrightarrow> list_ex (\<lambda>f. map_of f a \<noteq> None) (th_bindings th)"

fun set_binding :: "nat \<Rightarrow> 'v \<Rightarrow> (nat \<times> 'v) list list \<Rightarrow> bool \<times> (nat \<times> 'v) list list" where
  "set_binding a v [] = (False, [])"
| "set_binding a v (f # fs) =
     (if map_of f a \<noteq> None then (True, AList.update a v f # fs)
      else apsnd (Cons f) (set_binding a v fs))"

definition set_thread_local :: "nat \<Rightarrow> 'v \<Rightarrow> 'v thread \<Rightarrow> bool \<times> 'v thread" where
  "set_thread_local a v th =
     (case set_binding a v (th_bindings th) of (b, fs) \<Rightarrow> (b, th\<lparr>th_bindings := fs\<rparr>))"

definition capture_current :: "'v thread \<Rightarrow> (nat \<times> 'v) list list" where
  "capture_current th = th_bindings th"

definition install_frames :: "(nat \<times> 'v) list list \<Rightarrow> 'v thread \<Rightarrow> 'v thread" where
  "install_frames fs th = th\<lparr>th_bindings := fs\<rparr>"

definition lookup_in_ns :: "'v globals \<Rightarrow> 'v thread \<Rightarrow> str \<Rightarrow> str \<Rightarrow> 'v option" where
  "lookup_in_ns g th n name =
     Option.bind (find_ns g n) (\<lambda>x.
       case map_of (ns_interns x) name of
         Some a \<Rightarrow> deref_var g th a
       | None \<Rightarrow> (case map_of (ns_refers x) name of Some a \<Rightarrow> deref_var g th a | None \<Rightarrow> None))"

section \<open>Local frames\<close>

text \<open>Frames and their bindings are in the order of the vectors: the innermost is last.\<close>

type_synonym 'v frame = "(str \<times> 'v) list"

definition frame_bind :: "str \<Rightarrow> 'v \<Rightarrow> 'v frame \<Rightarrow> 'v frame" where
  "frame_bind name v f = f @ [(name, v)]"

definition frame_lookup :: "'v frame \<Rightarrow> str \<Rightarrow> 'v option" where
  "frame_lookup f name = map_of (rev f) name"

record 'v env =
  ev_frames :: "'v frame list"
  ev_current_ns :: str
  ev_commit :: "str option"
  ev_is_async :: bool

definition env_new :: "str \<Rightarrow> 'v env" where
  "env_new n = \<lparr>ev_frames = [], ev_current_ns = n, ev_commit = None, ev_is_async = False\<rparr>"

definition env_new_versioned :: "str \<Rightarrow> str \<Rightarrow> 'v env" where
  "env_new_versioned n commit = (env_new n)\<lparr>ev_commit := Some commit\<rparr>"

definition env_push_frame :: "'v env \<Rightarrow> 'v env" where
  "env_push_frame e = e\<lparr>ev_frames := ev_frames e @ [[]]\<rparr>"

definition env_pop_frame :: "'v env \<Rightarrow> 'v env" where
  "env_pop_frame e = e\<lparr>ev_frames := butlast (ev_frames e)\<rparr>"

definition env_bind :: "str \<Rightarrow> 'v \<Rightarrow> 'v env \<Rightarrow> 'v env" where
  "env_bind name v e =
     (if ev_frames e = [] then e
      else e\<lparr>ev_frames := butlast (ev_frames e) @ [frame_bind name v (last (ev_frames e))]\<rparr>)"

definition with_closure :: "str \<Rightarrow> str list \<Rightarrow> 'v list \<Rightarrow> 'v env" where
  "with_closure n names vals =
     (if names = [] then env_new n
      else fold (\<lambda>(name, v). env_bind name v) (zip names vals) (env_push_frame (env_new n)))"

fun frames_lookup :: "'v frame list \<Rightarrow> str \<Rightarrow> 'v option" where
  "frames_lookup [] name = None"
| "frames_lookup (f # fs) name =
     (case frame_lookup f name of Some v \<Rightarrow> Some v | None \<Rightarrow> frames_lookup fs name)"

definition lookup_local_frames :: "'v env \<Rightarrow> str \<Rightarrow> 'v option" where
  "lookup_local_frames e name = frames_lookup (rev (ev_frames e)) name"

definition env_lookup :: "'v globals \<Rightarrow> 'v thread \<Rightarrow> 'v env \<Rightarrow> str \<Rightarrow> 'v option" where
  "env_lookup g th e name =
     (case frames_lookup (rev (ev_frames e)) name of
        Some v \<Rightarrow> Some v
      | None \<Rightarrow> lookup_in_ns g th (ev_current_ns e) name)"

definition env_lookup_var :: "'v globals \<Rightarrow> 'v env \<Rightarrow> str \<Rightarrow> nat option" where
  "env_lookup_var g e name = lookup_var_in_ns g (ev_current_ns e) name"

definition all_local_bindings :: "'v env \<Rightarrow> str list \<times> 'v list" where
  "all_local_bindings e = (map fst (concat (ev_frames e)), map snd (concat (ev_frames e)))"

definition env_child :: "'v env \<Rightarrow> 'v env" where
  "env_child e =
     (case all_local_bindings e of (names, vals) \<Rightarrow>
        let child = (env_new (ev_current_ns e))\<lparr>ev_is_async := ev_is_async e\<rparr>
        in if names = [] then child
           else fold (\<lambda>(name, v). env_bind name v) (zip names vals) (env_push_frame child))"

end
