(* ===== verification/Nrepl.thy ===== *)
theory Nrepl
  imports Bencode_Spec Parser Environment "HOL-Library.List_Lexorder" "HOL-Library.Product_Lexorder"
begin

text \<open>
  The nREPL server, \<^verbatim>\<open>crates/cljrs-nrepl/src\<close>: requests and responses (\<^verbatim>\<open>protocol.rs\<close>), the
  network side with its framing and the registry of in-flight requests (\<^verbatim>\<open>server.rs\<close>), and
  the interpreter side with sessions and op handlers (\<^verbatim>\<open>engine.rs\<close>).  The two threads are a
  step relation over one state: the network side may dispatch a message at any time, the
  interpreter side takes a job or evaluates the next form of the one it runs.  A hash map
  is the association list of its entries; an \<open>Arc<AtomicBool>\<close> is an index into the list of
  flags; the namespaces, environments and thread-local stacks are those of the theory
  Environment.  The server is generic in its evaluator (\<open>impl EvalForm\<close>); the record \<open>host\<close> is
  that evaluator with what the ops read from a value.
\<close>

section \<open>Requests and responses\<close>

record request =
  rq_op :: str
  rq_id :: "str option"
  rq_session :: "str option"
  rq_code :: "str option"
  rq_ns :: "str option"
  rq_file :: "str option"
  rq_file_name :: "str option"
  rq_prefix :: "str option"
  rq_sym :: "str option"
  rq_interrupt_id :: "str option"

definition dict_str :: "(byte list \<times> bencode) list \<Rightarrow> string \<Rightarrow> str option" where
  "dict_str d key = Option.bind (map_of d (utf8_bytes (lit key))) as_str"

definition request_from_bencode :: "bencode \<Rightarrow> request option" where
  "request_from_bencode msg =
     Option.bind (as_dict msg) (\<lambda>d.
       map_option (\<lambda>op.
         \<lparr>rq_op = op, rq_id = dict_str d ''id'', rq_session = dict_str d ''session'',
          rq_code = dict_str d ''code'', rq_ns = dict_str d ''ns'', rq_file = dict_str d ''file'',
          rq_file_name = dict_str d ''file-name'', rq_prefix = dict_str d ''prefix'',
          rq_sym = dict_str d ''sym'', rq_interrupt_id = dict_str d ''interrupt-id''\<rparr>)
       (dict_str d ''op''))"

type_synonym response = "(byte list \<times> bencode) list"

definition resp_field :: "string \<Rightarrow> bencode \<Rightarrow> response \<Rightarrow> response" where
  "resp_field key v r = dict_insert (utf8_bytes (lit key)) v r"

definition for_request :: "request \<Rightarrow> str \<Rightarrow> response" where
  "for_request req session =
     resp_field ''session'' (bencode_str session)
       (case rq_id req of Some i \<Rightarrow> resp_field ''id'' (bencode_str i) [] | None \<Rightarrow> [])"

definition str_field :: "string \<Rightarrow> str \<Rightarrow> response \<Rightarrow> response" where
  "str_field key s r = resp_field key (bencode_str s) r"

definition resp_status :: "string list \<Rightarrow> response \<Rightarrow> response" where
  "resp_status statuses r = resp_field ''status'' (BList (map (\<lambda>s. bencode_str (lit s)) statuses)) r"

definition build :: "response \<Rightarrow> bencode" where
  "build r = BDict r"

section \<open>Framing\<close>

text \<open>
  The inner loop of \<open>reader_task\<close>: dispatch every complete message of the buffer.  The
  result is the messages in order and the bytes left, or \<open>None\<close> for them when the
  connection is dropped.  Each message shortens the buffer, whose length is the fuel.
\<close>

fun drain :: "nat \<Rightarrow> byte list \<Rightarrow> bencode list \<times> byte list option" where
  "drain 0 buf = ([], Some buf)"
| "drain (Suc n) buf =
     (case decode buf of
        Some (Inr (Some (msg, consumed))) \<Rightarrow>
          (case drain n (drop consumed buf) of (msgs, rest) \<Rightarrow> (msg # msgs, rest))
      | Some (Inr None) \<Rightarrow> ([], Some buf)
      | _ \<Rightarrow> ([], None))"

definition drain_buffer :: "byte list \<Rightarrow> bencode list \<times> byte list option" where
  "drain_buffer buf = drain (length buf) buf"

text \<open>\<open>reader_task\<close> over the chunks it reads: the messages it dispatches, and the buffer.\<close>

fun reader_task :: "byte list \<Rightarrow> byte list list \<Rightarrow> bencode list \<times> byte list option" where
  "reader_task buf [] = drain_buffer buf"
| "reader_task buf (chunk # chunks) =
     (case drain_buffer buf of
        (msgs, None) \<Rightarrow> (msgs, None)
      | (msgs, Some rest) \<Rightarrow>
          (case reader_task (rest @ chunk) chunks of (msgs', r) \<Rightarrow> (msgs @ msgs', r)))"

text \<open>\<open>writer_task\<close>: the bytes of the messages it receives.\<close>

definition writer_task :: "bencode list \<Rightarrow> byte list" where
  "writer_task msgs = concat (map encode_to_vec msgs)"

section \<open>The state\<close>

type_synonym pending_key = "str \<times> str"

record job =
  jb_req :: request
  jb_conn :: nat
  jb_cancelled :: nat
  jb_key :: "pending_key option"

record 'v session =
  se_env :: "'v env"
  se_stars :: "'v list"

record 'v engine =
  en_globals :: "'v globals"
  en_sessions :: "(str \<times> 'v session) list"
  en_star_vars :: "nat list option"
  en_session_counter :: nat
  en_thread :: "'v thread"

text \<open>
  A job inside the loop of \<open>eval_code\<close>: its session, the guard of the frame that binds the
  star vars, the forms that are left and whether the loop was left by an interrupt.
\<close>

record run =
  rn_job :: job
  rn_sid :: str
  rn_guard :: "bool option"
  rn_forms :: "form list"

record 'v server =
  sv_pending :: "(pending_key \<times> nat) list"
  sv_flags :: "bool list"
  sv_queue :: "job list"
  sv_running :: "run option"
  sv_alive :: bool
  sv_engine :: "'v engine"
  sv_out :: "(nat \<times> bencode) list"

text \<open>
  The evaluator: a form is evaluated in an environment, the namespaces and the thread; \<open>None\<close>
  is a call that does not return.  The rest is what the ops read from values and errors.
\<close>

datatype value_class = Class_Macro | Class_Function | Class_Other

record ('v, 'err) host =
  ho_eval :: "form \<Rightarrow> 'v env \<Rightarrow> 'v globals \<Rightarrow> 'v thread \<Rightarrow>
    (('err + 'v) \<times> 'v env \<times> 'v globals \<times> 'v thread) option"
  ho_nil :: 'v
  ho_show :: "'v \<Rightarrow> str"
  ho_class :: "'v \<Rightarrow> value_class"
  ho_keyword :: "'v keyword_view"
  ho_as_str :: "'v \<Rightarrow> str option"
  ho_as_long :: "'v \<Rightarrow> i64 option"
  ho_meta_get :: "'v \<Rightarrow> string \<Rightarrow> 'v option"
  ho_error_message :: "'err \<Rightarrow> str"
  ho_error_value :: "'err \<Rightarrow> 'v"
  ho_read_message :: "cljx_error \<Rightarrow> str"
  ho_alnum :: "uchar \<Rightarrow> bool"
  ho_checked :: bool
  ho_version :: str

section \<open>The network side\<close>

definition send :: "nat \<Rightarrow> bencode \<Rightarrow> 'v server \<Rightarrow> 'v server" where
  "send conn m sv = sv\<lparr>sv_out := sv_out sv @ [(conn, m)]\<rparr>"

definition pending_insert :: "pending_key \<Rightarrow> nat \<Rightarrow> 'v server \<Rightarrow> 'v server" where
  "pending_insert key flag sv = sv\<lparr>sv_pending := AList.update key flag (sv_pending sv)\<rparr>"

definition pending_remove :: "pending_key \<Rightarrow> 'v server \<Rightarrow> 'v server" where
  "pending_remove key sv = sv\<lparr>sv_pending := AList.delete key (sv_pending sv)\<rparr>"

definition wanted :: "str \<Rightarrow> str option \<Rightarrow> pending_key \<Rightarrow> bool" where
  "wanted session i key \<longleftrightarrow> fst key = session \<and> (case i of None \<Rightarrow> True | Some want \<Rightarrow> want = snd key)"

definition pending_interrupt :: "str \<Rightarrow> str option \<Rightarrow> 'v server \<Rightarrow> bool \<times> 'v server" where
  "pending_interrupt session i sv =
     (let hits = filter (wanted session i \<circ> fst) (sv_pending sv)
      in (hits \<noteq> [], sv\<lparr>sv_flags := fold (\<lambda>(key, flag) fl. fl[flag := True]) hits (sv_flags sv)\<rparr>))"

text \<open>\<open>str::split\<close> on a character.\<close>

fun split_char :: "uchar \<Rightarrow> str \<Rightarrow> str list" where
  "split_char c [] = [[]]"
| "split_char c (x # xs) =
     (if x = c then [] # split_char c xs
      else case split_char c xs of p # ps \<Rightarrow> (x # p) # ps | [] \<Rightarrow> [[x]])"

definition version_part :: "str list \<Rightarrow> nat \<Rightarrow> bencode" where
  "version_part parts i =
     BInt (if i < length parts then (case parse_i64 (parts ! i) of Some n \<Rightarrow> n | None \<Rightarrow> 0) else 0)"

definition version_dict :: "str \<Rightarrow> bencode" where
  "version_dict s =
     build (str_field ''version-string'' s
       (fold (\<lambda>(i, key). resp_field key (version_part (split_char 46 s) i))
         [(0, ''major''), (1, ''minor''), (2, ''incremental'')] []))"

definition describe_ops :: "string list" where
  "describe_ops = [''clone'', ''close'', ''completions'', ''describe'', ''eval'', ''interrupt'', ''load-file'',
     ''lookup'', ''ls-sessions'']"

definition describe_response :: "str \<Rightarrow> request \<Rightarrow> bencode" where
  "describe_response version req =
     build (resp_status [''done'']
       (resp_field ''versions''
          (build (resp_field ''nrepl'' (version_dict (lit ''1.0.0''))
            (resp_field ''cljrs'' (version_dict version) [])))
         (resp_field ''ops'' (build (fold (\<lambda>op. resp_field op (BDict [])) describe_ops []))
           (for_request req (case rq_session req of Some s \<Rightarrow> s | None \<Rightarrow> lit ''none'')))))"

definition or_default :: "str option \<Rightarrow> str" where
  "or_default s = (case s of Some x \<Rightarrow> x | None \<Rightarrow> [])"

definition pending_key_of :: "request \<Rightarrow> pending_key option" where
  "pending_key_of req =
     (if rq_op req = lit ''eval'' \<or> rq_op req = lit ''load-file''
      then Option.bind (rq_session req) (\<lambda>s. map_option (Pair s) (rq_id req)) else None)"

definition enqueue :: "nat \<Rightarrow> request \<Rightarrow> 'v server \<Rightarrow> 'v server" where
  "enqueue conn req sv =
     (let cancelled = length (sv_flags sv);
          sv1 = sv\<lparr>sv_flags := sv_flags sv @ [False]\<rparr>;
          key = pending_key_of req;
          sv2 = (case key of Some k \<Rightarrow> pending_insert k cancelled sv1 | None \<Rightarrow> sv1);
          job = \<lparr>jb_req = req, jb_conn = conn, jb_cancelled = cancelled, jb_key = key\<rparr>
      in if sv_alive sv2 then sv2\<lparr>sv_queue := sv_queue sv2 @ [job]\<rparr> else sv2)"

definition dispatch :: "('v, 'err) host \<Rightarrow> nat \<Rightarrow> bencode \<Rightarrow> 'v server \<Rightarrow> 'v server" where
  "dispatch ho conn msg sv =
     (case request_from_bencode msg of
        None \<Rightarrow> sv
      | Some req \<Rightarrow>
          if rq_op req = lit ''describe'' then send conn (describe_response (ho_version ho) req) sv
          else if rq_op req = lit ''interrupt'' then
            (let session = or_default (rq_session req)
             in case pending_interrupt session (rq_interrupt_id req) sv of (hit, sv1) \<Rightarrow>
                  send conn
                    (build (resp_status (if hit then [''done''] else [''done'', ''session-idle''])
                      (for_request req session))) sv1)
          else enqueue conn req sv)"

section \<open>The interpreter side: sessions\<close>

definition session_new :: "('v, 'err) host \<Rightarrow> 'v session" where
  "session_new ho = \<lparr>se_env = env_new (lit ''user''), se_stars = [ho_nil ho, ho_nil ho, ho_nil ho, ho_nil ho]\<rparr>"

definition engine_new :: "'v globals \<Rightarrow> 'v thread \<Rightarrow> 'v engine" where
  "engine_new g th =
     (let star = (\<lambda>name. lookup_var_in_ns g (lit ''clojure.core'') (lit name))
      in \<lparr>en_globals = g, en_sessions = [],
          en_star_vars =
            (case (star ''*1'', star ''*2'', star ''*3'', star ''*e'') of
               (Some v1, Some v2, Some v3, Some ve) \<Rightarrow> Some [v1, v2, v3, ve]
             | _ \<Rightarrow> None),
          en_session_counter = 0, en_thread = th\<rparr>)"

definition state_ns :: str where
  "state_ns = lit ''cljrs.nrepl.session-state''"

definition star_slots :: "string list" where
  "star_slots = [''1'', ''2'', ''3'', ''e'']"

definition slot_name :: "str \<Rightarrow> string \<Rightarrow> str" where
  "slot_name sid slot = sid @ lit ''-'' @ lit slot"

definition ensure_session :: "('v, 'err) host \<Rightarrow> str option \<Rightarrow> 'v engine \<Rightarrow> str \<times> 'v engine" where
  "ensure_session ho s en =
     (let sid = (case s of Some x \<Rightarrow> x | None \<Rightarrow> lit ''default'')
      in if map_of (en_sessions en) sid = None
         then (sid, en\<lparr>en_sessions := AList.update sid (session_new ho) (en_sessions en)\<rparr>)
         else (sid, en))"

text \<open>The \<open>{:x}\<close> format.\<close>

definition hex_char :: "nat \<Rightarrow> uchar" where
  "hex_char d = (if d < 10 then 48 + d else 87 + d)"

fun hex_text :: "nat \<Rightarrow> str" where
  "hex_text n = (if n < 16 then [hex_char n] else hex_text (n div 16) @ [hex_char (n mod 16)])"

declare hex_text.simps [simp del]

text \<open>The clock is an argument: the microseconds it gives.\<close>

definition new_session_id :: "nat \<Rightarrow> 'v engine \<Rightarrow> str \<times> 'v engine" where
  "new_session_id micros en =
     (let en1 = en\<lparr>en_session_counter := en_session_counter en + 1\<rparr>
      in (lit ''session-'' @ hex_text micros @ lit ''-'' @ hex_text (en_session_counter en1), en1))"

type_synonym 'v op_result = "'v engine \<times> bencode list"

definition op_clone :: "('v, 'err) host \<Rightarrow> nat \<Rightarrow> request \<Rightarrow> 'v engine \<Rightarrow> 'v op_result" where
  "op_clone ho micros req en =
     (let source_ns = map_option (ev_current_ns \<circ> se_env)
            (Option.bind (rq_session req) (map_of (en_sessions en)))
      in case new_session_id micros en of (new_sid, en1) \<Rightarrow>
        let session = session_new ho;
            session' = (case source_ns of
                          Some n \<Rightarrow> session\<lparr>se_env := (se_env session)\<lparr>ev_current_ns := n\<rparr>\<rparr>
                        | None \<Rightarrow> session);
            en2 = en1\<lparr>en_sessions := AList.update new_sid session' (en_sessions en1)\<rparr>;
            sid = (case rq_session req of Some s \<Rightarrow> s | None \<Rightarrow> new_sid)
        in (en2, [build (resp_status [''done''] (str_field ''new-session'' new_sid (for_request req sid)))]))"

definition unintern :: "str \<Rightarrow> str \<Rightarrow> 'v globals \<Rightarrow> 'v globals" where
  "unintern n name g =
     (case find_ns g n of
        Some x \<Rightarrow> put_ns n (x\<lparr>ns_interns := AList.delete name (ns_interns x)\<rparr>) g
      | None \<Rightarrow> g)"

definition op_close :: "request \<Rightarrow> 'v engine \<Rightarrow> 'v op_result" where
  "op_close req en =
     (let sid = or_default (rq_session req);
          en1 = en\<lparr>en_sessions := AList.delete sid (en_sessions en),
                   en_globals := fold (\<lambda>slot. unintern state_ns (slot_name sid slot)) star_slots (en_globals en)\<rparr>
      in (en1, [build (resp_status [''done'', ''session-closed''] (for_request req sid))]))"

definition op_ls_sessions :: "request \<Rightarrow> 'v engine \<Rightarrow> 'v op_result" where
  "op_ls_sessions req en =
     (let sid = or_default (rq_session req)
      in (en, [build (resp_status [''done'']
           (resp_field ''sessions'' (BList (map (bencode_str \<circ> fst) (en_sessions en))) (for_request req sid)))]))"

definition op_unknown :: "('v, 'err) host \<Rightarrow> request \<Rightarrow> 'v engine \<Rightarrow> 'v op_result" where
  "op_unknown ho req en =
     (case ensure_session ho (rq_session req) en of (sid, en1) \<Rightarrow>
        (en1, [build (resp_status [''error'', ''unknown-op'', ''done'']
           (str_field ''op'' (rq_op req) (for_request req sid)))]))"

section \<open>The interpreter side: tooling\<close>

definition the_session :: "('v, 'err) host \<Rightarrow> str \<Rightarrow> 'v engine \<Rightarrow> 'v session" where
  "the_session ho sid en = (case map_of (en_sessions en) sid of Some s \<Rightarrow> s | None \<Rightarrow> session_new ho)"

definition context_ns :: "('v, 'err) host \<Rightarrow> request \<Rightarrow> str \<Rightarrow> 'v engine \<Rightarrow> str" where
  "context_ns ho req sid en =
     (case rq_ns req of
        Some n \<Rightarrow> if find_ns (en_globals en) n \<noteq> None then n
                  else ev_current_ns (se_env (the_session ho sid en))
      | None \<Rightarrow> ev_current_ns (se_env (the_session ho sid en)))"

definition var_kind :: "('v, 'err) host \<Rightarrow> 'v var \<Rightarrow> string" where
  "var_kind ho v =
     (if va_is_macro v then ''macro''
      else case va_value v of
             Some x \<Rightarrow> (case ho_class ho x of
                          Class_Macro \<Rightarrow> ''macro'' | Class_Function \<Rightarrow> ''function'' | Class_Other \<Rightarrow> ''var'')
           | None \<Rightarrow> ''var'')"

type_synonym completion = "str \<times> str \<times> str"

definition qualified_items :: "('v, 'err) host \<Rightarrow> 'v globals \<Rightarrow> str \<Rightarrow> str \<Rightarrow> str \<Rightarrow> completion list" where
  "qualified_items ho g context alias name_prefix =
     (let full = (case resolve_alias g context alias of Some n \<Rightarrow> n | None \<Rightarrow> alias)
      in case find_ns g full of
           Some x \<Rightarrow>
             map (\<lambda>(name, a). (alias @ lit ''/'' @ name, full, lit (var_kind ho (gl_vars g ! a))))
               (filter (\<lambda>(name, a). prefix name_prefix name) (ns_interns x))
         | None \<Rightarrow> [])"

definition plain_items :: "('v, 'err) host \<Rightarrow> 'v globals \<Rightarrow> str \<Rightarrow> str \<Rightarrow> completion list" where
  "plain_items ho g context p =
     (case find_ns g context of
        Some x \<Rightarrow>
          map (\<lambda>(name, a). (name, va_namespace (gl_vars g ! a), lit (var_kind ho (gl_vars g ! a))))
            (filter (\<lambda>(name, a). prefix p name) (ns_interns x @ ns_refers x))
      | None \<Rightarrow> []) @
     map (\<lambda>(n, x). (n, n, lit ''namespace''))
       (filter (\<lambda>(n, x). prefix p n \<and> n \<noteq> state_ns) (gl_namespaces g))"

definition completion_items :: "('v, 'err) host \<Rightarrow> 'v globals \<Rightarrow> str \<Rightarrow> str \<Rightarrow> completion list" where
  "completion_items ho g context p =
     remdups_adj (sort
       (case split_once 47 p of
          Some (alias, name_prefix) \<Rightarrow> qualified_items ho g context alias name_prefix
        | None \<Rightarrow> plain_items ho g context p))"

definition completion_dict :: "completion \<Rightarrow> bencode" where
  "completion_dict c =
     (case c of (candidate, n, kind) \<Rightarrow>
        build (str_field ''type'' kind (str_field ''ns'' n (str_field ''candidate'' candidate []))))"

definition op_completions :: "('v, 'err) host \<Rightarrow> request \<Rightarrow> 'v engine \<Rightarrow> 'v op_result" where
  "op_completions ho req en =
     (case ensure_session ho (rq_session req) en of (sid, en1) \<Rightarrow>
        let items = completion_items ho (en_globals en1) (context_ns ho req sid en1) (or_default (rq_prefix req))
        in (en1, [build (resp_status [''done'']
             (resp_field ''completions'' (BList (map completion_dict items)) (for_request req sid)))]))"

definition opt_field :: "string \<Rightarrow> bencode option \<Rightarrow> response \<Rightarrow> response" where
  "opt_field key v r = (case v of Some x \<Rightarrow> resp_field key x r | None \<Rightarrow> r)"

definition lookup_info :: "('v, 'err) host \<Rightarrow> 'v var \<Rightarrow> response" where
  "lookup_info ho v =
     (let named = str_field ''name'' (va_name v) (str_field ''ns'' (va_namespace v) [])
      in case va_meta v of
           None \<Rightarrow> named
         | Some meta \<Rightarrow>
             opt_field ''line'' (map_option BInt (Option.bind (ho_meta_get ho meta ''line'') (ho_as_long ho)))
               (opt_field ''file'' (map_option bencode_str (Option.bind (ho_meta_get ho meta ''file'') (ho_as_str ho)))
                 (opt_field ''arglists-str'' (map_option (bencode_str \<circ> ho_show ho) (ho_meta_get ho meta ''arglists''))
                   (opt_field ''doc'' (map_option bencode_str (Option.bind (ho_meta_get ho meta ''doc'') (ho_as_str ho)))
                     named))))"

definition op_lookup :: "('v, 'err) host \<Rightarrow> request \<Rightarrow> 'v engine \<Rightarrow> 'v op_result" where
  "op_lookup ho req en =
     (case ensure_session ho (rq_session req) en of (sid, en1) \<Rightarrow>
        let g = en_globals en1;
            context = context_ns ho req sid en1;
            sym = or_default (rq_sym req);
            var = (case split_once 47 sym of
                     Some (ns_part, name) \<Rightarrow>
                       lookup_var_in_ns g
                         (case resolve_alias g context ns_part of Some n \<Rightarrow> n | None \<Rightarrow> ns_part) name
                   | None \<Rightarrow> lookup_var_in_ns g context sym);
            info = (case var of Some a \<Rightarrow> lookup_info ho (gl_vars g ! a) | None \<Rightarrow> [])
        in (en1, [build (resp_status (if info = [] then [''done'', ''lookup-error''] else [''done''])
             (resp_field ''info'' (BDict info) (for_request req sid)))]))"

section \<open>The interpreter side: evaluation\<close>

definition put_session :: "str \<Rightarrow> 'v session \<Rightarrow> 'v engine \<Rightarrow> 'v engine" where
  "put_session sid s en = en\<lparr>en_sessions := AList.update sid s (en_sessions en)\<rparr>"

definition error_replies :: "request \<Rightarrow> str \<Rightarrow> str \<Rightarrow> bencode list" where
  "error_replies req sid msg =
     [build (str_field ''err'' (msg @ [10]) (for_request req sid)),
      build (resp_status [''eval-error''] (str_field ''ex'' msg (for_request req sid)))]"

definition honor_ns :: "'v globals \<Rightarrow> request \<Rightarrow> 'v session \<Rightarrow> 'v session" where
  "honor_ns g req s =
     (case rq_ns req of
        Some n \<Rightarrow> if find_ns g n \<noteq> None then s\<lparr>se_env := (se_env s)\<lparr>ev_current_ns := n\<rparr>\<rparr> else s
      | None \<Rightarrow> s)"

definition bind_stars :: "('v, 'err) host \<Rightarrow> 'v session \<Rightarrow> 'v engine \<Rightarrow> bool option \<times> 'v engine" where
  "bind_stars ho s en =
     (case en_star_vars en of
        None \<Rightarrow> (None, en)
      | Some vars \<Rightarrow>
          (case push_frame (ho_keyword ho) (gl_out_var (en_globals en))
                  (fold (\<lambda>(var, v). AList.update var v) (zip vars (se_stars s)) []) (en_thread en)
           of (guard, th) \<Rightarrow> (Some guard, en\<lparr>en_thread := th\<rparr>)))"

text \<open>
  The head of \<open>eval_code\<close>, up to its loop: the job is finished by a read error, its loop
  starts, or the thread panics in the reader.
\<close>

datatype begun = Finished | Started run | Crashed

definition begin_eval ::
  "('v, 'err) host \<Rightarrow> job \<Rightarrow> str \<Rightarrow> str \<Rightarrow> 'v engine \<Rightarrow> 'v engine \<times> bencode list \<times> begun" where
  "begin_eval ho j code filename en =
     (case ensure_session ho (rq_session (jb_req j)) en of (sid, en1) \<Rightarrow>
        let session = honor_ns (en_globals en1) (jb_req j) (the_session ho sid en1);
            en2 = put_session sid session en1
        in case read_all (parser_new (ho_alnum ho) (ho_checked ho) code filename) of
             Some (Ok forms, p) \<Rightarrow>
               (case bind_stars ho session en2 of (guard, en3) \<Rightarrow>
                  (en3, [], Started \<lparr>rn_job = j, rn_sid = sid, rn_guard = guard, rn_forms = forms\<rparr>))
           | Some (Err e, p) \<Rightarrow>
               (en2, error_replies (jb_req j) sid (ho_read_message ho e) @
                 [build (resp_status [''done''] (for_request (jb_req j) sid))], Finished)
           | _ \<Rightarrow> (en2, [], Crashed))"

definition op_eval :: "('v, 'err) host \<Rightarrow> job \<Rightarrow> 'v engine \<Rightarrow> 'v engine \<times> bencode list \<times> begun" where
  "op_eval ho j en =
     (case rq_code (jb_req j) of
        None \<Rightarrow>
          (case ensure_session ho (rq_session (jb_req j)) en of (sid, en1) \<Rightarrow>
             (en1, [build (resp_status [''error'', ''no-code'', ''done''] (for_request (jb_req j) sid))], Finished))
      | Some code \<Rightarrow> begin_eval ho j code (lit ''<nrepl>'') en)"

definition op_load_file :: "('v, 'err) host \<Rightarrow> job \<Rightarrow> 'v engine \<Rightarrow> 'v engine \<times> bencode list \<times> begun" where
  "op_load_file ho j en =
     (case rq_file (jb_req j) of
        None \<Rightarrow>
          (case ensure_session ho (rq_session (jb_req j)) en of (sid, en1) \<Rightarrow>
             (en1, [build (resp_status [''error'', ''no-file'', ''done''] (for_request (jb_req j) sid))], Finished))
      | Some file \<Rightarrow>
          begin_eval ho j file (case rq_file_name (jb_req j) of Some f \<Rightarrow> f | None \<Rightarrow> lit ''<load-file>'') en)"

definition finished :: "'v op_result \<Rightarrow> 'v engine \<times> bencode list \<times> begun" where
  "finished r = (fst r, snd r, Finished)"

text \<open>The dispatch of \<open>handle\<close> on the op.\<close>

definition handle_op :: "('v, 'err) host \<Rightarrow> nat \<Rightarrow> job \<Rightarrow> 'v engine \<Rightarrow> 'v engine \<times> bencode list \<times> begun" where
  "handle_op ho micros j en =
     (let req = jb_req j; op = rq_op req
      in if op = lit ''clone'' then finished (op_clone ho micros req en)
         else if op = lit ''close'' then finished (op_close req en)
         else if op = lit ''ls-sessions'' then finished (op_ls_sessions req en)
         else if op = lit ''eval'' then op_eval ho j en
         else if op = lit ''load-file'' then op_load_file ho j en
         else if op = lit ''completions'' then finished (op_completions ho req en)
         else if op = lit ''lookup'' then finished (op_lookup ho req en)
         else finished (op_unknown ho req en))"

definition send_all :: "nat \<Rightarrow> bencode list \<Rightarrow> 'v server \<Rightarrow> 'v server" where
  "send_all conn ms sv = fold (send conn) ms sv"

text \<open>The end of \<open>handle\<close>: the registry entry of the job is cleared.\<close>

definition finish_job :: "job \<Rightarrow> 'v server \<Rightarrow> 'v server" where
  "finish_job j sv = (case jb_key j of Some k \<Rightarrow> pending_remove k sv | None \<Rightarrow> sv)\<lparr>sv_running := None\<rparr>"

definition start_job :: "('v, 'err) host \<Rightarrow> nat \<Rightarrow> job \<Rightarrow> 'v server \<Rightarrow> 'v server" where
  "start_job ho micros j sv =
     (if sv_flags sv ! jb_cancelled j then
        finish_job j (send (jb_conn j)
          (build (resp_status [''done'', ''interrupted'']
            (for_request (jb_req j) (or_default (rq_session (jb_req j)))))) sv)
      else
        case handle_op ho micros j (sv_engine sv) of (en, replies, b) \<Rightarrow>
          let sv1 = send_all (jb_conn j) replies (sv\<lparr>sv_engine := en\<rparr>)
          in case b of
               Finished \<Rightarrow> finish_job j sv1
             | Started r \<Rightarrow> sv1\<lparr>sv_running := Some r\<rparr>
             | Crashed \<Rightarrow> sv1\<lparr>sv_alive := False\<rparr>)"

definition shift_stars :: "'v \<Rightarrow> 'v session \<Rightarrow> 'v session" where
  "shift_stars v s = s\<lparr>se_stars := (se_stars s)[2 := se_stars s ! 1, 1 := se_stars s ! 0, 0 := v]\<rparr>"

definition set_star_vars :: "(nat \<times> 'v) list \<Rightarrow> 'v engine \<Rightarrow> 'v engine" where
  "set_star_vars vs en = en\<lparr>en_thread := fold (\<lambda>(var, v) th. snd (set_thread_local var v th)) vs (en_thread en)\<rparr>"

definition star_bindings :: "'v session \<Rightarrow> 'v engine \<Rightarrow> (nat \<times> 'v) list" where
  "star_bindings s en = (case en_star_vars en of Some vars \<Rightarrow> zip vars (se_stars s) | None \<Rightarrow> [])"

text \<open>
  The body of the loop of \<open>eval_code\<close> for one form: the engine after it, the messages sent,
  and whether the loop goes on.  \<open>None\<close>: the evaluator does not return.
\<close>

definition eval_one :: "('v, 'err) host \<Rightarrow> run \<Rightarrow> form \<Rightarrow> 'v engine \<Rightarrow> ('v engine \<times> bencode list \<times> bool) option" where
  "eval_one ho r form en =
     (let sid = rn_sid r; req = jb_req (rn_job r); s = the_session ho sid en
      in case ho_eval ho form (se_env s) (en_globals en) (push_capture (en_thread en)) of
           None \<Rightarrow> None
         | Some (result, env, g, th) \<Rightarrow>
             (case pop_capture th of (captured, th1) \<Rightarrow>
                let out = or_default captured;
                    outs = (if out \<noteq> [] then [build (str_field ''out'' out (for_request req sid))] else []);
                    en1 = en\<lparr>en_globals := g, en_thread := th1\<rparr>;
                    s1 = s\<lparr>se_env := env\<rparr>
                in case result of
                     Inr v \<Rightarrow>
                       let s2 = shift_stars v s1
                       in Some (set_star_vars (take 3 (star_bindings s2 en1)) (put_session sid s2 en1),
                            outs @ [build (str_field ''ns'' (ev_current_ns env)
                              (str_field ''value'' (ho_show ho v) (for_request req sid)))], True)
                   | Inl e \<Rightarrow>
                       let s2 = s1\<lparr>se_stars := (se_stars s1)[3 := ho_error_value ho e]\<rparr>
                       in Some (set_star_vars (drop 3 (star_bindings s2 en1)) (put_session sid s2 en1),
                            outs @ error_replies req sid (ho_error_message ho e), False)))"

text \<open>The end of \<open>eval_code\<close>: the frame is dropped and the retained values are interned.\<close>

definition persist_stars :: "str \<Rightarrow> 'v session \<Rightarrow> 'v globals \<Rightarrow> 'v globals" where
  "persist_stars sid s g =
     fold (\<lambda>(slot, v) g. snd (intern state_ns (slot_name sid slot) v g)) (zip star_slots (se_stars s)) g"

definition finish_eval :: "('v, 'err) host \<Rightarrow> run \<Rightarrow> bool \<Rightarrow> 'v server \<Rightarrow> 'v server" where
  "finish_eval ho r interrupted sv =
     (let en = sv_engine sv; j = rn_job r;
          th = (case rn_guard r of Some guard \<Rightarrow> drop_guard guard (en_thread en) | None \<Rightarrow> en_thread en);
          g = persist_stars (rn_sid r) (the_session ho (rn_sid r) en) (en_globals en)
      in finish_job j (send (jb_conn j)
           (build (resp_status (if interrupted then [''done'', ''interrupted''] else [''done''])
             (for_request (jb_req j) (rn_sid r)))) (sv\<lparr>sv_engine := en\<lparr>en_thread := th, en_globals := g\<rparr>\<rparr>)))"

text \<open>One turn of the loop of \<open>eval_code\<close>, or its end.\<close>

definition eval_step :: "('v, 'err) host \<Rightarrow> run \<Rightarrow> 'v server \<Rightarrow> 'v server option" where
  "eval_step ho r sv =
     (case rn_forms r of
        [] \<Rightarrow> Some (finish_eval ho r False sv)
      | form # forms \<Rightarrow>
          if sv_flags sv ! jb_cancelled (rn_job r) then Some (finish_eval ho r True sv)
          else map_option (\<lambda>(en, replies, go_on).
                 send_all (jb_conn (rn_job r)) replies
                   (sv\<lparr>sv_engine := en, sv_running := Some (r\<lparr>rn_forms := (if go_on then forms else [])\<rparr>)\<rparr>))
               (eval_one ho r form (sv_engine sv)))"

section \<open>The two threads\<close>

text \<open>A step of the interpreter thread, \<open>serve_with\<close>; the clock and the host are given.\<close>

inductive interp_step :: "('v, 'err) host \<Rightarrow> 'v server \<Rightarrow> 'v server \<Rightarrow> bool" where
  take_job: "sv_alive sv \<Longrightarrow> sv_running sv = None \<Longrightarrow> sv_queue sv = j # js \<Longrightarrow>
     interp_step ho sv (start_job ho micros j (sv\<lparr>sv_queue := js\<rparr>))"
| eval_form: "sv_alive sv \<Longrightarrow> sv_running sv = Some r \<Longrightarrow> eval_step ho r sv = Some sv' \<Longrightarrow> interp_step ho sv sv'"

definition server_new :: "'v globals \<Rightarrow> 'v thread \<Rightarrow> 'v server" where
  "server_new g th =
     \<lparr>sv_pending = [], sv_flags = [], sv_queue = [], sv_running = None, sv_alive = True,
      sv_engine = engine_new g th, sv_out = []\<rparr>"

text \<open>The states the server reaches, with the messages received so far and their connections.\<close>

inductive reaches :: "('v, 'err) host \<Rightarrow> 'v server \<Rightarrow> (nat \<times> bencode) list \<Rightarrow> bool" where
  init: "reaches ho (server_new g th) []"
| receive: "reaches ho sv recvd \<Longrightarrow> reaches ho (dispatch ho conn msg sv) (recvd @ [(conn, msg)])"
| interpreted: "reaches ho sv recvd \<Longrightarrow> interp_step ho sv sv' \<Longrightarrow> reaches ho sv' recvd"

end
