(* ===== verification/Parser_Spec.thy ===== *)
theory Parser_Spec
  imports Parser
begin

text \<open>
  What the parser promises: it always returns, it panics only where the lexer does, its
  errors are located in the source, and the forms it builds are well formed: maps and
  reader conditionals have the number of children they must have, and the spans of the
  children lie in order and without overlap inside the span of their parent.
\<close>

section \<open>Reasoning about parsing methods\<close>

text \<open>
  \<open>runs b m Q E\<close>: the method's result \<open>m\<close> satisfies \<open>Q\<close> when it is a value and \<open>E\<close> when it
  is an error (\<open>Some e\<close>) or a panic (\<open>None\<close>); out of fuel counts as \<open>b\<close>.
\<close>

definition runs ::
  "bool \<Rightarrow> 'a pres \<Rightarrow> ('a \<Rightarrow> parser \<Rightarrow> bool) \<Rightarrow> (cljx_error option \<Rightarrow> parser \<Rightarrow> bool) \<Rightarrow> bool" where
  "runs b m Q E =
     (case m of
        None \<Rightarrow> b
      | Some (r, p) \<Rightarrow>
          (case r of Ok a \<Rightarrow> Q a p | Err e \<Rightarrow> E (Some e) p | Panic \<Rightarrow> E None p))"

lemma runs_simps [simp]:
  "runs b None Q E = b" "runs b (pok a p) Q E = Q a p" "runs b (Some (Err e, p)) Q E = E (Some e) p"
  "runs b (Some (Panic, p)) Q E = E None p"
  by (simp_all add: runs_def)

lemma runs_pbind [simp]:
  "runs b (pbind m f) Q E = runs b m (\<lambda>a p. runs b (f a p) Q E) E"
  by (auto simp: runs_def pbind_def split: option.split prod.split outcome.split)

lemma runs_mono:
  "runs b m Q E \<Longrightarrow> (\<And>a p. Q a p \<Longrightarrow> Q' a p) \<Longrightarrow> (\<And>e p. E e p \<Longrightarrow> E' e p) \<Longrightarrow> runs b m Q' E'"
  by (auto simp: runs_def split: option.splits prod.splits outcome.splits)

lemma runs_total: "runs False m Q E \<Longrightarrow> \<exists>r p. m = Some (r, p)"
  by (auto simp: runs_def split: option.splits)

section \<open>The invariant of the parser\<close>

text \<open>A source: the alphanumeric table, the build profile, the text and the file name.\<close>

type_synonym source_env = "(uchar \<Rightarrow> bool) \<times> bool \<times> str \<times> str"

definition env_reach :: "source_env \<Rightarrow> lexer \<Rightarrow> bool" where
  "env_reach g l = (case g of (alnum, checked, src, f) \<Rightarrow> lexer_reach alnum checked src f l)"

definition env_src :: "source_env \<Rightarrow> str" where
  "env_src g = (case g of (_, _, src, _) \<Rightarrow> src)"

definition env_file :: "source_env \<Rightarrow> str" where
  "env_file g = (case g of (_, _, _, f) \<Rightarrow> f)"

text \<open>A span inside the source; that of a token or form is not empty.\<close>

definition span_in :: "source_env \<Rightarrow> span \<Rightarrow> bool" where
  "span_in g sp \<longleftrightarrow>
     sp_file sp = env_file g \<and> sp_start sp \<le> sp_end sp \<and> sp_end sp \<le> utf8_len (env_src g)"

definition peeked_ok :: "source_env \<Rightarrow> lexer \<Rightarrow> token \<times> span \<Rightarrow> bool" where
  "peeked_ok g l ts \<longleftrightarrow>
     (case ts of (t, sp) \<Rightarrow>
        (t = Tok_Eof \<and> lx_rest l = [] \<or> content_token t \<and> sp_start sp < sp_end sp) \<and>
        span_in g sp \<and> sp_end sp = lx_pos l)"

definition pinv :: "source_env \<Rightarrow> parser \<Rightarrow> bool" where
  "pinv g p \<longleftrightarrow> env_reach g (pr_lexer p) \<and>
     (\<forall>ts. pr_peeked p = Some ts \<longrightarrow> peeked_ok g (pr_lexer p) ts)"

text \<open>The offset from which on the parser's next tokens lie.\<close>

definition ppos :: "parser \<Rightarrow> nat" where
  "ppos p = (case pr_peeked p of Some (_, sp) \<Rightarrow> sp_start sp | None \<Rightarrow> lx_pos (pr_lexer p))"

text \<open>
  How a method may fail: with a \<open>ReadError\<close> that carries the source and its name and is
  labelled inside the source, or with a panic of the lexer; either way the invariant
  holds and less than \<open>N\<close> is left to read.
\<close>

definition located :: "source_env \<Rightarrow> cljx_error \<Rightarrow> bool" where
  "located g e \<longleftrightarrow>
     (case e of ReadError _ (off, len) f s \<Rightarrow>
        f = env_file g \<and> s = env_src g \<and> off + len \<le> utf8_len s)"

definition pfail :: "source_env \<Rightarrow> nat \<Rightarrow> cljx_error option \<Rightarrow> parser \<Rightarrow> bool" where
  "pfail g N e p \<longleftrightarrow> pinv g p \<and> psize p < N \<and>
     (case e of
        Some e \<Rightarrow> located g e
      | None \<Rightarrow> \<exists>l. env_reach g l \<and> fst (next_token l) = Panic)"

lemma env_reach_next: "env_reach g l \<Longrightarrow> next_token l = (r, l') \<Longrightarrow> env_reach g l'"
  by (auto simp: env_reach_def split: prod.splits dest: reach_next)

lemma lexer_reach_file: "lexer_reach alnum checked src f l \<Longrightarrow> lx_file l = f"
proof (induction rule: lexer_reach.induct)
  case (reach_next l)
  obtain e where "moved False e l (snd (next_token l))"
    using next_token_moved [OF prod.collapse [symmetric]] by blast
  with reach_next show ?case by (simp add: moved_def)
qed (simp add: lexer_new_def)

lemma env_reach_facts:
  assumes "env_reach g l"
  shows "lx_source l = env_src g" "lx_file l = env_file g" "lx_pos l \<le> utf8_len (env_src g)"
proof -
  obtain alnum checked src f where g: "g = (alnum, checked, src, f)" by (cases g)
  with assms have r: "lexer_reach alnum checked src f l" by (simp add: env_reach_def)
  from lexer_reach_at [OF r] lexer_reach_file [OF r] g
  show "lx_source l = env_src g" "lx_file l = env_file g" "lx_pos l \<le> utf8_len (env_src g)"
    by (auto simp: lex_at_def env_src_def env_file_def)
qed

text \<open>What a call of \<open>next_token\<close> gives the parser.\<close>

lemma next_token_parser:
  assumes l: "env_reach g l" and n: "next_token l = (r, l')"
  shows "case r of
      Ok (t, sp) \<Rightarrow> peeked_ok g l' (t, sp) \<and> lx_pos l \<le> sp_start sp \<and>
        length (lx_rest l') + (if t = Tok_Eof then 0 else 1) \<le> length (lx_rest l)
    | Err e \<Rightarrow> located g e \<and> length (lx_rest l') < length (lx_rest l)
    | Panic \<Rightarrow> length (lx_rest l') < length (lx_rest l)"
  using n
proof (cases rule: next_token_cases)
  case (eof s)
  with env_reach_facts [OF env_reach_next [OF l n]] show ?thesis
    by (auto simp: peeked_ok_def span_in_def moved_def)
next
  case (tok s m d c)
  from tok(4) have d: "0 < utf8_len d" "0 < length d" by (auto simp: neq0_conv [symmetric])
  note facts = env_reach_facts [OF env_reach_next [OF l n]]
  from tok(1,5) have mv: "lx_rest l = s @ d @ lx_rest l'" "lx_pos m = lx_pos l + utf8_len s"
    "lx_pos l' = lx_pos m + utf8_len d"
    by (auto simp: moved_def)
  from tok(6) facts d mv show ?thesis
    by (cases r)
      (auto simp: well_lexed_def peeked_ok_def span_in_def make_error_def located_def
        source_span_def span_len_def Suc_le_eq dest: content_token_not_Eof)
qed

lemma fill_runs:
  assumes p: "pinv g p" and N: "psize p \<le> N"
    and Q: "\<And>p' ts. pinv g p' \<Longrightarrow> pr_peeked p' = Some ts \<Longrightarrow> ppos p \<le> ppos p' \<Longrightarrow>
              psize p' \<le> psize p \<Longrightarrow> Q () p'"
  shows "runs b (fill p) Q (pfail g N)"
proof (cases "pr_peeked p")
  case (Some ts)
  with p Q show ?thesis by (simp add: fill_def)
next
  case None
  obtain r l' where n: "next_token (pr_lexer p) = (r, l')" by fastforce
  from p have reach: "env_reach g (pr_lexer p)" by (simp add: pinv_def)
  note reach' = env_reach_next [OF reach n]
  note facts = next_token_parser [OF reach n]
  from None N have len: "psize p = length (lx_rest (pr_lexer p))" "psize p \<le> N"
    by (simp_all add: psize_def)
  show ?thesis
  proof (cases r)
    case (Ok ts)
    with facts show ?thesis
      by (cases ts) (auto simp: fill_def None n pinv_def reach' ppos_def psize_def intro!: Q)
  next
    case (Err e)
    with facts len show ?thesis
      by (simp add: fill_def None n pfail_def pinv_def reach' psize_def)
  next
    case Panic
    with facts len reach n show ?thesis
      by (auto simp: fill_def None n pfail_def pinv_def reach' psize_def)
  qed
qed

lemma peek_tok_runs:
  assumes p: "pinv g p" and N: "psize p \<le> N"
    and Q: "\<And>p' t sp. pinv g p' \<Longrightarrow> pr_peeked p' = Some (t, sp) \<Longrightarrow> ppos p \<le> sp_start sp \<Longrightarrow>
              psize p' \<le> psize p \<Longrightarrow> Q t p'"
  shows "runs b (peek_tok p) Q (pfail g N)"
  unfolding peek_tok_def runs_pbind
proof (rule fill_runs [OF p N])
  fix p' ts
  assume "pinv g p'" "pr_peeked p' = Some ts" "ppos p \<le> ppos p'" "psize p' \<le> psize p"
  then show "runs b (case pr_peeked p' of None \<Rightarrow> Some (Panic, p') | Some (t, _) \<Rightarrow> pok t p') Q (pfail g N)"
    by (cases ts) (auto simp: ppos_def intro: Q)
qed

lemma lookahead [simp]:
  assumes "pr_peeked p = Some (t, sp)"
  shows "peek_tok p = pok t p" "peek_span p = pok sp p" "bump p = pok (t, sp) (p\<lparr>pr_peeked := None\<rparr>)"
  using assms by (simp_all add: peek_tok_def peek_span_def bump_def fill_def pbind_def)

lemma bump_state:
  assumes "pinv g p" "pr_peeked p = Some (t, sp)"
  shows "pinv g (p\<lparr>pr_peeked := None\<rparr>)" "ppos (p\<lparr>pr_peeked := None\<rparr>) = sp_end sp" "span_in g sp"
    "t \<noteq> Tok_Eof \<Longrightarrow> psize p = Suc (psize (p\<lparr>pr_peeked := None\<rparr>))"
    "t \<noteq> Tok_Eof \<Longrightarrow> sp_start sp < sp_end sp" "t \<noteq> Tok_Eof \<Longrightarrow> content_token t" "ppos p = sp_start sp"
    "t = Tok_Eof \<Longrightarrow> psize p = 0"
  using assms by (auto simp: pinv_def peeked_ok_def ppos_def psize_def)

lemma perr_runs:
  "pinv g p \<Longrightarrow> psize p < N \<Longrightarrow> span_in g sp \<Longrightarrow> runs b (perr msg sp p) Q (pfail g N)"
  by (auto simp: perr_def pfail_def located_def source_span_def span_len_def span_in_def pinv_def
      env_reach_facts)

section \<open>Well-formed forms\<close>

fun children :: "form_kind \<Rightarrow> form list" where
  "children (FK_List fs) = fs"
| "children (FK_Vector fs) = fs"
| "children (FK_Map fs) = fs"
| "children (FK_Set fs) = fs"
| "children (FK_AnonFn fs) = fs"
| "children (FK_Quote f) = [f]"
| "children (FK_SyntaxQuote f) = [f]"
| "children (FK_Unquote f) = [f]"
| "children (FK_UnquoteSplice f) = [f]"
| "children (FK_Deref f) = [f]"
| "children (FK_Var f) = [f]"
| "children (FK_Meta m t) = [m, t]"
| "children (FK_TaggedLiteral tag f) = [f]"
| "children (FK_ReaderCond splicing fs) = fs"
| "children _ = []"

lemma children_size: "c \<in> set (children k) \<Longrightarrow> size c < size k"
  by (cases k) (auto simp: less_Suc_eq_le dest: size_list_estimation' [where f = size])

text \<open>The number of children: maps even unless a splice is among them, conditionals even.\<close>

fun arity_ok :: "form_kind \<Rightarrow> bool" where
  "arity_ok (FK_Map fs) = (list_ex is_splice fs \<or> even (length fs))"
| "arity_ok (FK_ReaderCond splicing fs) = even (length fs)"
| "arity_ok _ = True"

text \<open>Non-empty spans in ascending order without overlap, from \<open>lo\<close> to \<open>hi\<close>.\<close>

fun chain :: "nat \<Rightarrow> nat \<Rightarrow> form list \<Rightarrow> bool" where
  "chain lo hi [] = (lo \<le> hi)"
| "chain lo hi (f # fs) =
     (lo \<le> sp_start (fm_span f) \<and> sp_start (fm_span f) < sp_end (fm_span f) \<and>
      chain (sp_end (fm_span f)) hi fs)"

function wf_form :: "source_env \<Rightarrow> form \<Rightarrow> bool" where
  "wf_form g (Form k sp) =
     (arity_ok k \<and> span_in g sp \<and> sp_start sp < sp_end sp \<and>
      chain (sp_start sp) (sp_end sp) (children k) \<and> (\<forall>c \<in> set (children k). wf_form g c))"
  by pat_completeness auto

termination
  by (relation "measure (\<lambda>(g, f). size f)") (auto dest: children_size)

lemma chain_mono: "chain lo hi fs \<Longrightarrow> hi \<le> hi' \<Longrightarrow> chain lo hi' fs"
  by (induction fs arbitrary: lo) auto

lemma chain_lower: "chain lo hi fs \<Longrightarrow> lo' \<le> lo \<Longrightarrow> chain lo' hi fs"
  by (cases fs) auto

lemma chain_le: "chain lo hi fs \<Longrightarrow> lo \<le> hi"
  by (induction fs arbitrary: lo) fastforce+

lemma chain_snoc:
  "chain lo hi (fs @ [f]) \<longleftrightarrow>
     chain lo (sp_start (fm_span f)) fs \<and> sp_start (fm_span f) < sp_end (fm_span f) \<and>
     sp_end (fm_span f) \<le> hi"
  by (induction fs arbitrary: lo) auto

lemma merged_span_simps [simp]:
  "sp_start (merged_span s e) = sp_start s" "sp_end (merged_span s e) = sp_end e"
  "sp_file (merged_span s e) = sp_file s"
  by (simp_all add: merged_span_def span_new_def)

lemma span_in_merged: "span_in g s \<Longrightarrow> span_in g e \<Longrightarrow> sp_start s \<le> sp_end e \<Longrightarrow> span_in g (merged_span s e)"
  by (simp add: span_in_def)

lemma wf_form_span: "wf_form g f \<Longrightarrow> span_in g (fm_span f) \<and> sp_start (fm_span f) < sp_end (fm_span f)"
  by (cases f) simp

section \<open>The specification of the mutual recursion\<close>

definition raw_post :: "source_env \<Rightarrow> parser \<Rightarrow> form option \<Rightarrow> parser \<Rightarrow> bool" where
  "raw_post g p r p' \<longleftrightarrow> pinv g p' \<and> psize p' < psize p \<and> ppos p \<le> ppos p' \<and>
     (\<forall>f. r = Some f \<longrightarrow> wf_form g f \<and> ppos p \<le> sp_start (fm_span f) \<and> sp_end (fm_span f) \<le> ppos p')"

definition raw_spec :: "source_env \<Rightarrow> nat \<Rightarrow> bool" where
  "raw_spec g n \<longleftrightarrow> (\<forall>p t sp N. pinv g p \<longrightarrow> pr_peeked p = Some (t, sp) \<longrightarrow> t \<noteq> Tok_Eof \<longrightarrow>
     psize p \<le> N \<longrightarrow> 2 * psize p + 1 \<le> n \<longrightarrow> runs False (parse_raw n p) (raw_post g p) (pfail g N))"

definition seq_post :: "source_env \<Rightarrow> nat \<Rightarrow> parser \<Rightarrow> form list \<times> span \<Rightarrow> parser \<Rightarrow> bool" where
  "seq_post g lo p r p' \<longleftrightarrow> pinv g p' \<and> psize p' \<le> psize p \<and> span_in g (snd r) \<and>
     sp_start (snd r) < sp_end (snd r) \<and> sp_end (snd r) \<le> ppos p' \<and>
     chain lo (sp_start (snd r)) (fst r) \<and> (\<forall>f \<in> set (fst r). wf_form g f)"

definition seq_spec :: "source_env \<Rightarrow> nat \<Rightarrow> bool" where
  "seq_spec g n \<longleftrightarrow> (\<forall>closing osp name forms p lo N. pinv g p \<longrightarrow> span_in g osp \<longrightarrow>
     psize p < N \<longrightarrow> 2 * psize p + 2 \<le> n \<longrightarrow> closing \<noteq> Tok_Eof \<longrightarrow> chain lo (ppos p) forms \<longrightarrow>
     (\<forall>f \<in> set forms. wf_form g f) \<longrightarrow>
     runs False (parse_seq_forms n closing osp name forms p) (seq_post g lo p) (pfail g N))"

definition form_post :: "source_env \<Rightarrow> parser \<Rightarrow> form \<Rightarrow> parser \<Rightarrow> bool" where
  "form_post g p f p' \<longleftrightarrow> pinv g p' \<and> psize p' \<le> psize p \<and> wf_form g f \<and>
     ppos p \<le> sp_start (fm_span f) \<and> sp_end (fm_span f) \<le> ppos p'"

definition req_spec :: "source_env \<Rightarrow> nat \<Rightarrow> bool" where
  "req_spec g n \<longleftrightarrow> (\<forall>osp what p N. pinv g p \<longrightarrow> span_in g osp \<longrightarrow> psize p < N \<longrightarrow>
     2 * psize p + 2 \<le> n \<longrightarrow> runs False (require_form n osp what p) (form_post g p) (pfail g N))"

definition cond_post :: "source_env \<Rightarrow> span \<Rightarrow> parser \<Rightarrow> form \<Rightarrow> parser \<Rightarrow> bool" where
  "cond_post g start p f p' \<longleftrightarrow> pinv g p' \<and> psize p' \<le> psize p \<and> wf_form g f \<and>
     sp_start (fm_span f) = sp_start start \<and> sp_end (fm_span f) \<le> ppos p'"

definition cond_spec :: "source_env \<Rightarrow> nat \<Rightarrow> bool" where
  "cond_spec g n \<longleftrightarrow> (\<forall>splicing start p N. pinv g p \<longrightarrow> span_in g start \<longrightarrow>
     sp_end start \<le> ppos p \<longrightarrow> psize p < N \<longrightarrow> 2 * psize p + 2 \<le> n \<longrightarrow>
     runs False (parse_reader_cond n splicing start p) (cond_post g start p) (pfail g N))"

lemma pfail_mono: "pfail g N e p \<Longrightarrow> N \<le> M \<Longrightarrow> pfail g M e p"
  by (auto simp: pfail_def)

lemma seq_step:
  assumes raw: "raw_spec g n" and seq: "seq_spec g n"
  shows "seq_spec g (Suc n)"
  unfolding seq_spec_def
proof (intro allI impI)
  fix closing osp name forms p lo N
  assume p: "pinv g p" "span_in g osp" "psize p < N" "2 * psize p + 2 \<le> Suc n"
    and closing: "closing \<noteq> Tok_Eof"
    and forms: "chain lo (ppos p) forms" "\<forall>f \<in> set forms. wf_form g f"
  show "runs False (parse_seq_forms (Suc n) closing osp name forms p) (seq_post g lo p) (pfail g N)"
    unfolding parse_seq_forms.simps runs_pbind
  proof (rule peek_tok_runs [OF p(1) less_imp_le [OF p(3)]])
    fix p1 t sp
    assume p1: "pinv g p1" "pr_peeked p1 = Some (t, sp)" "ppos p \<le> sp_start sp" "psize p1 \<le> psize p"
    note b = bump_state [OF p1(1,2)]
    from forms(1) p1(3) have ch: "chain lo (sp_start sp) forms" by (rule chain_mono)
    consider "t = Tok_Eof" | "t = closing" "t \<noteq> Tok_Eof" | "t \<noteq> closing" "t \<noteq> Tok_Eof" by blast
    then show "runs False
        (if t = Tok_Eof then perr (Unclosed name) osp p1
         else if t = closing then pbind (bump p1) (\<lambda>(_, close_span) p. pok (forms, close_span) p)
         else pbind (parse_raw n p1) (\<lambda>r p. case r of
                Some form \<Rightarrow> parse_seq_forms n closing osp name (forms @ [form]) p
              | None \<Rightarrow> parse_seq_forms n closing osp name forms p)) (seq_post g lo p) (pfail g N)"
    proof cases
      case 1
      with p p1 show ?thesis by (simp add: perr_runs)
    next
      case 2
      with p1 b ch forms(2) show ?thesis by (simp add: seq_post_def)
    next
      case 3
      from p p1 3 raw have r: "runs False (parse_raw n p1) (raw_post g p1) (pfail g N)"
        by (auto simp: raw_spec_def)
      have "runs False (parse_raw n p1) (\<lambda>r p2. runs False (case r of
                Some form \<Rightarrow> parse_seq_forms n closing osp name (forms @ [form]) p2
              | None \<Rightarrow> parse_seq_forms n closing osp name forms p2) (seq_post g lo p) (pfail g N)) (pfail g N)"
      proof (rule runs_mono [OF r])
        fix r p2
        assume r: "raw_post g p1 r p2"
        then have ch': "chain lo (ppos p2) (case r of Some f \<Rightarrow> forms @ [f] | None \<Rightarrow> forms)"
          "\<forall>f \<in> set (case r of Some f \<Rightarrow> forms @ [f] | None \<Rightarrow> forms). wf_form g f"
          using ch b(7) forms(2)
          by (auto simp: raw_post_def chain_snoc dest: wf_form_span intro: chain_mono split: option.split)
        have "runs False (parse_seq_forms n closing osp name (case r of Some f \<Rightarrow> forms @ [f] | None \<Rightarrow> forms) p2)
          (seq_post g lo p2) (pfail g N)"
          using seq r ch' p p1 closing unfolding seq_spec_def raw_post_def by simp
        then have "runs False (parse_seq_forms n closing osp name (case r of Some f \<Rightarrow> forms @ [f] | None \<Rightarrow> forms) p2)
          (seq_post g lo p) (pfail g N)"
          by (rule runs_mono) (use r p1(4) in \<open>auto simp: seq_post_def raw_post_def\<close>)
        then show "runs False (case r of
                Some form \<Rightarrow> parse_seq_forms n closing osp name (forms @ [form]) p2
              | None \<Rightarrow> parse_seq_forms n closing osp name forms p2) (seq_post g lo p) (pfail g N)"
          by (simp split: option.splits)
      qed
      with 3 show ?thesis by simp
    qed
  qed
qed

lemma req_step:
  assumes raw: "raw_spec g n" and req: "req_spec g n"
  shows "req_spec g (Suc n)"
  unfolding req_spec_def
proof (intro allI impI)
  fix osp what p N
  assume p: "pinv g p" "span_in g osp" "psize p < N" "2 * psize p + 2 \<le> Suc n"
  show "runs False (require_form (Suc n) osp what p) (form_post g p) (pfail g N)"
    unfolding require_form.simps runs_pbind
  proof (rule peek_tok_runs [OF p(1) less_imp_le [OF p(3)]])
    fix p1 t sp
    assume p1: "pinv g p1" "pr_peeked p1 = Some (t, sp)" "ppos p \<le> sp_start sp" "psize p1 \<le> psize p"
    note b = bump_state [OF p1(1,2)]
    have "runs False (parse_raw n p1) (\<lambda>r p2. runs False (case r of
              Some form \<Rightarrow> pok form p2 | None \<Rightarrow> require_form n osp what p2) (form_post g p) (pfail g N)) (pfail g N)"
      if t: "t \<noteq> Tok_Eof"
    proof (rule runs_mono)
      show "runs False (parse_raw n p1) (raw_post g p1) (pfail g N)"
        using raw p p1 t by (auto simp: raw_spec_def)
      fix r p2
      assume r: "raw_post g p1 r p2"
      show "runs False (case r of Some form \<Rightarrow> pok form p2 | None \<Rightarrow> require_form n osp what p2)
        (form_post g p) (pfail g N)"
      proof (cases r)
        case None
        from req r p p1 have "runs False (require_form n osp what p2) (form_post g p2) (pfail g N)"
          by (simp add: req_spec_def raw_post_def)
        then show ?thesis
          unfolding None option.case
          by (rule runs_mono) (use r p1 b(7) in \<open>auto simp: form_post_def raw_post_def\<close>)
      next
        case (Some f)
        with r p1 b(7) show ?thesis by (simp add: form_post_def raw_post_def)
      qed
    qed auto
    then show "runs False
        (if t = Tok_Eof then perr (EofExpected what) osp p1
         else pbind (parse_raw n p1) (\<lambda>r p. case r of Some form \<Rightarrow> pok form p
              | None \<Rightarrow> require_form n osp what p)) (form_post g p) (pfail g N)"
      using p p1 by (simp add: perr_runs)
  qed
qed

lemma collection_wf:
  assumes "seq_post g (sp_end sp) p0 (fs, close) p'" "span_in g sp" "sp_start sp < sp_end sp"
    "children k = fs" "arity_ok k"
  shows "wf_form g (Form k (merged_span sp close))"
proof -
  from assms(1) have c: "chain (sp_end sp) (sp_start close) fs" "sp_start close < sp_end close"
    "span_in g close" "\<forall>f \<in> set fs. wf_form g f"
    by (simp_all add: seq_post_def)
  from c(1) have le: "sp_end sp \<le> sp_start close" by (rule chain_le)
  with c(2) assms(3) have "chain (sp_start sp) (sp_end close) fs"
    using chain_lower [OF chain_mono [OF c(1)]] by simp
  moreover from le c(2,3) assms(2,3) have "span_in g (merged_span sp close)"
    by (intro span_in_merged) simp_all
  ultimately show ?thesis
    using le c(2,4) assms(3-5) by simp
qed

lemma cond_step:
  assumes seq: "seq_spec g n"
  shows "cond_spec g (Suc n)"
  unfolding cond_spec_def
proof (intro allI impI)
  fix splicing start p N
  assume p: "pinv g p" "span_in g start" "sp_end start \<le> ppos p" "psize p < N" "2 * psize p + 2 \<le> Suc n"
  show "runs False (parse_reader_cond (Suc n) splicing start p) (cond_post g start p) (pfail g N)"
    unfolding parse_reader_cond.simps runs_pbind
  proof (rule peek_tok_runs [OF p(1) less_imp_le [OF p(4)]])
    fix p1 t sp
    assume p1: "pinv g p1" "pr_peeked p1 = Some (t, sp)" "ppos p \<le> sp_start sp" "psize p1 \<le> psize p"
    note b = bump_state [OF p1(1,2)]
    let ?p0 = "p1\<lparr>pr_peeked := None\<rparr>"
    have "runs False (parse_seq_forms n Tok_RParen sp ''reader conditional'' [] ?p0) (\<lambda>r p2.
        runs False (if odd (length (fst r)) then perr OddReaderCondClauses sp p2
          else pok (Form (FK_ReaderCond splicing (fst r)) (merged_span start (snd r))) p2)
        (cond_post g start p) (pfail g N)) (pfail g N)" if t: "t = Tok_LParen"
    proof (rule runs_mono)
      show "runs False (parse_seq_forms n Tok_RParen sp ''reader conditional'' [] ?p0)
          (seq_post g (sp_end sp) ?p0) (pfail g N)"
        using seq p p1 b t by (simp add: seq_spec_def)
      fix r p2
      assume r: "seq_post g (sp_end sp) ?p0 r p2"
      obtain fs close where fc: "r = (fs, close)" by fastforce
      have w: "wf_form g (Form (FK_ReaderCond splicing fs) (merged_span sp close))" if "even (length fs)"
        using collection_wf [OF r [unfolded fc] b(3) b(5), of "FK_ReaderCond splicing fs"] t that by simp
      have "wf_form g (Form (FK_ReaderCond splicing fs) (merged_span start close))" if e: "even (length fs)"
        using w [OF e] p p1(3) b r unfolding fc
        by (auto simp: span_in_def seq_post_def intro: chain_lower)
      with r p p1 b t show "runs False (if odd (length (fst r)) then perr OddReaderCondClauses sp p2
            else pok (Form (FK_ReaderCond splicing (fst r)) (merged_span start (snd r))) p2)
          (cond_post g start p) (pfail g N)"
        unfolding fc by (auto simp: cond_post_def seq_post_def intro!: perr_runs)
    qed auto
    with p p1 b show "runs False
        (if t \<noteq> Tok_LParen then pbind (peek_span p1) (\<lambda>s. perr ReaderCondRequiresParen s)
         else pbind (bump p1) (\<lambda>(_, open_span) p.
           pbind (parse_seq_forms n Tok_RParen open_span ''reader conditional'' [] p)
           (\<lambda>(clauses, close_span) p.
              if odd (length clauses) then perr OddReaderCondClauses open_span p
              else pok (Form (FK_ReaderCond splicing clauses) (merged_span start close_span)) p)))
        (cond_post g start p) (pfail g N)"
      by (cases "t = Tok_LParen") (simp_all add: perr_runs case_prod_unfold cong: if_cong split del: if_split)
  qed
qed

text \<open>The branches of \<open>parse_raw\<close>: collections, wrapping macros, and the rest.\<close>

lemma raw_collection:
  assumes seq: "seq_spec g n" and p: "pinv g p" "pr_peeked p = Some (t, sp)" "t \<noteq> Tok_Eof"
    "psize p \<le> N" "2 * psize p \<le> n" and closing: "closing \<noteq> Tok_Eof"
    and step: "\<And>fs close p'. pinv g p' \<Longrightarrow> psize p' < N \<Longrightarrow>
      (\<And>k. children k = fs \<Longrightarrow> arity_ok k \<Longrightarrow> raw_post g p (Some (Form k (merged_span sp close))) p') \<Longrightarrow>
      runs False (h fs close p') (raw_post g p) (pfail g N)"
  shows "runs False (parse_seq_forms n closing sp name [] (p\<lparr>pr_peeked := None\<rparr>))
    (\<lambda>a p'. runs False ((case a of (fs, close) \<Rightarrow> h fs close) p') (raw_post g p) (pfail g N)) (pfail g N)"
proof (rule runs_mono)
  let ?p0 = "p\<lparr>pr_peeked := None\<rparr>"
  note b = bump_state [OF p(1,2)]
  show "runs False (parse_seq_forms n closing sp name [] ?p0) (seq_post g (sp_end sp) ?p0) (pfail g N)"
    using seq p b closing by (simp add: seq_spec_def)
  fix r p'
  assume r: "seq_post g (sp_end sp) ?p0 r p'"
  obtain fs close where fc: "r = (fs, close)" by fastforce
  have w: "wf_form g (Form k (merged_span sp close))" if "children k = fs" "arity_ok k" for k
    using collection_wf [OF r [unfolded fc] b(3) b(5) that] p(3) by blast
  have "raw_post g p (Some (Form k (merged_span sp close))) p'" if "children k = fs" "arity_ok k" for k
    using w [OF that] r p b that by (auto simp: raw_post_def fc seq_post_def)
  with r p b fc show "runs False ((case r of (fs, close) \<Rightarrow> h fs close) p') (raw_post g p) (pfail g N)"
    by (auto simp: seq_post_def intro!: step)
qed auto

lemma raw_required:
  assumes req: "req_spec g n" and p: "pinv g p0" "span_in g sp" "psize p0 < N" "2 * psize p0 + 2 \<le> n"
    and step: "\<And>f p'. form_post g p0 f p' \<Longrightarrow> Q f p'"
  shows "runs False (require_form n sp what p0) Q (pfail g N)"
proof (rule runs_mono)
  show "runs False (require_form n sp what p0) (form_post g p0) (pfail g N)"
    using req p by (simp add: req_spec_def)
qed (auto intro: step)

lemma seq_kind_mk:
  assumes "seq_kind t = Some (closing, name, mk)"
  shows "closing \<noteq> Tok_Eof" "children (mk fs) = fs" "arity_ok (mk fs)"
  using assms by (auto simp: seq_kind_def split: token.splits)

lemma wrap_kind_mk:
  assumes "wrap_kind t = Some (what, mk)"
  shows "children (mk f) = [f]" "arity_ok (mk f)"
  using assms by (auto simp: wrap_kind_def split: token.splits)

lemma atom_kind_leaf: "atom_kind t = Some k \<Longrightarrow> children k = [] \<and> arity_ok k"
  by (auto simp: atom_kind_def split: token.splits)

lemma symbolic_only:
  assumes "content_token t" "t \<notin> {Tok_RParen, Tok_RBracket, Tok_RBrace, Tok_LBrace, Tok_Meta,
      Tok_HashDiscard, Tok_ReaderCond, Tok_ReaderCondSplice}"
    "atom_kind t = None" "seq_kind t = None" "wrap_kind t = None"
  obtains v where "\<And>sp p. parse_symbolic t sp p = pok (Some (Form (FK_Symbolic v) sp)) p"
  using assms
  by (cases t) (auto simp: atom_kind_def seq_kind_def wrap_kind_def parse_symbolic_def)

lemma raw_leaf:
  assumes "pinv g p" "pr_peeked p = Some (t, sp)" "t \<noteq> Tok_Eof" "children k = []" "arity_ok k"
  shows "raw_post g p (Some (Form k sp)) (p\<lparr>pr_peeked := None\<rparr>)"
  using bump_state [OF assms(1,2)] assms by (simp add: raw_post_def)

lemma raw_wrap:
  assumes p: "pinv g p" "pr_peeked p = Some (t, sp)" "t \<noteq> Tok_Eof"
    and f: "form_post g (p\<lparr>pr_peeked := None\<rparr>) f p'" and k: "children k = [f]" "arity_ok k"
  shows "raw_post g p (Some (Form k (merged_span sp (fm_span f)))) p'"
  using bump_state [OF p(1,2)] p(3) f k
  by (auto simp: raw_post_def form_post_def dest!: wf_form_span intro!: span_in_merged)

lemma raw_meta:
  assumes p: "pinv g p" "pr_peeked p = Some (t, sp)" "t \<noteq> Tok_Eof"
    and m: "form_post g (p\<lparr>pr_peeked := None\<rparr>) m p1" and f: "form_post g p1 f p'"
  shows "raw_post g p (Some (Form (FK_Meta m f) (merged_span sp (fm_span f)))) p'"
  using bump_state [OF p(1,2)] p(3) m f
  by (auto simp: raw_post_def form_post_def dest!: wf_form_span
      intro!: span_in_merged)

lemma raw_discard:
  assumes raw: "raw_spec g n" and p: "pinv g p" "pr_peeked p = Some (t, sp)" "t \<noteq> Tok_Eof"
    "psize p \<le> N" "2 * psize p \<le> n"
  shows "runs False (peek_tok (p\<lparr>pr_peeked := None\<rparr>)) (\<lambda>t p1.
     runs False (if t = Tok_Eof then perr EofAfterDiscard sp p1
       else pbind (parse_raw n p1) (\<lambda>_. pok None)) (raw_post g p) (pfail g N)) (pfail g N)"
proof (rule peek_tok_runs)
  note b = bump_state [OF p(1,2)]
  show "pinv g (p\<lparr>pr_peeked := None\<rparr>)" "psize (p\<lparr>pr_peeked := None\<rparr>) \<le> N"
    using b p by simp_all
  fix p1 t1 sp1
  assume p1: "pinv g p1" "pr_peeked p1 = Some (t1, sp1)"
    "ppos (p\<lparr>pr_peeked := None\<rparr>) \<le> sp_start sp1" "psize p1 \<le> psize (p\<lparr>pr_peeked := None\<rparr>)"
  note b1 = bump_state [OF p1(1,2)]
  show "runs False (if t1 = Tok_Eof then perr EofAfterDiscard sp p1
       else pbind (parse_raw n p1) (\<lambda>_. pok None)) (raw_post g p) (pfail g N)"
  proof (cases "t1 = Tok_Eof")
    case True
    with p p1 b show ?thesis by (auto intro: perr_runs)
  next
    case False
    have "runs False (parse_raw n p1) (\<lambda>_. raw_post g p None) (pfail g N)"
    proof (rule runs_mono)
      show "runs False (parse_raw n p1) (raw_post g p1) (pfail g N)"
        using raw p p1 b False by (auto simp: raw_spec_def)
    qed (use p p1 b b1 in \<open>auto simp: raw_post_def\<close>)
    with False show ?thesis by simp
  qed
qed

lemma raw_cond:
  assumes cond: "cond_spec g n" and p: "pinv g p" "pr_peeked p = Some (t, sp)" "t \<noteq> Tok_Eof"
    "psize p \<le> N" "2 * psize p \<le> n"
  shows "runs False (parse_reader_cond n splicing sp (p\<lparr>pr_peeked := None\<rparr>))
    (\<lambda>f. raw_post g p (Some f)) (pfail g N)"
proof (rule runs_mono)
  let ?p0 = "p\<lparr>pr_peeked := None\<rparr>"
  note b = bump_state [OF p(1,2)]
  show "runs False (parse_reader_cond n splicing sp ?p0) (cond_post g sp ?p0) (pfail g N)"
    using cond p b by (simp add: cond_spec_def)
  show "raw_post g p (Some f) p'" if "cond_post g sp ?p0 f p'" for f p'
    using that p b wf_form_span [of g f] by (auto simp: cond_post_def raw_post_def)
qed auto

lemma raw_step:
  assumes specs: "raw_spec g n" "seq_spec g n" "req_spec g n" "cond_spec g n"
  shows "raw_spec g (Suc n)"
  unfolding raw_spec_def
proof (intro allI impI)
  fix p t sp N
  assume p: "pinv g p" "pr_peeked p = Some (t, sp)" "t \<noteq> Tok_Eof" "psize p \<le> N"
    and "2 * psize p + 1 \<le> Suc n"
  then have n: "2 * psize p \<le> n" by simp
  let ?p0 = "p\<lparr>pr_peeked := None\<rparr>"
  note b = bump_state [OF p(1,2)]
  have p0: "pinv g ?p0" "span_in g sp" "psize ?p0 < N" "2 * psize ?p0 + 2 \<le> n"
    using b p n by simp_all
  note kinds = atom_kind_def seq_kind_def wrap_kind_def
  consider (closing) "t \<in> {Tok_RParen, Tok_RBracket, Tok_RBrace}"
    | (atom) k where "t \<notin> {Tok_RParen, Tok_RBracket, Tok_RBrace}" "atom_kind t = Some k"
    | (seq) closing name mk where "t \<notin> {Tok_RParen, Tok_RBracket, Tok_RBrace}" "atom_kind t = None"
        "seq_kind t = Some (closing, name, mk)"
    | (wrap) what mk where "t \<notin> {Tok_RParen, Tok_RBracket, Tok_RBrace}" "atom_kind t = None"
        "seq_kind t = None" "wrap_kind t = Some (what, mk)"
    | (map) "t = Tok_LBrace" | (meta) "t = Tok_Meta" | (discard) "t = Tok_HashDiscard"
    | (cond) "t \<in> {Tok_ReaderCond, Tok_ReaderCondSplice}"
    | (symbolic) "t \<notin> {Tok_RParen, Tok_RBracket, Tok_RBrace, Tok_LBrace, Tok_Meta,
      Tok_HashDiscard, Tok_ReaderCond, Tok_ReaderCondSplice}"
    "atom_kind t = None" "seq_kind t = None" "wrap_kind t = None"
    by (cases "atom_kind t"; cases "seq_kind t"; cases "wrap_kind t") auto
  then show "runs False (parse_raw (Suc n) p) (raw_post g p) (pfail g N)"
  proof cases
    case closing
    then show ?thesis using p p0 by (simp add: perr_runs)
  next
    case atom
    then show ?thesis using p raw_leaf [OF p(1-3)] atom_kind_leaf [OF atom(2)] by simp
  next
    case seq
    then show ?thesis using p
      by (auto intro!: raw_collection [OF specs(2) p n] simp: seq_kind_mk [OF seq(3)])
  next
    case wrap
    then show ?thesis using p
      by (auto intro!: raw_required [OF specs(3) p0] raw_wrap [OF p(1-3)] simp: wrap_kind_mk [OF wrap(4)])
  next
    case map
    then show ?thesis using p b(3)
      by (auto simp: kinds intro!: raw_collection [OF specs(2) p n] perr_runs)
  next
    case meta
    have "runs False (require_form n sp ''annotated form'' p1)
      (\<lambda>f p'. raw_post g p (Some (Form (FK_Meta m f) (merged_span sp (fm_span f)))) p') (pfail g N)"
      if m: "form_post g ?p0 m p1" for m p1
      by (rule runs_mono [of _ _ "form_post g p1" "pfail g N"])
        (use specs(3) p0 m in \<open>auto simp: req_spec_def form_post_def intro!: raw_meta [OF p(1-3) m]\<close>)
    with meta show ?thesis using p
      by (auto simp: kinds intro!: raw_required [OF specs(3) p0])
  next
    case discard
    then show ?thesis using p raw_discard [OF specs(1) p n]
      by (simp add: kinds split del: if_split)
  next
    case cond
    then show ?thesis using p raw_cond [OF specs(4) p n]
      by (auto simp: kinds)
  next
    case symbolic
    obtain v where "\<And>sp p. parse_symbolic t sp p = pok (Some (Form (FK_Symbolic v) sp)) p"
      using symbolic_only [OF b(6) [OF p(3)] symbolic] by blast
    with symbolic show ?thesis using p raw_leaf [OF p(1-3), of "FK_Symbolic v"] by simp
  qed
qed

lemma parser_specs: "raw_spec g n \<and> seq_spec g n \<and> req_spec g n \<and> cond_spec g n"
proof (induction n)
  case 0
  show ?case by (simp add: raw_spec_def seq_spec_def req_spec_def cond_spec_def)
next
  case (Suc n)
  then show ?case by (blast intro: raw_step seq_step req_step cond_step)
qed

section \<open>The entry points\<close>

definition one_post :: "source_env \<Rightarrow> parser \<Rightarrow> form option \<Rightarrow> parser \<Rightarrow> bool" where
  "one_post g p r p' \<longleftrightarrow> pinv g p' \<and> ppos p \<le> ppos p' \<and>
     (case r of
        None \<Rightarrow> psize p' = 0
      | Some f \<Rightarrow> psize p' < psize p \<and> wf_form g f \<and> ppos p \<le> sp_start (fm_span f) \<and>
                  sp_end (fm_span f) \<le> ppos p')"

lemma parse_one_runs:
  "pinv g p \<Longrightarrow> psize p \<le> N \<Longrightarrow> 2 * psize p + 2 \<le> n \<Longrightarrow>
   runs False (parse_one n p) (one_post g p) (pfail g N)"
proof (induction n arbitrary: p)
  case (Suc n)
  show ?case
    unfolding parse_one.simps runs_pbind
  proof (rule peek_tok_runs [OF Suc.prems(1,2)])
    fix p1 t sp
    assume p1: "pinv g p1" "pr_peeked p1 = Some (t, sp)" "ppos p \<le> sp_start sp" "psize p1 \<le> psize p"
    note b = bump_state [OF p1(1,2)]
    have "runs False (parse_raw n p1) (\<lambda>r p2. runs False (case r of
              Some form \<Rightarrow> pok (Some form) p2 | None \<Rightarrow> parse_one n p2) (one_post g p) (pfail g N)) (pfail g N)"
      if t: "t \<noteq> Tok_Eof"
    proof (rule runs_mono)
      show "runs False (parse_raw n p1) (raw_post g p1) (pfail g N)"
        using parser_specs [of g n] Suc.prems p1 t by (auto simp: raw_spec_def)
      fix r p2
      assume r: "raw_post g p1 r p2"
      show "runs False (case r of Some form \<Rightarrow> pok (Some form) p2 | None \<Rightarrow> parse_one n p2)
        (one_post g p) (pfail g N)"
      proof (cases r)
        case None
        from Suc r p1 have "runs False (parse_one n p2) (one_post g p2) (pfail g N)"
          by (simp add: raw_post_def)
        then show ?thesis
          unfolding None option.case
          by (rule runs_mono) (use r p1 b(7) in \<open>auto simp: one_post_def raw_post_def split: option.splits\<close>)
      qed (use r p1 b(7) in \<open>simp add: one_post_def raw_post_def\<close>)
    qed auto
    with p1 b show "runs False (if t = Tok_Eof then pok None p1
         else pbind (parse_raw n p1) (\<lambda>r p. case r of Some form \<Rightarrow> pok (Some form) p
              | None \<Rightarrow> parse_one n p)) (one_post g p) (pfail g N)"
      by (simp add: one_post_def)
  qed
qed simp

lemma parse_all_runs:
  "pinv g p \<Longrightarrow> psize p \<le> N \<Longrightarrow> 2 * psize p + 3 \<le> n \<Longrightarrow> chain 0 (ppos p) forms \<Longrightarrow>
   \<forall>f \<in> set forms. wf_form g f \<Longrightarrow>
   runs False (parse_all n forms p) (\<lambda>fs p'. pinv g p' \<and> psize p' = 0 \<and>
     chain 0 (ppos p') fs \<and> (\<forall>f \<in> set fs. wf_form g f)) (pfail g N)"
proof (induction n arbitrary: p forms)
  case (Suc n)
  have one: "runs False (parse_one n p) (one_post g p) (pfail g N)"
    using Suc.prems by (intro parse_one_runs) simp_all
  show ?case
    unfolding parse_all.simps runs_pbind
  proof (rule runs_mono [OF one])
    fix r p1
    assume r: "one_post g p r p1"
    show "runs False (case r of Some form \<Rightarrow> parse_all n (forms @ [form]) p1 | None \<Rightarrow> pok forms p1)
      (\<lambda>fs p'. pinv g p' \<and> psize p' = 0 \<and> chain 0 (ppos p') fs \<and> (\<forall>f \<in> set fs. wf_form g f)) (pfail g N)"
    proof (cases r)
      case None
      with r Suc.prems show ?thesis by (auto simp: one_post_def intro: chain_mono)
    next
      case (Some f)
      with r have f: "pinv g p1" "psize p1 < psize p" "wf_form g f" "ppos p \<le> sp_start (fm_span f)"
        "sp_end (fm_span f) \<le> ppos p1"
        by (simp_all add: one_post_def)
      then have "chain 0 (ppos p1) (forms @ [f])"
        using Suc.prems(4) wf_form_span [of g f] by (auto simp: chain_snoc intro: chain_mono)
      with Suc f Some show ?thesis by simp
    qed
  qed auto
qed simp

text \<open>The parsers that repeated calls of \<open>parse_one\<close> reach, errors included.\<close>

inductive parser_reach :: "(uchar \<Rightarrow> bool) \<Rightarrow> bool \<Rightarrow> str \<Rightarrow> str \<Rightarrow> parser \<Rightarrow> bool"
  for alnum checked src f where
  parser_reach_new: "parser_reach alnum checked src f (parser_new alnum checked src f)"
| parser_reach_one: "parser_reach alnum checked src f p \<Longrightarrow> read_one p = Some (r, p') \<Longrightarrow>
     parser_reach alnum checked src f p'"

lemma pinv_new: "pinv (alnum, checked, src, f) (parser_new alnum checked src f)"
  by (simp add: pinv_def parser_new_def env_reach_def reach_new)

lemma read_one_runs: "pinv g p \<Longrightarrow> runs False (read_one p) (one_post g p) (pfail g (psize p))"
  unfolding read_one_def parser_fuel_def by (rule parse_one_runs) simp_all

lemma read_all_runs:
  "pinv g p \<Longrightarrow> runs False (read_all p) (\<lambda>fs p'. pinv g p' \<and> psize p' = 0 \<and>
     chain 0 (ppos p') fs \<and> (\<forall>f \<in> set fs. wf_form g f)) (pfail g (psize p))"
  unfolding read_all_def parser_fuel_def by (rule parse_all_runs) simp_all

lemma parser_reach_inv: "parser_reach alnum checked src f p \<Longrightarrow> pinv (alnum, checked, src, f) p"
proof (induction rule: parser_reach.induct)
  case (parser_reach_one p r p')
  then show ?case
    using read_one_runs [OF parser_reach_one.IH]
    by (cases r) (auto simp: one_post_def pfail_def)
qed (rule pinv_new)

section \<open>Fuel\<close>

text \<open>More fuel does not change a result: \<open>below m m'\<close> allows only running out to change.\<close>

definition below :: "'a pres \<Rightarrow> 'a pres \<Rightarrow> bool" where
  "below m m' \<longleftrightarrow> m = None \<or> m = m'"

lemma below_refl [simp, intro!]: "below m m" and below_None [simp]: "below None m"
  by (simp_all add: below_def)

lemma below_pbind:
  "below m m' \<Longrightarrow> (\<And>a p. below (f a p) (f' a p)) \<Longrightarrow> below (pbind m f) (pbind m' f')"
  by (auto simp: below_def pbind_def split: option.splits outcome.splits)

lemma below_if: "below a a' \<Longrightarrow> below b b' \<Longrightarrow> below (if c then a else b) (if c then a' else b')"
  by simp

lemma below_case_prod:
  "(\<And>a b. below (f a b p) (f' a b p)) \<Longrightarrow> below ((case x of (a, b) \<Rightarrow> f a b) p) ((case x of (a, b) \<Rightarrow> f' a b) p)"
  by (cases x) simp

lemma below_option:
  "below a a' \<Longrightarrow> (\<And>x. below (b x) (b' x)) \<Longrightarrow>
   below (case r of None \<Rightarrow> a | Some x \<Rightarrow> b x) (case r of None \<Rightarrow> a' | Some x \<Rightarrow> b' x)"
  by (cases r) simp_all

lemma below_prod:
  "(\<And>a b. below (f a b) (f' a b)) \<Longrightarrow> below (case x of (a, b) \<Rightarrow> f a b) (case x of (a, b) \<Rightarrow> f' a b)"
  by (cases x) simp

lemma more_fuel_step:
  "(\<forall>p. below (parse_raw n p) (parse_raw (Suc n) p)) \<and>
   (\<forall>c s m fs p. below (parse_seq_forms n c s m fs p) (parse_seq_forms (Suc n) c s m fs p)) \<and>
   (\<forall>s w p. below (require_form n s w p) (require_form (Suc n) s w p)) \<and>
   (\<forall>b s p. below (parse_reader_cond n b s p) (parse_reader_cond (Suc n) b s p))"
proof (induction n)
  case (Suc n)
  define k where "k = Suc n"
  note ih = Suc.IH [folded k_def, THEN conjunct1, rule_format]
    Suc.IH [folded k_def, THEN conjunct2, THEN conjunct1, rule_format]
    Suc.IH [folded k_def, THEN conjunct2, THEN conjunct2, THEN conjunct1, rule_format]
    Suc.IH [folded k_def, THEN conjunct2, THEN conjunct2, THEN conjunct2, rule_format]
  note below = below_pbind below_if below_case_prod below_option below_prod ih below_refl
  have "below (parse_raw (Suc n) p) (parse_raw (Suc k) p)" for p
    unfolding parse_raw.simps by (intro below)
  moreover have "below (parse_seq_forms (Suc n) c s m fs p) (parse_seq_forms (Suc k) c s m fs p)"
    for c s m fs p
    unfolding parse_seq_forms.simps by (intro below)
  moreover have "below (require_form (Suc n) s w p) (require_form (Suc k) s w p)" for s w p
    unfolding require_form.simps by (intro below)
  moreover have "below (parse_reader_cond (Suc n) b s p) (parse_reader_cond (Suc k) b s p)" for b s p
    unfolding parse_reader_cond.simps by (intro below)
  ultimately show ?case unfolding k_def by blast
qed simp

lemma parse_one_more_fuel: "below (parse_one n p) (parse_one (Suc n) p)"
proof (induction n arbitrary: p)
  case (Suc n)
  define k where "k = Suc n"
  have "below (parse_one (Suc n) p) (parse_one (Suc k) p)"
    unfolding parse_one.simps
    by (intro below_pbind below_if below_option below_refl Suc.IH [folded k_def]
        more_fuel_step [of n, folded k_def, THEN conjunct1, rule_format])
  then show ?case unfolding k_def .
qed simp

lemma parse_all_more_fuel: "below (parse_all n fs p) (parse_all (Suc n) fs p)"
proof (induction n arbitrary: fs p)
  case (Suc n)
  define k where "k = Suc n"
  have "below (parse_all (Suc n) fs p) (parse_all (Suc k) fs p)"
    unfolding parse_all.simps
    by (intro below_pbind below_option below_refl Suc.IH [folded k_def]
        parse_one_more_fuel [of n, folded k_def])
  then show ?case unfolding k_def .
qed simp

lemma below_le:
  assumes "\<And>n. below (f n) (f (Suc n))" "n \<le> m" "f n = Some x"
  shows "f m = Some x"
  using assms(2,3)
proof (induction rule: dec_induct)
  case (step k)
  with assms(1) [of k] show ?case by (auto simp: below_def)
qed

section \<open>Properties\<close>

lemmas parse_raw_num = parse_raw.simps(2) [of "pred_numeral k", folded numeral_eq_Suc] for k
lemmas parse_seq_num = parse_seq_forms.simps(2) [of "pred_numeral k", folded numeral_eq_Suc] for k
lemmas require_num = require_form.simps(2) [of "pred_numeral k", folded numeral_eq_Suc] for k
lemmas parse_cond_num = parse_reader_cond.simps(2) [of "pred_numeral k", folded numeral_eq_Suc] for k
lemmas parse_one_num = parse_one.simps(2) [of "pred_numeral k", folded numeral_eq_Suc] for k
lemmas parse_all_num = parse_all.simps(2) [of "pred_numeral k", folded numeral_eq_Suc] for k

text \<open>The definitions that evaluate the parser on a concrete source.\<close>

lemmas parser_eval =
  parse_raw_num parse_seq_num require_num parse_cond_num parse_one_num parse_all_num
  lexer_eval parser_new_def read_one_def read_all_def parser_fuel_def psize_def
  peek_tok_def peek_span_def bump_def fill_def pbind_def perr_def atom_kind_def seq_kind_def
  wrap_kind_def merged_span_def

text \<open>
  C11. Reading a source always ends: \<open>parse_all\<close> on a fresh parser returns, with a result that
  does not depend on the fuel beyond the amount the entry point gives.
\<close>

theorem read_all_returns:
  "\<exists>r p'. \<forall>k. parse_all (parser_fuel (parser_new alnum checked src f) + k) []
                 (parser_new alnum checked src f) = Some (r, p')"
proof -
  obtain r p' where "read_all (parser_new alnum checked src f) = Some (r, p')"
    using runs_total [OF read_all_runs [OF pinv_new]] by blast
  then show ?thesis
    using below_le [where f = "\<lambda>n. parse_all n [] (parser_new alnum checked src f)", OF parse_all_more_fuel]
    unfolding read_all_def by (metis le_add1)
qed

text \<open>
  C31. Iterating the parser over a source always ends, also when the caller continues after
  errors: from every parser that earlier calls left behind, \<open>parse_one\<close> returns, whatever
  the fuel beyond the amount given, and either reports the end with nothing left to read or
  leaves strictly less to read.
\<close>

theorem read_one_progress:
  assumes "parser_reach alnum checked src f p"
  shows "\<exists>r p'. read_one p = Some (r, p') \<and> (\<forall>k. parse_one (parser_fuel p + k) p = Some (r, p')) \<and>
    (if r = Ok None then psize p' = 0 else psize p' < psize p)"
proof -
  note runs = read_one_runs [OF parser_reach_inv [OF assms]]
  from runs_total [OF runs] obtain r p' where r: "read_one p = Some (r, p')" by blast
  have "parse_one (parser_fuel p + k) p = Some (r, p')" for k
    using below_le [where f = "\<lambda>n. parse_one n p", OF parse_one_more_fuel] r
    unfolding read_one_def by (metis le_add1)
  with r runs show ?thesis
    by (cases r) (auto simp: one_post_def pfail_def split: option.splits)
qed

theorem read_one_progress_witness:
  "\<exists>r p'. read_one (parser_new (\<lambda>_. False) True (lit ''(x '') []) = Some (r, p') \<and>
    (if r = Ok None then psize p' = 0 else psize p' < 3)"
proof -
  have "psize (parser_new (\<lambda>_. False) True (lit ''(x '') []) = 3"
    by (simp add: psize_def parser_new_def lexer_new_def)
  with read_one_progress [OF parser_reach_new, of "\<lambda>_. False" True "lit ''(x ''" "[]"]
  show ?thesis by metis
qed

text \<open>
  C5. Every form of a source that parses is well formed.  A map has an even number of
  children unless a splicing conditional is among them, a reader conditional has an even
  number of clauses; every span is a non-empty range of the source, and the children of a
  form --- and the top-level forms of the source --- lie inside their parent in the order
  of the text, without overlap.
\<close>

theorem parsed_forms_well_formed:
  assumes "read_all (parser_new alnum checked src f) = Some (Ok fs, p')"
  shows "chain 0 (utf8_len src) fs \<and> (\<forall>x \<in> set fs. wf_form (alnum, checked, src, f) x)"
proof -
  let ?g = "(alnum, checked, src, f)"
  from read_all_runs [OF pinv_new, of alnum checked src f] assms
  have p': "pinv ?g p'" "chain 0 (ppos p') fs" "\<forall>x \<in> set fs. wf_form ?g x"
    by simp_all
  have "ppos p' \<le> utf8_len src"
    using p'(1) env_reach_facts(3) [of ?g "pr_lexer p'"]
    by (auto simp: ppos_def pinv_def peeked_ok_def span_in_def env_src_def split: option.split)
  with p' show ?thesis by (blast intro: chain_mono)
qed

theorem parsed_forms_well_formed_witness:
  "\<exists>x y. wf_form ((\<lambda>_. False), True, lit ''(a)b'', []) x \<and> wf_form ((\<lambda>_. False), True, lit ''(a)b'', []) y \<and>
    chain 0 4 [x, y]"
proof -
  obtain x y p' where "read_all (parser_new (\<lambda>_. False) True (lit ''(a)b'') []) = Some (Ok [x, y], p')"
    by (simp add: parser_eval lex_symbol_def peek_version_hash_def)
  note wf = parsed_forms_well_formed [OF this]
  have len: "utf8_len (lit ''(a)b'') = 4" by (simp add: len_utf8_def)
  show ?thesis
    by (rule exI [of _ x], rule exI [of _ y]) (use wf [unfolded len] in simp)
qed

text \<open>
  C32. The parser itself never panics: its \<open>unwrap\<close>s and its \<open>unreachable!\<close> on the names of
  symbolic values cannot fail.  Whenever reading panics, the lexer panicked on the same
  source.
\<close>

theorem parser_panics_only_in_lexer:
  assumes "parser_reach alnum checked src f p" and "read_one p = Some (Panic, p')"
  shows "\<exists>l. lexer_reach alnum checked src f l \<and> fst (next_token l) = Panic"
  using read_one_runs [OF parser_reach_inv [OF assms(1)]] assms(2)
  by (auto simp: pfail_def env_reach_def)

theorem parser_panics_only_in_lexer_witness:
  "\<exists>l. lexer_reach (\<lambda>_. False) True (lit ''99r1'') [] l \<and> fst (next_token l) = Panic"
proof -
  obtain p' where "read_one (parser_new (\<lambda>_. False) True (lit ''99r1'') []) = Some (Panic, p')"
    by (simp add: parser_eval lex_number_def lex_radix_number_def parse_unsigned_def valid_digits_def
        digits_value_def digit36_def to_digit_def is_ascii_alphanumeric_def)
  with parser_panics_only_in_lexer [OF parser_reach_new] show ?thesis .
qed

text \<open>
  C33. Every error of the reader names the source it was given and is labelled with a byte
  range inside it, so that rendering the diagnostic never fails on an out-of-range label.
\<close>

theorem parse_errors_located:
  assumes "parser_reach alnum checked src f p" and "read_one p = Some (Err e, p')"
  shows "\<exists>msg off len. e = ReadError msg (off, len) f src \<and> off + len \<le> utf8_len src"
  using read_one_runs [OF parser_reach_inv [OF assms(1)]] assms(2)
  by (cases e) (auto simp: pfail_def located_def env_file_def env_src_def)


theorem parse_errors_located_witness:
  "\<exists>e p' msg off len. read_one (parser_new (\<lambda>_. False) True (lit '')'') []) = Some (Err e, p') \<and>
     e = ReadError msg (off, len) [] (lit '')'') \<and> off + len \<le> 1"
proof -
  obtain e p' where "read_one (parser_new (\<lambda>_. False) True (lit '')'') []) = Some (Err e, p')"
    by (simp add: parser_eval lex_symbol_def peek_version_hash_def)
  with parse_errors_located [OF parser_reach_new this] show ?thesis
    by (auto simp: len_utf8_def)
qed

text \<open>
  A map form may have an odd number of children: a map literal whose only child is a
  splicing reader conditional parses, although the form's documentation says that the
  length of a map's children is always even.
\<close>

lemma odd_map_with_splice_parses:
  "\<exists>m sp p'. read_all (parser_new (\<lambda>_. False) True (lit ''{#?@(:a b)}'') []) =
     Some (Ok [Form (FK_Map [m]) sp], p')"
  by (simp add: parser_eval lex_hash_def lex_keyword_def lex_symbol_def peek_version_hash_def is_splice_def)

end
