(* ===== verification/Environment_Spec.thy ===== *)
theory Environment_Spec
  imports Environment
begin

text \<open>
  The invariant of the namespaces, the contract of defining and looking up vars, and the
  laws of dynamic bindings, output capture and local frames.
\<close>

section \<open>The contract of a store of named roots\<close>

text \<open>
  What a client of the namespaces relies on: a definition is found under its name, and no
  definition touches the root of another name.
\<close>

locale root_store =
  fixes inv :: "'g \<Rightarrow> bool" and def :: "'k \<Rightarrow> 'v \<Rightarrow> 'g \<Rightarrow> 'g" and root :: "'g \<Rightarrow> 'k \<Rightarrow> 'v option"
  assumes inv_def: "inv g \<Longrightarrow> inv (def k v g)"
    and root_def: "inv g \<Longrightarrow> root (def k v g) j = (if j = k then Some v else root g j)"
begin

lemma inv_defs: "inv g \<Longrightarrow> inv (fold (\<lambda>(k, v). def k v) kvs g)"
  by (induction kvs arbitrary: g) (auto simp: inv_def)

lemma root_defs:
  "inv g \<Longrightarrow> root (fold (\<lambda>(k, v). def k v) kvs g) j =
     (case map_of (rev kvs) j of Some v \<Rightarrow> Some v | None \<Rightarrow> root g j)"
proof (induction kvs arbitrary: g)
  case (Cons kv kvs)
  obtain k v where kv: "kv = (k, v)" by (cases kv)
  from Cons.prems have "inv (def k v g)" by (rule inv_def)
  from Cons.IH [OF this] Cons.prems show ?case
    by (auto simp: kv root_def map_add_def split: option.split)
qed simp

lemma root_defs_distinct:
  assumes "inv g" "distinct (map fst kvs)" "(k, v) \<in> set kvs"
  shows "root (fold (\<lambda>(k, v). def k v) kvs g) k = Some v"
  using assms map_of_is_SomeI [of "rev kvs" k v] by (simp add: root_defs rev_map [symmetric])

end

section \<open>The invariant of the namespaces\<close>

text \<open>
  Every name of a namespace leads to an allocated var of that name; interned vars carry the
  namespace they are interned in, so no two interned names share a var.
\<close>

definition names_vars :: "(str \<Rightarrow> nat \<Rightarrow> bool) \<Rightarrow> (str \<times> nat) list \<Rightarrow> bool" where
  "names_vars P al \<longleftrightarrow> distinct (map fst al) \<and> (\<forall>s a. map_of al s = Some a \<longrightarrow> P s a)"

definition interned_as :: "'v var list \<Rightarrow> str \<Rightarrow> str \<Rightarrow> nat \<Rightarrow> bool" where
  "interned_as vars n s a \<longleftrightarrow> a < length vars \<and> va_namespace (vars ! a) = n \<and> va_name (vars ! a) = s"

definition referred_as :: "'v var list \<Rightarrow> str \<Rightarrow> nat \<Rightarrow> bool" where
  "referred_as vars s a \<longleftrightarrow> a < length vars \<and> va_name (vars ! a) = s"

definition wf_namespace :: "'v var list \<Rightarrow> str \<Rightarrow> namespace \<Rightarrow> bool" where
  "wf_namespace vars n x \<longleftrightarrow>
     ns_name x = n \<and> names_vars (interned_as vars n) (ns_interns x) \<and>
     names_vars (referred_as vars) (ns_refers x)"

definition wf_globals :: "'v globals \<Rightarrow> bool" where
  "wf_globals g \<longleftrightarrow>
     distinct (map fst (gl_namespaces g)) \<and>
     (\<forall>n x. find_ns g n = Some x \<longrightarrow> wf_namespace (gl_vars g) n x) \<and>
     (\<forall>a. gl_out_var g = Some a \<longrightarrow> a < length (gl_vars g))"

lemma names_vars_Nil [simp]: "names_vars P []"
  by (simp add: names_vars_def)

lemma names_vars_update: "names_vars P al \<Longrightarrow> P s a \<Longrightarrow> names_vars P (AList.update s a al)"
  by (auto simp: names_vars_def distinct_update update_conv' split: if_splits)

lemma names_vars_mono: "names_vars P al \<Longrightarrow> (\<And>s a. P s a \<Longrightarrow> Q s a) \<Longrightarrow> names_vars Q al"
  by (auto simp: names_vars_def)

lemma names_vars_fold:
  "names_vars P al \<Longrightarrow> \<forall>(s, a) \<in> set bl. P s a \<Longrightarrow> names_vars P (fold (\<lambda>(s, a). AList.update s a) bl al)"
  by (induction bl arbitrary: al) (auto simp: names_vars_update)

lemma names_vars_entry: "names_vars P al \<Longrightarrow> (s, a) \<in> set al \<Longrightarrow> P s a"
  by (simp add: names_vars_def)

lemma find_put_ns [simp]: "find_ns (put_ns n x g) m = (if m = n then Some x else find_ns g m)"
  by (simp add: find_ns_def put_ns_def update_conv')

lemma put_ns_fields [simp]:
  "gl_vars (put_ns n x g) = gl_vars g" "gl_out_var (put_ns n x g) = gl_out_var g"
  "distinct (map fst (gl_namespaces (put_ns n x g))) = distinct (map fst (gl_namespaces g))"
proof -
  show "distinct (map fst (gl_namespaces (put_ns n x g))) = distinct (map fst (gl_namespaces g))"
    by (cases "n \<in> set (map fst (gl_namespaces g))")
      (auto simp: put_ns_def update_keys)
qed (simp_all add: put_ns_def)

lemma find_ns_update [simp]:
  "find_ns (g\<lparr>gl_vars := vs\<rparr>) = find_ns g" "find_ns (g\<lparr>gl_vars := vs, gl_out_var := o'\<rparr>) = find_ns g"
  "find_ns (g\<lparr>gl_out_var := o'\<rparr>) = find_ns g"
  by (simp_all add: find_ns_def fun_eq_iff)

lemma wf_namespace_new [simp]: "wf_namespace vars n (namespace_new n)"
  by (simp add: wf_namespace_def namespace_new_def)

lemma wf_globals_new [simp]: "wf_globals globals_new"
  by (simp add: wf_globals_def globals_new_def find_ns_def)

lemma wf_globals_ns: "wf_globals g \<Longrightarrow> find_ns g n = Some x \<Longrightarrow> wf_namespace (gl_vars g) n x"
  by (simp add: wf_globals_def)

lemma wf_put_ns: "wf_globals g \<Longrightarrow> wf_namespace (gl_vars g) n x \<Longrightarrow> wf_globals (put_ns n x g)"
  by (auto simp: wf_globals_def)

text \<open>Vars are only added, and their names never change.\<close>

definition grows :: "'v var list \<Rightarrow> 'v var list \<Rightarrow> bool" where
  "grows vs ws \<longleftrightarrow> length vs \<le> length ws \<and>
     (\<forall>a < length vs. va_namespace (ws ! a) = va_namespace (vs ! a) \<and> va_name (ws ! a) = va_name (vs ! a))"

lemma wf_namespace_grows: "wf_namespace vs n x \<Longrightarrow> grows vs ws \<Longrightarrow> wf_namespace ws n x"
  by (auto simp: wf_namespace_def grows_def interned_as_def referred_as_def elim!: names_vars_mono)

lemma wf_globals_grows:
  assumes "wf_globals g" "grows (gl_vars g) ws" "\<forall>a. o' = Some a \<longrightarrow> a < length ws"
  shows "wf_globals (g\<lparr>gl_vars := ws, gl_out_var := o'\<rparr>)"
  using assms by (auto simp: wf_globals_def intro: wf_namespace_grows [OF _ assms(2)])

lemma wf_globals_grows_vars:
  assumes "wf_globals g" "grows (gl_vars g) ws"
  shows "wf_globals (g\<lparr>gl_vars := ws\<rparr>)"
  using assms wf_namespace_grows [OF wf_globals_ns [OF assms(1)] assms(2)]
  by (simp add: wf_globals_def) (auto simp: grows_def intro: less_le_trans)

lemma grows_bind: "grows vs (vs[a := var_bind v (vs ! a)])"
  by (cases "a < length vs") (auto simp: grows_def var_bind_def nth_list_update)

lemma grows_append: "grows vs (vs @ ws)"
  by (auto simp: grows_def nth_append)

lemma get_or_create_ns_cases:
  assumes "wf_globals g" "get_or_create_ns n g = (x, g')"
  shows "wf_globals g'" "find_ns g' n = Some x" "gl_vars g' = gl_vars g"
    "wf_namespace (gl_vars g) n x" "\<And>m. m \<noteq> n \<Longrightarrow> find_ns g' m = find_ns g m"
    "gl_out_var g' = gl_out_var g" "x = (case find_ns g n of Some y \<Rightarrow> y | None \<Rightarrow> namespace_new n)"
  using assms wf_globals_ns [OF assms(1)]
  by (auto simp: get_or_create_ns_def wf_put_ns split: option.splits)

text \<open>The two branches of \<open>intern\<close>.\<close>

definition ns_or_new :: "'v globals \<Rightarrow> str \<Rightarrow> namespace" where
  "ns_or_new g n = (case find_ns g n of Some x \<Rightarrow> x | None \<Rightarrow> namespace_new n)"

definition alloc_var :: "str \<Rightarrow> str \<Rightarrow> 'v \<Rightarrow> 'v globals \<Rightarrow> 'v globals" where
  "alloc_var n s v g =
     g\<lparr>gl_vars := gl_vars g @ [var_bind v (var_new n s)],
       gl_out_var := (if n = lit ''clojure.core'' \<and> s = lit ''*out*'' then Some (length (gl_vars g))
                      else gl_out_var g)\<rparr>"

lemma intern_existing:
  assumes "lookup_var g n s = Some a"
  shows "intern n s v g = (a, g\<lparr>gl_vars := (gl_vars g)[a := var_bind v (gl_vars g ! a)]\<rparr>)"
  using assms by (auto simp: lookup_var_def intern_def get_or_create_ns_def bind_eq_Some_conv)

lemma intern_fresh:
  assumes "lookup_var g n s = None"
  shows "intern n s v g = (length (gl_vars g),
    put_ns n ((ns_or_new g n)\<lparr>ns_interns := AList.update s (length (gl_vars g)) (ns_interns (ns_or_new g n))\<rparr>)
      (alloc_var n s v g))"
proof (cases "find_ns g n")
  case None
  then show ?thesis
    by (simp add: intern_def get_or_create_ns_def ns_or_new_def alloc_var_def Let_def namespace_new_def
        put_ns_def update_last)
next
  case (Some x)
  with assms have "map_of (ns_interns x) s = None" by (simp add: lookup_var_def)
  with Some show ?thesis
    by (simp add: intern_def get_or_create_ns_def ns_or_new_def alloc_var_def Let_def put_ns_def)
qed

lemma wf_ns_or_new: "wf_globals g \<Longrightarrow> wf_namespace (gl_vars g) n (ns_or_new g n)"
  by (auto simp: ns_or_new_def wf_globals_ns split: option.split)

lemma alloc_var_fields [simp]:
  "find_ns (alloc_var n s v g) = find_ns g"
  "gl_vars (alloc_var n s v g) = gl_vars g @ [var_bind v (var_new n s)]"
  by (simp_all add: alloc_var_def find_ns_def fun_eq_iff)

lemma wf_alloc_var: "wf_globals g \<Longrightarrow> wf_globals (alloc_var n s v g)"
  unfolding alloc_var_def
  by (rule wf_globals_grows) (auto simp: grows_append wf_globals_def less_SucI)

lemma lookup_var_interned:
  "wf_globals g \<Longrightarrow> lookup_var g n s = Some a \<Longrightarrow> interned_as (gl_vars g) n s a"
  by (auto simp: lookup_var_def bind_eq_Some_conv names_vars_def wf_namespace_def dest!: wf_globals_ns)

lemma lookup_var_in_ns_referred:
  "wf_globals g \<Longrightarrow> lookup_var_in_ns g n s = Some a \<Longrightarrow> referred_as (gl_vars g) s a"
  by (auto simp: lookup_var_in_ns_def bind_eq_Some_conv names_vars_def wf_namespace_def interned_as_def
      referred_as_def dest!: wf_globals_ns split: option.splits)

lemma wf_intern: "wf_globals g \<Longrightarrow> wf_globals (snd (intern n s v g))"
proof (cases "lookup_var g n s")
  case (Some a)
  assume "wf_globals g"
  with Some show ?thesis by (simp add: intern_existing wf_globals_grows_vars grows_bind)
next
  case None
  assume wf: "wf_globals g"
  let ?ws = "gl_vars g @ [var_bind v (var_new n s)]"
  from wf_namespace_grows [OF wf_ns_or_new [OF wf, of n] grows_append, of "[var_bind v (var_new n s)]"]
  have "wf_namespace ?ws n ((ns_or_new g n)\<lparr>ns_interns :=
      AList.update s (length (gl_vars g)) (ns_interns (ns_or_new g n))\<rparr>)"
    by (auto simp: wf_namespace_def interned_as_def var_bind_def var_new_def intro!: names_vars_update)
  with wf_alloc_var [OF wf] None show ?thesis by (simp add: intern_fresh wf_put_ns)
qed

text \<open>The root value of an interned name, and what defining another name does to it.\<close>

definition ns_root :: "'v globals \<Rightarrow> str \<times> str \<Rightarrow> 'v option" where
  "ns_root g k = Option.bind (lookup_var g (fst k) (snd k)) (\<lambda>a. va_value (gl_vars g ! a))"

definition intern_root :: "str \<times> str \<Rightarrow> 'v \<Rightarrow> 'v globals \<Rightarrow> 'v globals" where
  "intern_root k v g = snd (intern (fst k) (snd k) v g)"

lemma lookup_var_intern:
  "lookup_var (snd (intern n s v g)) m t =
     (if (m, t) = (n, s) then Some (fst (intern n s v g)) else lookup_var g m t)"
proof (cases "lookup_var g n s")
  case (Some a)
  then show ?thesis by (auto simp: intern_existing) (auto simp: lookup_var_def)
next
  case None
  then show ?thesis
    by (auto simp: intern_fresh lookup_var_def update_conv' ns_or_new_def namespace_new_def
        split: option.splits)
qed

lemma vars_intern:
  assumes "wf_globals g" "b < length (gl_vars g)"
  shows "gl_vars (snd (intern n s v g)) ! b =
    (if lookup_var g n s = Some b then var_bind v (gl_vars g ! b) else gl_vars g ! b)"
  using assms by (cases "lookup_var g n s") (auto simp: intern_existing intern_fresh nth_append nth_list_update)

lemma vars_intern_new:
  assumes "wf_globals g"
  shows "va_value (gl_vars (snd (intern n s v g)) ! fst (intern n s v g)) = Some v"
  using lookup_var_interned [OF assms, of n s]
  by (cases "lookup_var g n s") (auto simp: intern_existing intern_fresh interned_as_def var_bind_def)

lemma interned_inj:
  "wf_globals g \<Longrightarrow> lookup_var g n s = Some a \<Longrightarrow> lookup_var g m t = Some a \<Longrightarrow> (m, t) = (n, s)"
  using lookup_var_interned [of g n s a] lookup_var_interned [of g m t a] by (simp add: interned_as_def)

interpretation ns_roots: root_store wf_globals intern_root ns_root
proof unfold_locales
  fix g :: "'v globals" and k j v
  assume wf: "wf_globals g"
  then show "wf_globals (intern_root k v g)" by (simp add: intern_root_def wf_intern)
  show "ns_root (intern_root k v g) j = (if j = k then Some v else ns_root g j)"
  proof (cases "j = k")
    case True
    with wf show ?thesis
      by (simp add: ns_root_def intern_root_def lookup_var_intern vars_intern_new)
  next
    case False
    then have l: "lookup_var (intern_root k v g) (fst j) (snd j) = lookup_var g (fst j) (snd j)"
      by (auto simp: intern_root_def lookup_var_intern prod_eq_iff)
    have "va_value (gl_vars (intern_root k v g) ! a) = va_value (gl_vars g ! a)"
      if a: "lookup_var g (fst j) (snd j) = Some a" for a
      using vars_intern [OF wf, of a] lookup_var_interned [OF wf a] interned_inj [OF wf _ a] False
      by (auto simp: intern_root_def interned_as_def prod_eq_iff)
    with False show ?thesis by (cases "lookup_var g (fst j) (snd j)") (simp_all add: ns_root_def l)
  qed
qed

lemma wf_put_refers:
  assumes "wf_globals g" "find_ns g dst = Some d" "names_vars (referred_as (gl_vars g)) r"
  shows "wf_globals (put_ns dst (d\<lparr>ns_refers := r\<rparr>) g)"
  using wf_globals_ns [OF assms(1,2)] assms(1,3) by (intro wf_put_ns) (simp_all add: wf_namespace_def)

lemma refers_ok:
  assumes "wf_globals g" "find_ns g src = Some x"
  shows "names_vars (referred_as (gl_vars g)) (ns_refers x)"
    "(t, a) \<in> set (ns_interns x) \<Longrightarrow> referred_as (gl_vars g) t a"
  using wf_globals_ns [OF assms]
  by (auto simp: wf_namespace_def interned_as_def referred_as_def dest!: names_vars_entry)

lemma wf_refer_all: "wf_globals g \<Longrightarrow> wf_globals (refer_all dst src g)"
  unfolding refer_all_def
  by (auto split: option.split intro!: wf_put_refers names_vars_fold intro: refers_ok)

lemma refer_named_fold:
  assumes "\<And>name a. map_of al name = Some a \<Longrightarrow> P name a" "names_vars P r"
  shows "names_vars P
    (fold (\<lambda>name r. case map_of al name of Some a \<Rightarrow> AList.update name a r | None \<Rightarrow> r) names r)"
  using assms by (induction names arbitrary: r) (auto split: option.split simp: names_vars_update)

lemma wf_refer_named: "wf_globals g \<Longrightarrow> wf_globals (refer_named dst src names g)"
  unfolding refer_named_def
  by (auto split: option.split intro!: wf_put_refers refer_named_fold intro: refers_ok map_of_SomeD)

lemma wf_get_or_create_ns: "wf_globals g \<Longrightarrow> wf_globals (snd (get_or_create_ns n g))"
  by (cases "get_or_create_ns n g") (simp add: get_or_create_ns_cases)

lemma wf_add_alias: "wf_globals g \<Longrightarrow> wf_globals (add_alias n al full g)"
proof (cases "get_or_create_ns n g")
  case (Pair x g1)
  assume "wf_globals g"
  note ns = get_or_create_ns_cases [OF this Pair]
  have "wf_namespace (gl_vars g1) n (x\<lparr>ns_aliases := AList.update al full (ns_aliases x)\<rparr>)"
    using ns(3,4) by (simp add: wf_namespace_def)
  with ns(1) show ?thesis by (simp add: add_alias_def Pair wf_put_ns)
qed

text \<open>The states of the namespaces that their operations lead to.\<close>

inductive globals_reachable :: "'v globals \<Rightarrow> bool" where
  start: "globals_reachable globals_new"
| create: "globals_reachable g \<Longrightarrow> globals_reachable (snd (get_or_create_ns n g))"
| interned: "globals_reachable g \<Longrightarrow> globals_reachable (snd (intern n s v g))"
| referred: "globals_reachable g \<Longrightarrow> globals_reachable (refer_all dst src g)"
| named: "globals_reachable g \<Longrightarrow> globals_reachable (refer_named dst src names g)"
| aliased: "globals_reachable g \<Longrightarrow> globals_reachable (add_alias n al full g)"

lemma reachable_wf: "globals_reachable g \<Longrightarrow> wf_globals g"
  by (induction rule: globals_reachable.induct)
    (simp_all add: wf_get_or_create_ns wf_intern wf_refer_all wf_refer_named wf_add_alias)

lemma lookup_in_ns_var: "lookup_in_ns g th n s = Option.bind (lookup_var_in_ns g n s) (deref_var g th)"
  by (auto simp: lookup_in_ns_def lookup_var_in_ns_def split: option.split bind_split)

lemma lookup_var_in_ns_intern:
  assumes "lookup_var g n s = Some a"
  shows "lookup_var_in_ns (snd (intern n s v g)) m t = lookup_var_in_ns g m t"
  by (simp add: intern_existing [OF assms] lookup_var_in_ns_def)

lemma unbound_deref: "\<not> is_thread_bound th a \<Longrightarrow> find_binding a (th_bindings th) = None"
proof -
  have "\<not> list_ex (\<lambda>f. map_of f a \<noteq> None) fs \<Longrightarrow> find_binding a fs = None" for fs :: "(nat \<times> 'v) list list"
    by (induction fs) auto
  then show "\<not> is_thread_bound th a \<Longrightarrow> ?thesis" by (simp add: is_thread_bound_def)
qed

text \<open>
  C20. In every state of the namespaces that their operations lead to, redefining a var takes
  effect everywhere: each name that leads to it, in its own namespace or through a refer in
  another, has the new value (unless a dynamic binding hides the root), and the names that
  lead to other vars keep theirs.
\<close>

theorem redefinition_seen_through_refers:
  assumes "globals_reachable g" and "lookup_var g n s = Some a" and "\<not> is_thread_bound th a"
    and "lookup_var_in_ns g m t = Some b"
  shows "lookup_in_ns (snd (intern n s v g)) th m t = (if b = a then Some v else lookup_in_ns g th m t)"
proof -
  note wf = reachable_wf [OF assms(1)]
  have b: "b < length (gl_vars g)"
    using lookup_var_in_ns_referred [OF wf assms(4)] by (simp add: referred_as_def)
  show ?thesis
    using assms(2,4) vars_intern [OF wf b, of n s v] unbound_deref [OF assms(3)]
    by (auto simp: lookup_in_ns_var lookup_var_in_ns_intern [OF assms(2)] deref_var_def var_bind_def
        split: option.split)
qed

definition sample_globals :: "nat globals" where
  "sample_globals =
     refer_all (lit ''user'') (lit ''lib'')
       (snd (get_or_create_ns (lit ''user'') (snd (intern (lit ''lib'') (lit ''x'') 1 globals_new))))"

lemma sample_reachable: "globals_reachable sample_globals"
  unfolding sample_globals_def by (intro globals_reachable.intros)

lemmas env_eval = sample_globals_def intern_def get_or_create_ns_def refer_all_def find_ns_def put_ns_def
  namespace_new_def globals_new_def var_bind_def var_new_def lookup_var_def lookup_var_in_ns_def Let_def

theorem redefinition_seen_through_refers_witness:
  "lookup_in_ns (snd (intern (lit ''lib'') (lit ''x'') 2 sample_globals))
     \<lparr>th_bindings = [], th_targets = [], th_stdout = [], th_stderr = []\<rparr> (lit ''user'') (lit ''x'') =
   Some 2"
  by (subst redefinition_seen_through_refers [OF sample_reachable, of _ _ 0 _ _ _ 0])
    (simp_all add: env_eval is_thread_bound_def)

text \<open>
  A namespace loaded from a commit is not immutable: interning in one with the
  \<open>is_versioned\<close> mark replaces the root of the name as in any other.
\<close>

theorem versioned_namespace_mutable:
  assumes "wf_globals g" and "find_ns g n = Some x" and "ns_is_versioned x"
  shows "ns_root (snd (intern n s v g)) (n, s) = Some v \<and>
    map_option ns_is_versioned (find_ns (snd (intern n s v g)) n) = Some True"
proof -
  have "map_option ns_is_versioned (find_ns (snd (intern n s v g)) n) = Some True"
    using assms(2,3)
    by (cases "lookup_var g n s") (simp_all add: intern_existing intern_fresh ns_or_new_def)
  then show ?thesis
    using ns_roots.root_def [OF assms(1), of "(n, s)" v "(n, s)"] by (simp add: intern_root_def)
qed

section \<open>Local frames\<close>

lemma frames_lookup_concat: "frames_lookup (rev fs) name = map_of (rev (concat fs)) name"
  by (induction fs rule: rev_induct)
    (auto simp: frame_lookup_def map_add_def split: option.split)

lemma fold_env_bind:
  "fold (\<lambda>(name, v). env_bind name v) bs (e\<lparr>ev_frames := fs @ [f]\<rparr>) = e\<lparr>ev_frames := fs @ [f @ bs]\<rparr>"
  by (induction bs arbitrary: f) (auto simp: env_bind_def frame_bind_def)

lemma env_push_frame_eq: "env_push_frame e = e\<lparr>ev_frames := ev_frames e @ [[]]\<rparr>"
  by (simp add: env_push_frame_def)

lemma with_closure_frames:
  "length names = length vals \<Longrightarrow>
   with_closure n names vals = (env_new n)\<lparr>ev_frames := (if names = [] then [] else [zip names vals])\<rparr>"
  using fold_env_bind [of "zip names vals" "[]" "[]" "env_new n"]
  by (simp add: with_closure_def env_push_frame_eq) (simp add: env_new_def)

lemma env_child_frames:
  "env_child e = (env_new (ev_current_ns e))
     \<lparr>ev_is_async := ev_is_async e, ev_frames := (if concat (ev_frames e) = [] then [] else [concat (ev_frames e)])\<rparr>"
proof -
  let ?c = "(env_new (ev_current_ns e))\<lparr>ev_is_async := ev_is_async e\<rparr>"
  have "fold (\<lambda>(name, v). env_bind name v) (concat (ev_frames e)) (env_push_frame ?c) =
      ?c\<lparr>ev_frames := [concat (ev_frames e)]\<rparr>"
    using fold_env_bind [of "concat (ev_frames e)" "[]" "[]" ?c]
    by (simp add: env_push_frame_eq env_new_def)
  then show ?thesis
    by (simp add: env_child_def all_local_bindings_def Let_def zip_map_fst_snd)
      (simp add: env_new_def)
qed


section \<open>Dynamic bindings\<close>

lemma find_binding_set:
  "find_binding b (snd (set_binding a v fs)) =
     (if b = a \<and> fst (set_binding a v fs) then Some v else find_binding b fs)"
  by (induction fs) (auto simp: update_conv' split: option.split)

lemma set_binding_found: "is_thread_bound th a \<longleftrightarrow> fst (set_binding a v (th_bindings th))"
proof -
  have "fst (set_binding a v fs) \<longleftrightarrow> list_ex (\<lambda>f. map_of f a \<noteq> None) fs" for fs
    by (induction fs) auto
  then show ?thesis by (simp add: is_thread_bound_def)
qed

lemma set_thread_local_simps [simp]:
  "fst (set_thread_local a v th) = fst (set_binding a v (th_bindings th))"
  "th_bindings (snd (set_thread_local a v th)) = snd (set_binding a v (th_bindings th))"
  by (simp_all add: set_thread_local_def split: prod.split)


section \<open>Captured output\<close>

text \<open>
  Programs that print, rebind vars (possibly \<open>*out*\<close>) and capture: the calls the code makes
  for \<open>print\<close>, \<open>println\<close>, \<open>binding\<close> and \<open>with-out-str\<close>, and the text each one prints to the
  capture around it.
\<close>

datatype 'v out_op =
    Print str
  | Println str
  | Binding "(nat \<times> 'v) list" "'v out_op list"
  | With_out_str "'v out_op list"

fun run_op :: "'v keyword_view \<Rightarrow> nat option \<Rightarrow> 'v out_op \<Rightarrow> 'v thread \<Rightarrow> 'v thread" where
  "run_op kw o' (Print s) th = emit s th"
| "run_op kw o' (Println s) th = emit_ln s th"
| "run_op kw o' (Binding bs ops) th =
     (case push_frame kw o' bs th of (guard, th1) \<Rightarrow>
        drop_guard guard (fold (run_op kw o') ops th1))"
| "run_op kw o' (With_out_str ops) th =
     snd (pop_capture (fold (run_op kw o') ops (push_capture th)))"

fun printed :: "'v out_op \<Rightarrow> str" where
  "printed (Print s) = s"
| "printed (Println s) = s @ [10]"
| "printed (Binding bs ops) = concat (map printed ops)"
| "printed (With_out_str ops) = []"

definition marker :: "output_target \<Rightarrow> bool" where
  "marker t \<longleftrightarrow> t = Stdout \<or> t = Stderr"

lemma resolve_below_markers:
  "\<forall>t \<in> set ms. marker t \<Longrightarrow> resolve_target x (ms @ Capture buf # ts) = Inr (length ms)"
  by (induction ms arbitrary: x) (auto simp: marker_def)

lemma emit_captured:
  assumes "\<forall>t \<in> set ms. marker t" "th_targets th = ms @ Capture buf # ts"
  shows "emit s th = th\<lparr>th_targets := ms @ Capture (buf @ s) # ts\<rparr>"
    "emit_ln s th = th\<lparr>th_targets := ms @ Capture (buf @ s @ [10]) # ts\<rparr>"
  using assms by (simp_all add: emit_def emit_ln_def resolve_below_markers nth_append list_update_append)

lemma run_ops_captured:
  assumes "\<And>op th buf. op \<in> set ops \<Longrightarrow> th_targets th = ms @ Capture buf # ts \<Longrightarrow>
      run_op kw o' op th = th\<lparr>th_targets := ms @ Capture (buf @ printed op) # ts\<rparr>"
    and "th_targets th = ms @ Capture buf # ts"
  shows "fold (run_op kw o') ops th = th\<lparr>th_targets := ms @ Capture (buf @ concat (map printed ops)) # ts\<rparr>"
  using assms by (induction ops arbitrary: th buf) simp_all

lemma push_frame_targets:
  assumes "push_frame kw o' bs th = (guard, th1)"
  obtains ns where "\<forall>t \<in> set ns. marker t" "length ns = (if guard then 1 else 0)"
    "th1 = th\<lparr>th_bindings := bs # th_bindings th, th_targets := ns @ th_targets th\<rparr>"
proof (cases "Option.bind o' (\<lambda>a. Option.bind (map_of bs a) (sentinel_stream kw))")
  case None
  with assms that [of "[]"] show thesis by (auto simp: push_frame_def)
next
  case (Some b)
  with assms that [of "[if b then Stderr else Stdout]"] show thesis
    by (auto simp: push_frame_def push_stream_def marker_def)
qed

lemma run_op_captured:
  assumes "\<forall>t \<in> set ms. marker t" "th_targets th = ms @ Capture buf # ts"
  shows "run_op kw o' op th = th\<lparr>th_targets := ms @ Capture (buf @ printed op) # ts\<rparr>"
  using assms
proof (induction op arbitrary: th ms buf ts)
  case (Binding bs ops)
  obtain guard th1 where p: "push_frame kw o' bs th = (guard, th1)" by (cases "push_frame kw o' bs th")
  from push_frame_targets [OF this] obtain ns
    where ns: "\<forall>t \<in> set ns. marker t" "length ns = (if guard then 1 else 0)"
      "th1 = th\<lparr>th_bindings := bs # th_bindings th, th_targets := ns @ th_targets th\<rparr>" .
  then have "fold (run_op kw o') ops th1 =
      th1\<lparr>th_targets := (ns @ ms) @ Capture (buf @ concat (map printed ops)) # ts\<rparr>"
    using Binding.prems by (intro run_ops_captured Binding.IH) auto
  with ns p show ?case
    by (cases ns) (auto simp: drop_guard_def pop_frame_def pop_stream_def split: if_splits)
next
  case (With_out_str ops)
  have "fold (run_op kw o') ops (push_capture th) =
      (push_capture th)\<lparr>th_targets := [] @ Capture ([] @ concat (map printed ops)) # th_targets th\<rparr>"
    by (intro run_ops_captured With_out_str.IH) (auto simp: push_capture_def)
  with With_out_str.prems show ?case by (simp add: pop_capture_def push_capture_def)
qed (simp_all add: emit_captured)

text \<open>
  C30. \<open>with-out-str\<close> captures exactly what its body prints, in order: also through rebindings
  of \<open>*out*\<close> to \<open>stderr\<close> or \<open>stdout\<close> inside it, without what inner captures took, and the
  thread is left as it was, with nothing written to either stream.
\<close>

theorem capture_exact:
  "pop_capture (fold (run_op kw o') ops (push_capture th)) = (Some (concat (map printed ops)), th)"
proof -
  have "fold (run_op kw o') ops (push_capture th) =
      (push_capture th)\<lparr>th_targets := [] @ Capture ([] @ concat (map printed ops)) # th_targets th\<rparr>"
    by (intro run_ops_captured run_op_captured) (auto simp: push_capture_def)
  then show ?thesis by (simp add: pop_capture_def push_capture_def)
qed

end
