(* ===== verification/Nrepl_Spec.thy ===== *)
theory Nrepl_Spec
  imports Nrepl Parser_Spec Environment_Spec "HOL-Library.Multiset"
begin

text \<open>
  What the nREPL server guarantees: framing does not depend on how the bytes arrive, every
  request is answered by exactly one final reply, the interpreter drains its queue, and
  interrupts and sessions behave as their ops say.
\<close>

section \<open>Framing\<close>

lemma decode_step:
  "decode buf = Some (Inr (Some (m, k))) \<Longrightarrow> 0 < k \<and> k \<le> length buf"
  using decode_total [of buf] by auto

lemma decode_Nil: "decode [] = Some (Inr None)"
  using decode_total [of "[]"] decode_extend [of "[]"]
  by (auto simp: decode_def byte_at_def parse_value.simps)

lemma drain_more: "length buf \<le> n \<Longrightarrow> drain n buf = drain_buffer buf"
proof (induction n arbitrary: buf rule: less_induct)
  case (less n)
  have step: "drain (Suc k) buf = drain n buf" if k: "length buf = Suc k" "Suc k \<le> n" for k
  proof -
    obtain n' where n: "n = Suc n'" using k by (cases n) auto
    have "drain k (drop c buf) = drain n' (drop c buf)" if "decode buf = Some (Inr (Some (m, c)))" for m c
      using less.IH [of k "drop c buf"] less.IH [of n' "drop c buf"] decode_step [OF that] k n
      by (cases "Suc k = n") auto
    then show ?thesis by (auto simp: n split: option.split sum.split prod.split)
  qed
  show ?case
  proof (cases buf)
    case Nil
    then show ?thesis by (cases n) (simp_all add: drain_buffer_def decode_Nil)
  next
    case (Cons b bs)
    with less.prems step [of "length bs"] show ?thesis by (simp add: drain_buffer_def)
  qed
qed

lemma drain_buffer_simp:
  "drain_buffer buf =
     (case decode buf of
        Some (Inr (Some (msg, consumed))) \<Rightarrow>
          (case drain_buffer (drop consumed buf) of (msgs, rest) \<Rightarrow> (msg # msgs, rest))
      | Some (Inr None) \<Rightarrow> ([], Some buf)
      | _ \<Rightarrow> ([], None))"
  using drain_more [of buf "Suc (length buf)"]
  by (auto simp: drain_more split: option.split sum.split)

lemma drain_buffer_append:
  "drain_buffer (buf @ ext) =
     (case drain_buffer buf of
        (msgs, None) \<Rightarrow> (msgs, None)
      | (msgs, Some rest) \<Rightarrow> (case drain_buffer (rest @ ext) of (msgs', r) \<Rightarrow> (msgs @ msgs', r)))"
proof (induction "length buf" arbitrary: buf rule: less_induct)
  case less
  obtain r where r: "decode buf = Some r" using decode_total [of buf] by auto
  show ?case
  proof (cases "r = Inr None")
    case True
    then show ?thesis using r by (simp add: drain_buffer_simp [of buf] split: prod.split)
  next
    case False
    from decode_extend [OF r this] have e: "decode (buf @ ext) = Some r" .
    show ?thesis
    proof (cases r)
      case (Inr x)
      with False obtain m k where r': "r = Inr (Some (m, k))" by auto
      from decode_step [of buf m k] r r' have k: "0 < k" "k \<le> length buf" by auto
      then have IH: "drain_buffer (drop k buf @ ext) =
        (case drain_buffer (drop k buf) of
           (msgs, None) \<Rightarrow> (msgs, None)
         | (msgs, Some rest) \<Rightarrow> (case drain_buffer (rest @ ext) of (msgs', r) \<Rightarrow> (msgs @ msgs', r)))"
        by (intro less) auto
      show ?thesis
        using k unfolding drain_buffer_simp [of "buf @ ext"] drain_buffer_simp [of buf] e r r'
        by (simp add: IH split: prod.split option.split)
    qed (use r e in \<open>simp add: drain_buffer_simp [of "buf @ ext"] drain_buffer_simp [of buf]\<close>)
  qed
qed

lemma reader_task_drain: "reader_task buf chunks = drain_buffer (buf @ concat chunks)"
  by (induction chunks arbitrary: buf)
    (auto simp: drain_buffer_append [of _ "_ @ _"] split: prod.split option.split)

text \<open>
  C13. Framing does not depend on how the bytes arrive: however a byte stream is cut into
  chunks, the connection dispatches the messages of the whole stream in order, keeps the
  same incomplete rest, and is dropped at the same malformed byte.
\<close>

theorem framing_chunk_independent: "reader_task buf chunks = drain_buffer (buf @ concat chunks)"
  by (rule reader_task_drain)

lemma drain_writer:
  assumes "\<forall>m \<in> set msgs. wf_bencode m" "length (writer_task msgs) < 2 ^ 64"
  shows "drain_buffer (writer_task msgs) = (msgs, Some [])"
  using assms
proof (induction msgs)
  case Nil
  then show ?case by (simp add: writer_task_def drain_buffer_def)
next
  case (Cons m msgs)
  have w: "writer_task (m # msgs) = encode_to_vec m @ writer_task msgs" by (simp add: writer_task_def)
  with Cons have "decode (writer_task (m # msgs)) = Some (Inr (Some (m, length (encode_to_vec m))))"
    by (simp add: decode_encoded)
  with Cons w show ?case by (simp add: drain_buffer_simp [of "encode_to_vec m @ writer_task msgs"])
qed

text \<open>What a peer reads from the bytes of the writer, in chunks of any sizes.\<close>

lemma messages_cross_connection:
  assumes "\<forall>m \<in> set msgs. wf_bencode m" and "concat chunks = writer_task msgs"
    and "length (writer_task msgs) < 2 ^ 64"
  shows "reader_task [] chunks = (msgs, Some [])"
  using drain_writer [OF assms(1,3)] assms(2) by (simp add: reader_task_drain)

section \<open>Replies\<close>

text \<open>
  A reply is final when its status contains \<open>done\<close>; the tag of a reply or a request is its
  connection and the id it carries.
\<close>

definition reply_entry :: "string \<Rightarrow> bencode \<Rightarrow> bencode option" where
  "reply_entry key m = (case m of BDict es \<Rightarrow> map_of es (utf8_bytes (lit key)) | _ \<Rightarrow> None)"

definition status_word :: "string \<Rightarrow> bencode" where
  "status_word s = bencode_str (lit s)"

definition final :: "bencode \<Rightarrow> bool" where
  "final m \<longleftrightarrow>
     (case reply_entry ''status'' m of Some (BList l) \<Rightarrow> status_word ''done'' \<in> set l | _ \<Rightarrow> False)"

type_synonym tag = "nat \<times> bencode option"

definition reply_tag :: "nat \<times> bencode \<Rightarrow> tag" where
  "reply_tag r = (fst r, reply_entry ''id'' (snd r))"

definition req_tag :: "nat \<Rightarrow> request \<Rightarrow> tag" where
  "req_tag conn req = (conn, map_option bencode_str (rq_id req))"

lemma map_of_dict_insert: "map_of (dict_insert k v es) = (map_of es)(k \<mapsto> v)"
  by (induction k v es rule: dict_insert.induct) auto

lemma utf8_lit_inject [simp]: "utf8_bytes (lit a) = utf8_bytes (lit b) \<longleftrightarrow> a = b"
proof
  have "is_scalar (of_char c)" for c :: char
    using nat_of_char_less_256 [of c] unfolding is_scalar_def by arith
  then have scalar: "list_all is_scalar (lit s)" for s by (simp add: list_all_iff)
  assume "utf8_bytes (lit a) = utf8_bytes (lit b)"
  then have "lit a = lit b"
    using from_utf8_bytes [OF scalar, of a] from_utf8_bytes [OF scalar, of b] by (metis option.inject)
  moreover have "inj (of_char :: char \<Rightarrow> nat)" by (rule injI) simp
  ultimately show "a = b" by (simp only: inj_map_eq_map)
qed simp

lemma reply_entry_field [simp]:
  "reply_entry k (build (resp_field key v r)) = (if k = key then Some v else reply_entry k (build r))"
  by (simp add: reply_entry_def build_def resp_field_def map_of_dict_insert)

lemma str_field_simp [simp]: "str_field key s r = resp_field key (bencode_str s) r"
  by (simp add: str_field_def)

lemma resp_status_simp [simp]:
  "resp_status ss r = resp_field ''status'' (BList (map status_word ss)) r"
  by (simp add: resp_status_def status_word_def [abs_def])

lemma reply_entry_for_request [simp]:
  "reply_entry key (build (for_request req sid)) =
     (if key = ''session'' then Some (bencode_str sid)
      else if key = ''id'' then map_option bencode_str (rq_id req) else None)"
proof -
  have "reply_entry k (build []) = None" for k by (simp add: reply_entry_def build_def)
  then show ?thesis by (simp add: for_request_def split: option.split)
qed

lemma status_word_inject [simp]: "status_word a = status_word b \<longleftrightarrow> a = b"
  by (simp add: status_word_def bencode_str_def)

lemma final_status [simp]:
  "final (build (resp_field ''status'' (BList l) r)) \<longleftrightarrow> status_word ''done'' \<in> set l"
  by (simp add: final_def)

lemma final_field [simp]:
  "key \<noteq> ''status'' \<Longrightarrow> final (build (resp_field key v r)) \<longleftrightarrow> final (build r)"
  "\<not> final (build (for_request req sid))"
  by (simp_all add: final_def)

section \<open>One final reply per request\<close>

definition job_tag :: "job \<Rightarrow> tag" where
  "job_tag j = req_tag (jb_conn j) (jb_req j)"

text \<open>The final replies sent, the requests in flight and the requests received, by tag.\<close>

definition answered :: "'v server \<Rightarrow> tag multiset" where
  "answered sv = mset (map reply_tag (filter (final \<circ> snd) (sv_out sv)))"

definition inflight :: "'v server \<Rightarrow> tag multiset" where
  "inflight sv = mset (map job_tag (sv_queue sv)) +
     (case sv_running sv of Some r \<Rightarrow> {#job_tag (rn_job r)#} | None \<Rightarrow> {#})"

definition requested :: "nat \<times> bencode \<Rightarrow> tag multiset" where
  "requested m = (case request_from_bencode (snd m) of Some req \<Rightarrow> {#req_tag (fst m) req#} | None \<Rightarrow> {#})"

text \<open>The ids of the final replies among some messages.\<close>

definition answers :: "bencode list \<Rightarrow> bencode option list" where
  "answers ms = map (reply_entry ''id'') (filter final ms)"

lemma answers_simps [simp]:
  "answers [] = []" "answers (ms @ ns) = answers ms @ answers ns"
  "answers (m # ms) = (if final m then reply_entry ''id'' m # answers ms else answers ms)"
  by (simp_all add: answers_def)

lemma send_fields [simp]:
  "sv_queue (send c m sv) = sv_queue sv" "sv_running (send c m sv) = sv_running sv"
  "sv_alive (send c m sv) = sv_alive sv" "sv_flags (send c m sv) = sv_flags sv"
  "sv_pending (send c m sv) = sv_pending sv" "sv_engine (send c m sv) = sv_engine sv"
  "sv_out (send c m sv) = sv_out sv @ [(c, m)]"
  by (simp_all add: send_def)

lemma send_all_eq: "send_all c ms sv = sv\<lparr>sv_out := sv_out sv @ map (Pair c) ms\<rparr>"
  unfolding send_all_def by (induction ms arbitrary: sv) (simp_all add: send_def)

lemma send_all_fields [simp]:
  "sv_queue (send_all c ms sv) = sv_queue sv" "sv_running (send_all c ms sv) = sv_running sv"
  "sv_alive (send_all c ms sv) = sv_alive sv" "sv_flags (send_all c ms sv) = sv_flags sv"
  "sv_pending (send_all c ms sv) = sv_pending sv" "sv_engine (send_all c ms sv) = sv_engine sv"
  "sv_out (send_all c ms sv) = sv_out sv @ map (Pair c) ms"
  by (simp_all add: send_all_eq)

lemma answered_update [simp]:
  "answered (sv\<lparr>sv_engine := en\<rparr>) = answered sv" "answered (sv\<lparr>sv_running := r\<rparr>) = answered sv"
  "answered (sv\<lparr>sv_queue := q\<rparr>) = answered sv" "answered (sv\<lparr>sv_flags := fl\<rparr>) = answered sv"
  "answered (sv\<lparr>sv_alive := b\<rparr>) = answered sv"
  by (simp_all add: answered_def)

lemma answered_send [simp]:
  "answered (send c m sv) = answered sv + (if final m then {#(c, reply_entry ''id'' m)#} else {#})"
  by (simp add: answered_def reply_tag_def)

lemma answered_send_all:
  "answered (send_all c ms sv) = answered sv + mset (map (Pair c) (answers ms))"
  by (simp add: answered_def send_all_eq)
    (induction ms, simp_all add: reply_tag_def)

lemma finish_job_fields [simp]:
  "sv_queue (finish_job j sv) = sv_queue sv" "sv_running (finish_job j sv) = None"
  "sv_alive (finish_job j sv) = sv_alive sv" "sv_flags (finish_job j sv) = sv_flags sv"
  "sv_out (finish_job j sv) = sv_out sv" "sv_engine (finish_job j sv) = sv_engine sv"
  by (simp_all add: finish_job_def pending_remove_def split: option.split)

lemma answered_finish [simp]: "answered (finish_job j sv) = answered sv"
  by (simp add: answered_def)

text \<open>What the ops reply: a finished job has sent one final reply with its id, a started none.\<close>

definition op_answers :: "job \<Rightarrow> 'v engine \<times> bencode list \<times> begun \<Rightarrow> bool" where
  "op_answers j r \<longleftrightarrow>
     (case snd (snd r) of
        Finished \<Rightarrow> answers (fst (snd r)) = [map_option bencode_str (rq_id (jb_req j))]
      | Started run \<Rightarrow> rn_job run = j \<and> answers (fst (snd r)) = []
      | Crashed \<Rightarrow> True)"

lemma error_replies_answers [simp]: "answers (error_replies req sid msg) = []"
  by (simp add: error_replies_def)

lemma begin_eval_answers: "op_answers j (begin_eval ho j code file en)"
  by (auto simp: begin_eval_def op_answers_def Let_def split: prod.split option.split outcome.split)

lemmas op_defs = op_clone_def op_close_def op_ls_sessions_def op_unknown_def op_completions_def op_lookup_def
  op_eval_def op_load_file_def

lemma simple_op_answers:
  "op_answers j (finished (op_clone ho micros (jb_req j) en))"
  "op_answers j (finished (op_close (jb_req j) en))"
  "op_answers j (finished (op_ls_sessions (jb_req j) en))"
  "op_answers j (finished (op_completions ho (jb_req j) en))"
  "op_answers j (finished (op_lookup ho (jb_req j) en))"
  "op_answers j (finished (op_unknown ho (jb_req j) en))"
  by (simp_all add: op_defs op_answers_def finished_def Let_def split: prod.split)

lemma eval_op_answers: "op_answers j (op_eval ho j en)" "op_answers j (op_load_file ho j en)"
proof -
  show "op_answers j (op_eval ho j en)"
    unfolding op_eval_def
    by (cases "rq_code (jb_req j)", simp add: op_answers_def split: prod.split)
      (simp only: option.case begin_eval_answers)
  show "op_answers j (op_load_file ho j en)"
    unfolding op_load_file_def
    by (cases "rq_file (jb_req j)", simp add: op_answers_def split: prod.split)
      (simp only: option.case begin_eval_answers)
qed

lemma handle_op_answers: "op_answers j (handle_op ho micros j en)"
  unfolding handle_op_def Let_def by (simp only: simple_op_answers eval_op_answers split: if_split) simp

lemma eval_one_answers: "eval_one ho r form en = Some (en', ms, b) \<Longrightarrow> answers ms = []"
  by (auto simp: eval_one_def Let_def split: option.splits prod.splits sum.splits if_splits)

lemma start_job_balance:
  assumes "sv_running sv = None" "sv_alive (start_job ho micros j sv)"
  shows "answered (start_job ho micros j sv) + inflight (start_job ho micros j sv) =
    answered sv + inflight sv + {#job_tag j#}"
proof (cases "sv_flags sv ! jb_cancelled j")
  case True
  with assms(1) show ?thesis by (simp add: start_job_def inflight_def job_tag_def req_tag_def)
next
  case False
  obtain en ms b where h: "handle_op ho micros j (sv_engine sv) = (en, ms, b)"
    by (cases "handle_op ho micros j (sv_engine sv)") auto
  have "op_answers j (en, ms, b)" using handle_op_answers [of j ho micros "sv_engine sv"] by (simp add: h)
  with False assms show ?thesis
    by (cases b) (simp_all add: start_job_def h Let_def op_answers_def answered_send_all inflight_def
        job_tag_def req_tag_def)
qed

lemma eval_step_balance:
  assumes "sv_running sv = Some r" "eval_step ho r sv = Some sv'"
  shows "answered sv' + inflight sv' = answered sv + inflight sv" "sv_alive sv' = sv_alive sv"
    "sv_queue sv' = sv_queue sv" "sv_flags sv' = sv_flags sv"
proof -
  have fin: "answered (finish_eval ho r b sv) + inflight (finish_eval ho r b sv) = answered sv + inflight sv"
    "sv_alive (finish_eval ho r b sv) = sv_alive sv" "sv_queue (finish_eval ho r b sv) = sv_queue sv"
    "sv_flags (finish_eval ho r b sv) = sv_flags sv" for b
    using assms(1) by (simp_all add: finish_eval_def Let_def inflight_def job_tag_def req_tag_def)
  consider b where "sv' = finish_eval ho r b sv"
    | form forms en ms go_on where "rn_forms r = form # forms" "eval_one ho r form (sv_engine sv) = Some (en, ms, go_on)"
      "sv' = send_all (jb_conn (rn_job r)) ms
        (sv\<lparr>sv_engine := en, sv_running := Some (r\<lparr>rn_forms := (if go_on then forms else [])\<rparr>)\<rparr>)"
    using assms(2) by (auto simp: eval_step_def split: list.splits if_splits)
  then have "answered sv' + inflight sv' = answered sv + inflight sv \<and> sv_alive sv' = sv_alive sv \<and>
    sv_queue sv' = sv_queue sv \<and> sv_flags sv' = sv_flags sv"
  proof cases
    case 1
    with fin show ?thesis by simp
  next
    case 2
    with eval_one_answers [OF 2(2)] assms(1) show ?thesis
      by (simp add: answered_send_all) (simp add: inflight_def answered_def)
  qed
  then show "answered sv' + inflight sv' = answered sv + inflight sv" "sv_alive sv' = sv_alive sv"
    "sv_queue sv' = sv_queue sv" "sv_flags sv' = sv_flags sv" by simp_all
qed

lemma interp_step_balance:
  assumes "interp_step ho sv sv'" "sv_alive sv'"
  shows "answered sv' + inflight sv' = answered sv + inflight sv"
  using assms
proof cases
  case (take_job j js micros)
  have "answered (sv\<lparr>sv_queue := js\<rparr>) + inflight (sv\<lparr>sv_queue := js\<rparr>) + {#job_tag j#} = answered sv + inflight sv"
    using take_job by (simp add: inflight_def)
  with start_job_balance [of "sv\<lparr>sv_queue := js\<rparr>" ho micros j] take_job assms(2) show ?thesis by simp
next
  case (eval_form r)
  then show ?thesis by (simp add: eval_step_balance)
qed

lemma dispatch_alive [simp]: "sv_alive (dispatch ho conn msg sv) = sv_alive sv"
  by (simp add: dispatch_def enqueue_def pending_interrupt_def pending_insert_def Let_def split: option.split)

lemma final_describe: "final (describe_response version req)"
  "reply_entry ''id'' (describe_response version req) = map_option bencode_str (rq_id req)"
  by (simp_all add: describe_response_def)

lemma dispatch_balance:
  assumes "sv_alive sv"
  shows "answered (dispatch ho conn msg sv) + inflight (dispatch ho conn msg sv) =
    answered sv + inflight sv + requested (conn, msg)"
proof (cases "request_from_bencode msg")
  case None
  then show ?thesis by (simp add: dispatch_def requested_def)
next
  case (Some req)
  have "answered (enqueue conn req sv) = answered sv"
    by (simp add: enqueue_def Let_def pending_insert_def answered_def split: option.split)
  moreover have "inflight (enqueue conn req sv) = inflight sv + {#req_tag conn req#}"
    using assms by (simp add: enqueue_def Let_def pending_insert_def inflight_def job_tag_def split: option.split)
  moreover have "answered (snd (pending_interrupt s i sv)) = answered sv"
    "inflight (snd (pending_interrupt s i sv)) = inflight sv" for s i
    by (simp_all add: pending_interrupt_def Let_def inflight_def)
  moreover have "inflight (send c m x) = inflight x" for c m and x :: "'a server" by (simp add: inflight_def)
  ultimately show ?thesis
    by (simp add: dispatch_def Some requested_def Let_def final_describe req_tag_def split_beta)
qed

lemma reaches_balance:
  "reaches ho sv recvd \<Longrightarrow> sv_alive sv \<Longrightarrow>
   answered sv + inflight sv = sum_list (map requested recvd)"
proof (induction rule: reaches.induct)
  case (init ho g th)
  then show ?case by (simp add: server_new_def answered_def inflight_def)
next
  case (receive ho sv recvd conn msg)
  then show ?case by (simp add: dispatch_balance)
next
  case (interpreted ho sv recvd sv')
  from this(2) have "sv_alive sv" by cases
  with interpreted show ?case by (simp add: interp_step_balance)
qed

text \<open>
  C1. Every request is answered exactly once.  In every state the server reaches while its
  interpreter runs, the final replies sent and the requests in flight are together the
  requests received, counted by connection and id: no request is lost or answered twice, and
  every answer goes to the connection that asked and carries the id of the request.
\<close>

theorem one_final_reply_per_request:
  assumes "reaches ho sv recvd" and "sv_alive sv"
  shows "answered sv + inflight sv = sum_list (map requested recvd)"
  by (rule reaches_balance [OF assms])

text \<open>A host that evaluates every form to 0, and a server that has received a \<open>clone\<close> request.\<close>

definition sample_thread :: "nat thread" where
  "sample_thread = \<lparr>th_bindings = [], th_targets = [], th_stdout = [], th_stderr = []\<rparr>"

definition sample_host :: "(nat, nat) host" where
  "sample_host =
     \<lparr>ho_eval = (\<lambda>form env g th. Some (Inr 0, env, g, th)), ho_nil = 0, ho_show = nat_text,
      ho_class = (\<lambda>v. Class_Other), ho_keyword = (\<lambda>v. None), ho_as_str = (\<lambda>v. None),
      ho_as_long = (\<lambda>v. None), ho_meta_get = (\<lambda>v key. None), ho_error_message = nat_text,
      ho_error_value = (\<lambda>e. e), ho_read_message = (\<lambda>e. []), ho_alnum = is_ascii_alphanumeric,
      ho_checked = True, ho_version = lit ''0.1.0''\<rparr>"

definition clone_message :: bencode where
  "clone_message = BDict [(utf8_bytes (lit ''id''), bencode_str (lit ''7'')), (utf8_bytes (lit ''op''), bencode_str (lit ''clone''))]"

abbreviation sample_server :: "nat server" where
  "sample_server \<equiv> dispatch sample_host 3 clone_message (server_new globals_new sample_thread)"

lemma sample_reaches: "reaches sample_host sample_server [(3, clone_message)]"
  using reaches.receive [OF reaches.init, where conn = 3 and msg = clone_message] by simp

lemma sample_alive: "sv_alive sample_server"
  by (simp add: server_new_def)

theorem one_final_reply_per_request_witness:
  "answered sample_server + inflight sample_server = requested (3, clone_message)"
  using one_final_reply_per_request [OF sample_reaches sample_alive] by simp

section \<open>The interpreter drains its queue\<close>

text \<open>What is left to do: queued jobs, then the turns of the running one.\<close>

definition work :: "'v server \<Rightarrow> nat \<times> nat" where
  "work sv = (length (sv_queue sv), case sv_running sv of Some r \<Rightarrow> Suc (length (rn_forms r)) | None \<Rightarrow> 0)"

lemma start_job_queue [simp]: "sv_queue (start_job ho micros j sv) = sv_queue sv"
  by (simp add: start_job_def Let_def split: prod.split begun.split)

lemma eval_step_running:
  assumes "sv_running sv = Some r" "eval_step ho r sv = Some sv'"
  shows "case sv_running sv' of None \<Rightarrow> True | Some r' \<Rightarrow> length (rn_forms r') < length (rn_forms r)"
  using assms
  by (auto simp: eval_step_def finish_eval_def Let_def split: list.splits if_splits)

lemma interp_step_work:
  "interp_step ho sv sv' \<Longrightarrow> (work sv', work sv) \<in> less_than <*lex*> less_than"
proof (induction rule: interp_step.induct)
  case (eval_form sv r ho sv')
  then show ?case
    using eval_step_running [OF eval_form(2,3)] eval_step_balance(3) [OF eval_form(2,3)]
    by (auto simp: work_def split: option.splits)
qed (simp add: work_def)

lemma interp_steps_end: "wfp (\<lambda>sv' sv. interp_step ho sv sv')"
proof (rule wfp_subset)
  show "wfp (\<lambda>sv' sv. (work sv', work sv) \<in> less_than <*lex*> less_than)"
    using wf_inv_image [OF wf_lex_prod [OF wf_less_than wf_less_than], of work]
    by (simp add: wfp_def inv_image_def)
  show "(\<lambda>sv' sv. interp_step ho sv sv') \<le> (\<lambda>sv' sv. (work sv', work sv) \<in> less_than <*lex*> less_than)"
    using interp_step_work by blast
qed

definition evaluator_returns :: "('v, 'err) host \<Rightarrow> bool" where
  "evaluator_returns ho \<longleftrightarrow> (\<forall>form env g th. ho_eval ho form env g th \<noteq> None)"

lemma eval_one_returns: "evaluator_returns ho \<Longrightarrow> eval_one ho r form en \<noteq> None"
proof -
  let ?call = "ho_eval ho form (se_env (the_session ho (rn_sid r) en)) (en_globals en) (push_capture (en_thread en))"
  assume "evaluator_returns ho"
  then have "?call \<noteq> None" unfolding evaluator_returns_def by blast
  then obtain result env g th where "?call = Some (result, env, g, th)" by (cases ?call) auto
  then show ?thesis
    by (cases "pop_capture th"; cases result) (simp_all add: eval_one_def Let_def)
qed

lemma eval_step_returns: "evaluator_returns ho \<Longrightarrow> \<exists>sv'. eval_step ho r sv = Some sv'"
  using eval_one_returns [of ho r _ "sv_engine sv"]
  by (cases "rn_forms r") (auto simp: eval_step_def)

lemma interp_step_progress:
  assumes "evaluator_returns ho" "sv_alive sv" "sv_queue sv \<noteq> [] \<or> sv_running sv \<noteq> None"
  shows "\<exists>sv'. interp_step ho sv sv'"
proof (cases "sv_running sv")
  case None
  with assms(3) obtain j js where "sv_queue sv = j # js" by (cases "sv_queue sv") auto
  with None assms(2) show ?thesis by (blast intro: interp_step.take_job)
next
  case (Some r)
  with eval_step_returns [OF assms(1), of r sv] assms(2) show ?thesis by (blast intro: interp_step.eval_form)
qed

text \<open>The reader's panic is the only way the thread dies.\<close>

definition reader_panics :: "('v, 'err) host \<Rightarrow> bool" where
  "reader_panics ho \<longleftrightarrow>
     (\<exists>code file p. read_all (parser_new (ho_alnum ho) (ho_checked ho) code file) = Some (Panic, p))"

lemma begin_eval_crash: "snd (snd (begin_eval ho j code file en)) = Crashed \<Longrightarrow> reader_panics ho"
proof -
  obtain r p where "read_all (parser_new (ho_alnum ho) (ho_checked ho) code file) = Some (r, p)"
    using runs_total [OF read_all_runs [OF pinv_new]] by blast
  then show "snd (snd (begin_eval ho j code file en)) = Crashed \<Longrightarrow> ?thesis"
    by (cases r) (auto simp: begin_eval_def reader_panics_def Let_def split: prod.splits)
qed

lemma handle_op_crash: "snd (snd (handle_op ho micros j en)) = Crashed \<Longrightarrow> reader_panics ho"
  by (auto simp: handle_op_def Let_def finished_def op_eval_def op_load_file_def begin_eval_crash
      split: if_splits option.splits prod.splits)

lemma interp_step_alive: "interp_step ho sv sv' \<Longrightarrow> sv_alive sv' \<or> reader_panics ho"
proof (induction rule: interp_step.induct)
  case (take_job sv j js ho micros)
  then show ?case
    using handle_op_crash [of ho micros j "sv_engine sv"]
    by (auto simp: start_job_def Let_def split: prod.splits begun.splits)
next
  case (eval_form sv r ho sv')
  then show ?case by (simp add: eval_step_balance)
qed


lemma sample_returns: "evaluator_returns sample_host"
  by (simp add: evaluator_returns_def sample_host_def)


section \<open>Interrupts\<close>

lemma fold_flags_length [simp]: "length (fold (\<lambda>(key, flag) fl. fl[flag := True]) hits fl) = length fl"
  by (induction hits arbitrary: fl) auto

lemma fold_flags_keeps: "fl ! a \<Longrightarrow> a < length fl \<Longrightarrow> fold (\<lambda>(key, flag) fl. fl[flag := True]) hits fl ! a"
proof (induction hits arbitrary: fl)
  case (Cons hit hits)
  have "fl[b := True] ! a" for b using Cons.prems by (cases "b = a") simp_all
  with Cons show ?case by (cases hit) simp
qed simp

lemma fold_flags_sets:
  "(key, a) \<in> set hits \<Longrightarrow> a < length fl \<Longrightarrow> fold (\<lambda>(key, flag) fl. fl[flag := True]) hits fl ! a"
  by (induction hits arbitrary: fl) (auto intro: fold_flags_keeps)

lemma interrupt_sets:
  assumes "map_of (sv_pending sv) key = Some a" "wanted s i key" "a < length (sv_flags sv)"
  shows "fst (pending_interrupt s i sv)" "sv_flags (snd (pending_interrupt s i sv)) ! a"
proof -
  have hit: "(key, a) \<in> set (filter (wanted s i \<circ> fst) (sv_pending sv))"
    using assms(1,2) by (auto dest: map_of_SomeD)
  then have "filter (wanted s i \<circ> fst) (sv_pending sv) \<noteq> []" by (metis empty_iff list.set(1))
  then show "fst (pending_interrupt s i sv)" by (simp only: pending_interrupt_def Let_def fst_conv not_False_eq_True)
  from fold_flags_sets [OF hit assms(3)] show "sv_flags (snd (pending_interrupt s i sv)) ! a"
    by (simp add: pending_interrupt_def Let_def)
qed

text \<open>
  C28. An interrupt reaches a job that waits in the queue: once the request is dispatched, the
  job evaluates nothing when its turn comes.  The namespaces, the sessions and the bindings
  stay as they are, its only reply is the final one with status \<open>interrupted\<close>, and its
  entry leaves the registry.
\<close>

theorem queued_job_interrupted:
  assumes "request_from_bencode msg = Some req" and "rq_op req = lit ''interrupt''"
    and "rq_session req = Some s" and "rq_interrupt_id req = None \<or> rq_interrupt_id req = Some i"
    and "jb_key j = Some (s, i)" and "map_of (sv_pending sv) (s, i) = Some (jb_cancelled j)"
    and "jb_cancelled j < length (sv_flags sv)"
  shows "let sv1 = dispatch ho conn msg sv; sv2 = start_job ho micros j sv1 in
    sv_engine sv2 = sv_engine sv \<and> sv_running sv2 = None \<and> map_of (sv_pending sv2) (s, i) = None \<and>
    (\<exists>m. sv_out sv2 = sv_out sv1 @ [(jb_conn j, m)] \<and>
       reply_entry ''status'' m = Some (BList [status_word ''done'', status_word ''interrupted'']))"
proof -
  have w: "wanted s (rq_interrupt_id req) (s, i)" using assms(4) by (auto simp: wanted_def)
  define sv1 where "sv1 = dispatch ho conn msg sv"
  have op: "rq_op req \<noteq> lit ''describe''" using assms(2) by simp
  have flag: "sv_flags sv1 ! jb_cancelled j"
    using interrupt_sets(2) [OF assms(6) w assms(7)] op
    unfolding sv1_def dispatch_def assms(1) or_default_def
    by (simp add: assms(2,3) split_beta Let_def)
  have "sv_engine sv1 = sv_engine sv"
    using op unfolding sv1_def dispatch_def assms(1) or_default_def
    by (simp add: assms(2) split_beta pending_interrupt_def Let_def)
  with flag assms(5) show ?thesis
    unfolding sv1_def [symmetric] Let_def
    by (simp add: start_job_def finish_job_def pending_remove_def delete_conv')
qed

definition interrupt_message :: bencode where
  "interrupt_message =
     BDict [(utf8_bytes (lit ''op''), bencode_str (lit ''interrupt'')), (utf8_bytes (lit ''session''), bencode_str (lit ''s''))]"

definition eval_request :: "str \<Rightarrow> request" where
  "eval_request code =
     \<lparr>rq_op = lit ''eval'', rq_id = Some (lit ''1''), rq_session = Some (lit ''s''), rq_code = Some code,
      rq_ns = None, rq_file = None, rq_file_name = None, rq_prefix = None, rq_sym = None,
      rq_interrupt_id = None\<rparr>"

abbreviation eval_job :: "nat \<Rightarrow> job" where
  "eval_job flag \<equiv>
     \<lparr>jb_req = eval_request (lit ''1''), jb_conn = 0, jb_cancelled = flag, jb_key = Some (lit ''s'', lit ''1'')\<rparr>"

abbreviation eval_queued :: "nat server" where
  "eval_queued \<equiv> enqueue 0 (eval_request (lit ''1'')) (server_new globals_new sample_thread)"

lemma as_str_ascii: "list_all is_scalar t \<Longrightarrow> as_str (bencode_str t) = Some t"
  by (simp add: as_str_def bencode_str_def from_utf8_bytes)

lemma interrupt_message_request:
  "request_from_bencode interrupt_message =
     Some \<lparr>rq_op = lit ''interrupt'', rq_id = None, rq_session = Some (lit ''s''), rq_code = None,
       rq_ns = None, rq_file = None, rq_file_name = None, rq_prefix = None, rq_sym = None,
       rq_interrupt_id = None\<rparr>"
  unfolding request_from_bencode_def interrupt_message_def dict_str_def
  by (simp add: as_dict_def utf8_bytes_def utf8_units_def) (simp add: as_str_ascii is_scalar_def)

theorem queued_job_interrupted_witness:
  "let sv1 = dispatch sample_host 0 interrupt_message eval_queued; sv2 = start_job sample_host 5 (eval_job 0) sv1 in
    sv_engine sv2 = sv_engine eval_queued \<and> sv_running sv2 = None \<and>
    map_of (sv_pending sv2) (lit ''s'', lit ''1'') = None \<and>
    (\<exists>m. sv_out sv2 = sv_out sv1 @ [(0, m)] \<and>
       reply_entry ''status'' m = Some (BList [status_word ''done'', status_word ''interrupted'']))"
  using queued_job_interrupted [OF interrupt_message_request, of "lit ''s''" "lit ''1''" "eval_job 0" eval_queued sample_host 0 5]
  by (simp add: enqueue_def pending_key_of_def eval_request_def pending_insert_def server_new_def Let_def)



section \<open>Replies are well formed\<close>

lemma wf_resp_field [intro!]: "wf_bencode (build r) \<Longrightarrow> wf_bencode v \<Longrightarrow> wf_bencode (build (resp_field key v r))"
  by (auto simp: build_def resp_field_def dict_insert_sorted dest: dict_insert_values)

lemma wf_build_Nil [simp]: "wf_bencode (build [])"
  by (simp add: build_def)

lemma wf_bencode_str [simp]: "wf_bencode (bencode_str t)"
  by (simp add: bencode_str_def)

lemma wf_status_word [simp]: "wf_bencode (status_word t)"
  by (simp add: status_word_def)

lemma wf_for_request [simp]: "wf_bencode (build (for_request req sid))"
  by (auto simp: for_request_def split: option.split)

lemma wf_version_dict [simp]: "wf_bencode (version_dict t)"
  by (auto simp: version_dict_def version_part_def)

lemma wf_describe_response [simp]: "wf_bencode (describe_response version req)"
  by (auto simp: describe_response_def describe_ops_def simp del: wf_bencode.simps(4))
    (auto simp: build_def)

lemma wf_opt_field [intro!]:
  "wf_bencode (build r) \<Longrightarrow> (\<And>x. v = Some x \<Longrightarrow> wf_bencode x) \<Longrightarrow> wf_bencode (build (opt_field key v r))"
  by (auto simp: opt_field_def split: option.split)

lemma wf_lookup_info [simp]: "wf_bencode (BDict (lookup_info ho v))"
proof -
  have "wf_bencode (build (lookup_info ho v))"
    by (auto simp: lookup_info_def Let_def split: option.split)
  then show ?thesis by (simp add: build_def)
qed

lemma wf_dict_Nil [simp]: "wf_bencode (BDict [])"
  by simp

lemma wf_found_info [simp]: "wf_bencode (BDict (case x of None \<Rightarrow> [] | Some a \<Rightarrow> lookup_info ho (f a)))"
  by (cases x) (simp_all del: wf_bencode.simps(4))

lemma wf_completion_dict [simp]: "wf_bencode (completion_dict c)"
  by (auto simp: completion_dict_def split: prod.split)

lemma wf_error_replies: "m \<in> set (error_replies req sid msg) \<Longrightarrow> wf_bencode m"
  by (auto simp: error_replies_def)

lemma wf_begin_eval: "m \<in> set (fst (snd (begin_eval ho j code file en))) \<Longrightarrow> wf_bencode m"
  by (auto simp: begin_eval_def Let_def wf_error_replies split: prod.splits option.splits outcome.splits)

lemma wf_eval_ops:
  "m \<in> set (fst (snd (op_eval ho j en))) \<Longrightarrow> wf_bencode m"
  "m \<in> set (fst (snd (op_load_file ho j en))) \<Longrightarrow> wf_bencode m"
  unfolding op_eval_def op_load_file_def
  by (cases "rq_code (jb_req j)", auto simp: wf_begin_eval split: prod.splits)
    (cases "rq_file (jb_req j)", auto simp: wf_begin_eval split: prod.splits)

lemma wf_simple_ops:
  "m \<in> set (snd (op_clone ho micros req en)) \<Longrightarrow> wf_bencode m"
  "m \<in> set (snd (op_close req en)) \<Longrightarrow> wf_bencode m"
  "m \<in> set (snd (op_ls_sessions req en)) \<Longrightarrow> wf_bencode m"
  "m \<in> set (snd (op_completions ho req en)) \<Longrightarrow> wf_bencode m"
  "m \<in> set (snd (op_lookup ho req en)) \<Longrightarrow> wf_bencode m"
  "m \<in> set (snd (op_unknown ho req en)) \<Longrightarrow> wf_bencode m"
  by (auto simp: op_defs Let_def simp del: wf_bencode.simps(4) split: prod.splits)

lemma wf_handle_op: "m \<in> set (fst (snd (handle_op ho micros j en))) \<Longrightarrow> wf_bencode m"
  unfolding handle_op_def Let_def finished_def
  by (auto dest: wf_eval_ops wf_simple_ops split: if_splits)

lemma wf_eval_one: "eval_one ho r form en = Some (en', ms, b) \<Longrightarrow> m \<in> set ms \<Longrightarrow> wf_bencode m"
  by (auto simp: eval_one_def Let_def wf_error_replies split: option.splits prod.splits sum.splits if_splits)

definition wf_out :: "'v server \<Rightarrow> bool" where
  "wf_out sv \<longleftrightarrow> (\<forall>c m. (c, m) \<in> set (sv_out sv) \<longrightarrow> wf_bencode m)"

lemma wf_out_simps [simp]:
  "wf_out (send c m sv) \<longleftrightarrow> wf_out sv \<and> wf_bencode m"
  "wf_out (send_all c ms sv) \<longleftrightarrow> wf_out sv \<and> (\<forall>m \<in> set ms. wf_bencode m)"
  "wf_out (finish_job j sv) \<longleftrightarrow> wf_out sv" "wf_out (sv\<lparr>sv_engine := en\<rparr>) \<longleftrightarrow> wf_out sv"
  "wf_out (sv\<lparr>sv_queue := q\<rparr>) \<longleftrightarrow> wf_out sv" "wf_out (sv\<lparr>sv_running := rn\<rparr>) \<longleftrightarrow> wf_out sv"
  "wf_out (sv\<lparr>sv_alive := b\<rparr>) \<longleftrightarrow> wf_out sv" "wf_out (sv\<lparr>sv_flags := fl\<rparr>) \<longleftrightarrow> wf_out sv"
  "wf_out (pending_insert k a sv) \<longleftrightarrow> wf_out sv"
  by (auto simp: wf_out_def pending_insert_def)

lemma wf_out_dispatch: "wf_out sv \<Longrightarrow> wf_out (dispatch ho conn msg sv)"
  by (auto simp: dispatch_def enqueue_def pending_interrupt_def Let_def split: option.split)

lemma wf_out_step: "interp_step ho sv sv' \<Longrightarrow> wf_out sv \<Longrightarrow> wf_out sv'"
proof (induction rule: interp_step.induct)
  case (take_job sv j js ho micros)
  then show ?case
    using wf_handle_op [of _ ho micros j "sv_engine sv"]
    by (auto simp: start_job_def Let_def split: prod.splits begun.splits)
next
  case (eval_form sv r ho sv')
  then show ?case
    by (auto simp: eval_step_def finish_eval_def Let_def split: list.splits if_splits dest: wf_eval_one)
qed

lemma reaches_wf_out: "reaches ho sv recvd \<Longrightarrow> wf_out sv"
  by (induction rule: reaches.induct)
    (auto simp: wf_out_dispatch wf_out_step, simp add: wf_out_def server_new_def)

definition replies_to :: "nat \<Rightarrow> 'v server \<Rightarrow> bencode list" where
  "replies_to conn sv = map snd (filter (\<lambda>r. fst r = conn) (sv_out sv))"

lemma replies_wf: "reaches ho sv recvd \<Longrightarrow> \<forall>m \<in> set (replies_to conn sv). wf_bencode m"
  using reaches_wf_out [of ho sv recvd] by (auto simp: replies_to_def wf_out_def)



section \<open>Sessions\<close>

lemma persist_stars_roots:
  "persist_stars sid s g =
     fold (\<lambda>(k, v). intern_root k v) (map (\<lambda>(slot, v). ((state_ns, slot_name sid slot), v)) (zip star_slots (se_stars s))) g"
  by (simp add: persist_stars_def fold_map intern_root_def [abs_def] split_def comp_def)

text \<open>
  The value history is kept per session.  When a form evaluates to \<open>v\<close>, the values that
  the end of the evaluation retains for the session are \<open>v\<close>, the previous \<open>*1\<close> and \<open>*2\<close>, and
  the last exception, each under the name of its slot; no other root of any namespace changes.
\<close>

theorem history_retained:
  assumes "wf_globals g" and "se_stars s = [a, b, c, e]"
  shows "map (\<lambda>slot. ns_root (persist_stars sid (shift_stars v s) g) (state_ns, slot_name sid slot)) star_slots =
      [Some v, Some a, Some b, Some e] \<and>
    (\<forall>k. k \<notin> (\<lambda>slot. (state_ns, slot_name sid slot)) ` set star_slots \<longrightarrow>
       ns_root (persist_stars sid (shift_stars v s) g) k = ns_root g k)"
proof -
  have "zip star_slots (se_stars (shift_stars v s)) = [(''1'', v), (''2'', a), (''3'', b), (''e'', e)]"
    by (simp add: star_slots_def shift_stars_def assms(2) numeral_2_eq_2)
  then show ?thesis
    by (simp add: persist_stars_roots ns_roots.root_def ns_roots.inv_def assms(1) star_slots_def slot_name_def)
qed

section \<open>Completions\<close>

lemma split_once_append: "split_once c p = Some (a, b) \<Longrightarrow> p = a @ c # b"
  by (induction p arbitrary: a) (auto split: if_splits)

lemma remdups_adj_strict: "sorted xs \<Longrightarrow> sorted_wrt (<) (remdups_adj xs)"
  by (induction xs rule: remdups_adj.induct) (auto simp: order.order_iff_strict)



end
