(* ===== verification/Collections.thy ===== *)
theory Collections
  imports Prelude
begin

text \<open>
  The collections of \<^verbatim>\<open>crates/cljrs-value/src/collections\<close>: lists, vectors, queues, array maps, hash
  maps and sets with their insertion order, comparator-sorted maps and sets, transients, and
  the \<open>MapValue\<close> of \<^verbatim>\<open>value.rs\<close> that chooses between the maps.

  Values are compared with Clojure's \<open>=\<close>, which identifies values that are not the same
  (a list and a vector with equal elements, say), so equality is an argument \<open>eq\<close> of the
  definitions and the keys kept in a map can be told apart from the keys looked up.  The
  persistent structures of the package \<open>rpds\<close> are arguments too: records of the operations
  the code calls.
\<close>

section \<open>Interfaces of the persistent structures\<close>

record ('t, 'a) vec_ops =
  vo_new :: 't
  vo_len :: "'t \<Rightarrow> nat"
  vo_get :: "'t \<Rightarrow> nat \<Rightarrow> 'a option"
  vo_push_back :: "'t \<Rightarrow> 'a \<Rightarrow> 't"
  vo_set :: "'t \<Rightarrow> nat \<Rightarrow> 'a \<Rightarrow> 't option"
  vo_drop_last :: "'t \<Rightarrow> 't option"
  vo_iter :: "'t \<Rightarrow> 'a list"

text \<open>What the documentation of \<open>rpds::Vector\<close> says, in terms of the iterated elements.\<close>

definition vec_laws :: "('t, 'a) vec_ops \<Rightarrow> bool" where
  "vec_laws vo \<longleftrightarrow>
     vo_iter vo (vo_new vo) = [] \<and>
     (\<forall>t. vo_len vo t = length (vo_iter vo t)) \<and>
     (\<forall>t i. vo_get vo t i = (if i < length (vo_iter vo t) then Some (vo_iter vo t ! i) else None)) \<and>
     (\<forall>t x. vo_iter vo (vo_push_back vo t x) = vo_iter vo t @ [x]) \<and>
     (\<forall>t i x. map_option (vo_iter vo) (vo_set vo t i x) =
        (if i < length (vo_iter vo t) then Some ((vo_iter vo t)[i := x]) else None)) \<and>
     (\<forall>t. map_option (vo_iter vo) (vo_drop_last vo t) =
        (if vo_iter vo t = [] then None else Some (butlast (vo_iter vo t))))"

record ('t, 'k, 'v) map_ops =
  mo_new :: 't
  mo_get :: "'t \<Rightarrow> 'k \<Rightarrow> 'v option"
  mo_insert :: "'t \<Rightarrow> 'k \<Rightarrow> 'v \<Rightarrow> 't"
  mo_remove :: "'t \<Rightarrow> 'k \<Rightarrow> 't"
  mo_size :: "'t \<Rightarrow> nat"
  mo_iter :: "'t \<Rightarrow> ('k \<times> 'v) list"

text \<open>
  \<open>rpds::HashTrieMap\<close> with keys hashed and compared by \<open>eq\<close>: equal keys are one key, and the
  size is the number of keys.
\<close>

definition hash_laws :: "('k \<Rightarrow> 'k \<Rightarrow> bool) \<Rightarrow> ('t, 'k, 'v) map_ops \<Rightarrow> bool" where
  "hash_laws eq mo \<longleftrightarrow>
     (\<forall>k. mo_get mo (mo_new mo) k = None) \<and> mo_size mo (mo_new mo) = 0 \<and>
     (\<forall>t k j. eq k j \<longrightarrow> mo_get mo t k = mo_get mo t j) \<and>
     (\<forall>t k v j. mo_get mo (mo_insert mo t k v) j = (if eq k j then Some v else mo_get mo t j)) \<and>
     (\<forall>t k j. mo_get mo (mo_remove mo t k) j = (if eq k j then None else mo_get mo t j)) \<and>
     (\<forall>t k v. mo_size mo (mo_insert mo t k v) = mo_size mo t + (if mo_get mo t k = None then 1 else 0)) \<and>
     (\<forall>t k. mo_size mo (mo_remove mo t k) = mo_size mo t - (if mo_get mo t k = None then 0 else 1))"

text \<open>\<open>rpds::RedBlackTreeMap\<close> with \<open>u64\<close> keys: iteration is in ascending key order.\<close>

definition tree_laws :: "('t, 'k :: linorder, 'v) map_ops \<Rightarrow> bool" where
  "tree_laws mo \<longleftrightarrow>
     mo_iter mo (mo_new mo) = [] \<and>
     (\<forall>t k. mo_get mo t k = map_of (mo_iter mo t) k) \<and>
     (\<forall>t k v. mo_iter mo (mo_insert mo t k v) = put_sorted k v (mo_iter mo t)) \<and>
     (\<forall>t k. mo_iter mo (mo_remove mo t k) = filter (\<lambda>e. fst e \<noteq> k) (mo_iter mo t))"

section \<open>Lists\<close>

datatype 'a plist = PEmpty | PCons 'a "'a plist" nat

fun list_count :: "'a plist \<Rightarrow> nat" where
  "list_count PEmpty = 0"
| "list_count (PCons x l n) = n"

definition list_cons :: "'a \<Rightarrow> 'a plist \<Rightarrow> 'a plist" where
  "list_cons x l = PCons x l (list_count l + 1)"

fun list_is_empty :: "'a plist \<Rightarrow> bool" where
  "list_is_empty PEmpty = True"
| "list_is_empty (PCons x l n) = False"

fun list_first :: "'a plist \<Rightarrow> 'a option" where
  "list_first PEmpty = None"
| "list_first (PCons x l n) = Some x"

fun list_rest :: "'a plist \<Rightarrow> 'a plist" where
  "list_rest PEmpty = PEmpty"
| "list_rest (PCons x l n) = l"

fun list_iter :: "'a plist \<Rightarrow> 'a list" where
  "list_iter PEmpty = []"
| "list_iter (PCons x l n) = x # list_iter l"

definition list_from_iter :: "'a list \<Rightarrow> 'a plist" where
  "list_from_iter xs = fold list_cons (rev xs) PEmpty"

definition list_eq :: "('a \<Rightarrow> 'a \<Rightarrow> bool) \<Rightarrow> 'a plist \<Rightarrow> 'a plist \<Rightarrow> bool" where
  "list_eq eq a b \<longleftrightarrow>
     (if list_count a \<noteq> list_count b then False
      else list_all (\<lambda>(x, y). eq x y) (zip (list_iter a) (list_iter b)))"

section \<open>Vectors\<close>

record 't pvector =
  pv_inner :: 't
  pv_is_map_entry :: bool

definition vector_empty :: "('t, 'a) vec_ops \<Rightarrow> 't pvector" where
  "vector_empty vo = \<lparr>pv_inner = vo_new vo, pv_is_map_entry = False\<rparr>"

definition from_vector :: "'t \<Rightarrow> 't pvector" where
  "from_vector t = \<lparr>pv_inner = t, pv_is_map_entry = False\<rparr>"

definition map_entry :: "('t, 'a) vec_ops \<Rightarrow> 'a \<Rightarrow> 'a \<Rightarrow> 't pvector" where
  "map_entry vo k v =
     \<lparr>pv_inner = vo_push_back vo (vo_push_back vo (vo_new vo) k) v, pv_is_map_entry = True\<rparr>"

definition vector_count :: "('t, 'a) vec_ops \<Rightarrow> 't pvector \<Rightarrow> nat" where
  "vector_count vo v = vo_len vo (pv_inner v)"

definition vector_conj :: "('t, 'a) vec_ops \<Rightarrow> 't pvector \<Rightarrow> 'a \<Rightarrow> 't pvector" where
  "vector_conj vo v x = \<lparr>pv_inner = vo_push_back vo (pv_inner v) x, pv_is_map_entry = False\<rparr>"

definition vector_nth :: "('t, 'a) vec_ops \<Rightarrow> 't pvector \<Rightarrow> nat \<Rightarrow> 'a option" where
  "vector_nth vo v i = vo_get vo (pv_inner v) i"

definition assoc_nth :: "('t, 'a) vec_ops \<Rightarrow> 't pvector \<Rightarrow> nat \<Rightarrow> 'a \<Rightarrow> 't pvector option" where
  "assoc_nth vo v i x =
     (if i = vo_len vo (pv_inner v) then Some (vector_conj vo v x)
      else map_option (\<lambda>t. \<lparr>pv_inner = t, pv_is_map_entry = False\<rparr>) (vo_set vo (pv_inner v) i x))"

definition vector_pop :: "('t, 'a) vec_ops \<Rightarrow> 't pvector \<Rightarrow> 't pvector option" where
  "vector_pop vo v = map_option (\<lambda>t. \<lparr>pv_inner = t, pv_is_map_entry = False\<rparr>) (vo_drop_last vo (pv_inner v))"

definition vector_iter :: "('t, 'a) vec_ops \<Rightarrow> 't pvector \<Rightarrow> 'a list" where
  "vector_iter vo v = vo_iter vo (pv_inner v)"

definition vector_from_iter :: "('t, 'a) vec_ops \<Rightarrow> 'a list \<Rightarrow> 't pvector" where
  "vector_from_iter vo xs =
     \<lparr>pv_inner = fold (\<lambda>x t. vo_push_back vo t x) xs (vo_new vo), pv_is_map_entry = False\<rparr>"

definition vector_eq :: "('a \<Rightarrow> 'a \<Rightarrow> bool) \<Rightarrow> ('t, 'a) vec_ops \<Rightarrow> 't pvector \<Rightarrow> 't pvector \<Rightarrow> bool" where
  "vector_eq eq vo a b \<longleftrightarrow>
     (if vector_count vo a \<noteq> vector_count vo b then False
      else list_all (\<lambda>(x, y). eq x y) (zip (vector_iter vo a) (vector_iter vo b)))"

section \<open>Queues\<close>

record ('t, 'a) pqueue =
  pq_front :: "'a plist"
  pq_rear :: "'t pvector"
  pq_count :: nat

definition queue_empty :: "('t, 'a) vec_ops \<Rightarrow> ('t, 'a) pqueue" where
  "queue_empty vo = \<lparr>pq_front = PEmpty, pq_rear = vector_empty vo, pq_count = 0\<rparr>"

definition queue_new :: "('t, 'a) vec_ops \<Rightarrow> 'a plist \<Rightarrow> 't pvector \<Rightarrow> ('t, 'a) pqueue" where
  "queue_new vo front rear =
     \<lparr>pq_front = front, pq_rear = rear, pq_count = list_count front + vector_count vo rear\<rparr>"

definition queue_conj :: "('t, 'a) vec_ops \<Rightarrow> ('t, 'a) pqueue \<Rightarrow> 'a \<Rightarrow> ('t, 'a) pqueue" where
  "queue_conj vo q x =
     \<lparr>pq_front = pq_front q, pq_rear = vector_conj vo (pq_rear q) x, pq_count = pq_count q + 1\<rparr>"

definition queue_peek :: "('t, 'a) vec_ops \<Rightarrow> ('t, 'a) pqueue \<Rightarrow> 'a option" where
  "queue_peek vo q =
     (if list_is_empty (pq_front q) then vector_nth vo (pq_rear q) 0 else list_first (pq_front q))"

definition queue_pop :: "('t, 'a) vec_ops \<Rightarrow> ('t, 'a) pqueue \<Rightarrow> ('t, 'a) pqueue option" where
  "queue_pop vo q =
     (if pq_count q = 0 then None
      else if \<not> list_is_empty (pq_front q) then
        let new_front = list_rest (pq_front q)
        in if list_is_empty new_front \<and> vector_count vo (pq_rear q) \<noteq> 0
           then Some \<lparr>pq_front = list_from_iter (vector_iter vo (pq_rear q)), pq_rear = vector_empty vo,
                      pq_count = pq_count q - 1\<rparr>
           else Some \<lparr>pq_front = new_front, pq_rear = pq_rear q, pq_count = pq_count q - 1\<rparr>
      else
        Some \<lparr>pq_front = list_rest (list_from_iter (vector_iter vo (pq_rear q))), pq_rear = vector_empty vo,
              pq_count = pq_count q - 1\<rparr>)"

definition queue_iter :: "('t, 'a) vec_ops \<Rightarrow> ('t, 'a) pqueue \<Rightarrow> 'a list" where
  "queue_iter vo q = list_iter (pq_front q) @ vector_iter vo (pq_rear q)"

definition queue_eq :: "('a \<Rightarrow> 'a \<Rightarrow> bool) \<Rightarrow> ('t, 'a) vec_ops \<Rightarrow> ('t, 'a) pqueue \<Rightarrow> ('t, 'a) pqueue \<Rightarrow> bool" where
  "queue_eq eq vo a b \<longleftrightarrow>
     (if pq_count a \<noteq> pq_count b then False
      else list_all (\<lambda>(x, y). eq x y) (zip (queue_iter vo a) (queue_iter vo b)))"

section \<open>Array maps\<close>

text \<open>The flat vector \<open>[k0, v0, k1, v1, \<dots>]\<close>, always of even length.\<close>

type_synonym 'v array_map = "'v list"

datatype 'v assoc_result = Arr "'v array_map" | Promote "('v \<times> 'v) list"

definition threshold :: nat where
  "threshold = 8"

definition am_count :: "'v array_map \<Rightarrow> nat" where
  "am_count e = length e div 2"

fun am_get :: "('v \<Rightarrow> 'v \<Rightarrow> bool) \<Rightarrow> 'v array_map \<Rightarrow> 'v \<Rightarrow> 'v option" where
  "am_get eq (k # v # e) key = (if eq k key then Some v else am_get eq e key)"
| "am_get eq _ key = None"

fun am_iter :: "'v array_map \<Rightarrow> ('v \<times> 'v) list" where
  "am_iter (k # v # e) = (k, v) # am_iter e"
| "am_iter _ = []"

text \<open>The loop of \<open>assoc\<close> that replaces the value of a key that is present.\<close>

fun am_replace :: "('v \<Rightarrow> 'v \<Rightarrow> bool) \<Rightarrow> 'v array_map \<Rightarrow> 'v \<Rightarrow> 'v \<Rightarrow> 'v array_map option" where
  "am_replace eq (k # v # e) key x =
     (if eq k key then Some (k # x # e) else map_option (\<lambda>e'. k # v # e') (am_replace eq e key x))"
| "am_replace eq _ key x = None"

definition am_assoc :: "('v \<Rightarrow> 'v \<Rightarrow> bool) \<Rightarrow> 'v array_map \<Rightarrow> 'v \<Rightarrow> 'v \<Rightarrow> 'v assoc_result" where
  "am_assoc eq e key x =
     (case am_replace eq e key x of
        Some e' \<Rightarrow> Arr e'
      | None \<Rightarrow>
          let new_entries = e @ [key, x]
          in if threshold < length new_entries div 2 then Promote (am_iter new_entries) else Arr new_entries)"

fun am_dissoc :: "('v \<Rightarrow> 'v \<Rightarrow> bool) \<Rightarrow> 'v array_map \<Rightarrow> 'v \<Rightarrow> 'v array_map" where
  "am_dissoc eq (k # v # e) key = (if eq k key then e else k # v # am_dissoc eq e key)"
| "am_dissoc eq e key = e"

definition am_from_flat_entries :: "'v list \<Rightarrow> 'v assoc_result" where
  "am_from_flat_entries e = (if threshold < length e div 2 then Promote (am_iter e) else Arr e)"

text \<open>The pairs that are left after a promotion go into the vector of pairs; the last wins.\<close>

fun promoted_put :: "('k \<Rightarrow> 'k \<Rightarrow> bool) \<Rightarrow> 'k \<Rightarrow> 'v \<Rightarrow> ('k \<times> 'v) list \<Rightarrow> ('k \<times> 'v) list" where
  "promoted_put eq k v [] = [(k, v)]"
| "promoted_put eq k v ((j, w) # al) = (if eq j k then (j, v) # al else (j, w) # promoted_put eq k v al)"

fun am_from_pairs :: "('v \<Rightarrow> 'v \<Rightarrow> bool) \<Rightarrow> 'v array_map \<Rightarrow> ('v \<times> 'v) list \<Rightarrow> 'v assoc_result" where
  "am_from_pairs eq e [] = Arr e"
| "am_from_pairs eq e ((k, v) # kvs) =
     (case am_assoc eq e k v of
        Arr e' \<Rightarrow> am_from_pairs eq e' kvs
      | Promote pairs \<Rightarrow> Promote (fold (\<lambda>(k, v). promoted_put eq k v) kvs pairs))"

definition am_eq :: "('v \<Rightarrow> 'v \<Rightarrow> bool) \<Rightarrow> 'v array_map \<Rightarrow> 'v array_map \<Rightarrow> bool" where
  "am_eq eq a b \<longleftrightarrow>
     (if am_count a \<noteq> am_count b then False
      else list_all (\<lambda>(k, v). case am_get eq b k of Some w \<Rightarrow> eq w v | None \<Rightarrow> False) (am_iter a))"

section \<open>Hash maps\<close>

record ('i, 'o, 'k, 'e) hash_ops =
  hx_index :: "('i, 'k, nat) map_ops"
  hx_order :: "('o, nat, 'e) map_ops"

record ('i, 'o) hash_map =
  hm_index :: 'i
  hm_order :: 'o
  hm_next_seq :: nat

definition hm_empty :: "('i, 'o, 'k, 'e) hash_ops \<Rightarrow> ('i, 'o) hash_map" where
  "hm_empty hx = \<lparr>hm_index = mo_new (hx_index hx), hm_order = mo_new (hx_order hx), hm_next_seq = 0\<rparr>"

definition hm_count :: "('i, 'o, 'k, 'e) hash_ops \<Rightarrow> ('i, 'o) hash_map \<Rightarrow> nat" where
  "hm_count hx m = mo_size (hx_index hx) (hm_index m)"

definition hm_get :: "('i, 'o, 'k, 'k \<times> 'v) hash_ops \<Rightarrow> ('i, 'o) hash_map \<Rightarrow> 'k \<Rightarrow> 'v option" where
  "hm_get hx m key =
     Option.bind (mo_get (hx_index hx) (hm_index m) key)
       (\<lambda>seq. map_option snd (mo_get (hx_order hx) (hm_order m) seq))"

definition hm_contains_key :: "('i, 'o, 'k, 'e) hash_ops \<Rightarrow> ('i, 'o) hash_map \<Rightarrow> 'k \<Rightarrow> bool" where
  "hm_contains_key hx m key \<longleftrightarrow> mo_get (hx_index hx) (hm_index m) key \<noteq> None"

definition hm_assoc :: "('i, 'o, 'k, 'k \<times> 'v) hash_ops \<Rightarrow> ('i, 'o) hash_map \<Rightarrow> 'k \<Rightarrow> 'v \<Rightarrow> ('i, 'o) hash_map" where
  "hm_assoc hx m key x =
     (case mo_get (hx_index hx) (hm_index m) key of
        Some seq \<Rightarrow> m\<lparr>hm_order := mo_insert (hx_order hx) (hm_order m) seq (key, x)\<rparr>
      | None \<Rightarrow>
          let seq = hm_next_seq m
          in \<lparr>hm_index = mo_insert (hx_index hx) (hm_index m) key seq,
              hm_order = mo_insert (hx_order hx) (hm_order m) seq (key, x),
              hm_next_seq = seq + 1\<rparr>)"

definition hm_dissoc :: "('i, 'o, 'k, 'e) hash_ops \<Rightarrow> ('i, 'o) hash_map \<Rightarrow> 'k \<Rightarrow> ('i, 'o) hash_map" where
  "hm_dissoc hx m key =
     (case mo_get (hx_index hx) (hm_index m) key of
        Some seq \<Rightarrow> m\<lparr>hm_index := mo_remove (hx_index hx) (hm_index m) key,
                      hm_order := mo_remove (hx_order hx) (hm_order m) seq\<rparr>
      | None \<Rightarrow> m)"

definition hm_iter :: "('i, 'o, 'k, 'e) hash_ops \<Rightarrow> ('i, 'o) hash_map \<Rightarrow> 'e list" where
  "hm_iter hx m = map snd (mo_iter (hx_order hx) (hm_order m))"

definition hm_keys :: "('i, 'o, 'k, 'k \<times> 'v) hash_ops \<Rightarrow> ('i, 'o) hash_map \<Rightarrow> 'k list" where
  "hm_keys hx m = map fst (hm_iter hx m)"

definition hm_vals :: "('i, 'o, 'k, 'k \<times> 'v) hash_ops \<Rightarrow> ('i, 'o) hash_map \<Rightarrow> 'v list" where
  "hm_vals hx m = map snd (hm_iter hx m)"

definition hm_merge :: "('i, 'o, 'k, 'k \<times> 'v) hash_ops \<Rightarrow> ('i, 'o) hash_map \<Rightarrow> ('i, 'o) hash_map \<Rightarrow> ('i, 'o) hash_map" where
  "hm_merge hx m other = fold (\<lambda>(k, v) r. hm_assoc hx r k v) (hm_iter hx other) m"

definition hm_from_pairs :: "('i, 'o, 'k, 'k \<times> 'v) hash_ops \<Rightarrow> ('k \<times> 'v) list \<Rightarrow> ('i, 'o) hash_map" where
  "hm_from_pairs hx kvs = fold (\<lambda>(k, v) m. hm_assoc hx m k v) kvs (hm_empty hx)"

definition hm_from_array_map :: "('i, 'o, 'k, 'k \<times> 'k) hash_ops \<Rightarrow> 'k array_map \<Rightarrow> ('i, 'o) hash_map" where
  "hm_from_array_map hx am = hm_from_pairs hx (am_iter am)"

definition hm_eq :: "('v \<Rightarrow> 'v \<Rightarrow> bool) \<Rightarrow> ('i, 'o, 'k, 'k \<times> 'v) hash_ops \<Rightarrow> ('i, 'o) hash_map \<Rightarrow> ('i, 'o) hash_map \<Rightarrow> bool" where
  "hm_eq eq hx a b \<longleftrightarrow>
     (if hm_count hx a \<noteq> hm_count hx b then False
      else list_all (\<lambda>(k, v). case hm_get hx b k of Some w \<Rightarrow> eq w v | None \<Rightarrow> False) (hm_iter hx a))"

section \<open>Hash sets\<close>

text \<open>The same two structures, with the element itself in the ordered one.\<close>

definition hs_conj :: "('i, 'o, 'k, 'k) hash_ops \<Rightarrow> ('i, 'o) hash_map \<Rightarrow> 'k \<Rightarrow> ('i, 'o) hash_map" where
  "hs_conj hx m x =
     (if hm_contains_key hx m x then m
      else let seq = hm_next_seq m
           in \<lparr>hm_index = mo_insert (hx_index hx) (hm_index m) x seq,
               hm_order = mo_insert (hx_order hx) (hm_order m) seq x,
               hm_next_seq = seq + 1\<rparr>)"

definition hs_from_iter :: "('i, 'o, 'k, 'k) hash_ops \<Rightarrow> 'k list \<Rightarrow> ('i, 'o) hash_map" where
  "hs_from_iter hx xs = fold (\<lambda>x m. hs_conj hx m x) xs (hm_empty hx)"

definition hs_eq :: "('i, 'o, 'k, 'k) hash_ops \<Rightarrow> ('i, 'o) hash_map \<Rightarrow> ('i, 'o) hash_map \<Rightarrow> bool" where
  "hs_eq hx a b \<longleftrightarrow>
     (if hm_count hx a \<noteq> hm_count hx b then False
      else list_all (hm_contains_key hx b) (hm_iter hx a))"

section \<open>Comparator-sorted maps and sets\<close>

datatype ordering = Ord_Less | Ord_Equal | Ord_Greater

text \<open>
  \<open>binary_search\<close> between \<open>lo\<close> and \<open>hi\<close>: an error of the comparator, \<open>Inr (Inr i)\<close> for an equal
  element at \<open>i\<close>, \<open>Inr (Inl i)\<close> for the insertion point.
\<close>

function binary_search :: "(nat \<Rightarrow> 'e + ordering) \<Rightarrow> nat \<Rightarrow> nat \<Rightarrow> 'e + (nat + nat)" where
  "binary_search probe lo hi =
     (if lo < hi then
        let mid = (lo + hi) div 2
        in case probe mid of
             Inl e \<Rightarrow> Inl e
           | Inr Ord_Less \<Rightarrow> binary_search probe (mid + 1) hi
           | Inr Ord_Greater \<Rightarrow> binary_search probe lo mid
           | Inr Ord_Equal \<Rightarrow> Inr (Inr mid)
      else Inr (Inl lo))"
  by pat_completeness auto

termination
  by (relation "measure (\<lambda>(probe, lo, hi). hi - lo)") auto

declare binary_search.simps [simp del]

record ('c, 'v) sorted_by =
  sb_comparator :: 'c
  sb_items :: "'v list"

definition list_insert :: "nat \<Rightarrow> 'a \<Rightarrow> 'a list \<Rightarrow> 'a list" where
  "list_insert i x xs = take i xs @ x # drop i xs"

definition sbm_assoc_with ::
  "('k \<Rightarrow> 'k \<Rightarrow> 'e + ordering) \<Rightarrow> ('c, 'k \<times> 'v) sorted_by \<Rightarrow> 'k \<Rightarrow> 'v \<Rightarrow> 'e + ('c, 'k \<times> 'v) sorted_by" where
  "sbm_assoc_with cmp m key x =
     (case binary_search (\<lambda>i. cmp (fst (sb_items m ! i)) key) 0 (length (sb_items m)) of
        Inl e \<Rightarrow> Inl e
      | Inr (Inr i) \<Rightarrow> Inr (m\<lparr>sb_items := (sb_items m)[i := (key, x)]\<rparr>)
      | Inr (Inl i) \<Rightarrow> Inr (m\<lparr>sb_items := list_insert i (key, x) (sb_items m)\<rparr>))"

definition sbm_get :: "('k \<Rightarrow> 'k \<Rightarrow> bool) \<Rightarrow> ('c, 'k \<times> 'v) sorted_by \<Rightarrow> 'k \<Rightarrow> 'v option" where
  "sbm_get eq m key = map_option snd (find (\<lambda>(k, v). eq k key) (sb_items m))"

definition sbm_dissoc :: "('k \<Rightarrow> 'k \<Rightarrow> bool) \<Rightarrow> ('c, 'k \<times> 'v) sorted_by \<Rightarrow> 'k \<Rightarrow> ('c, 'k \<times> 'v) sorted_by" where
  "sbm_dissoc eq m key = m\<lparr>sb_items := filter (\<lambda>(k, v). \<not> eq k key) (sb_items m)\<rparr>"

definition sbs_conj_with :: "('k \<Rightarrow> 'k \<Rightarrow> 'e + ordering) \<Rightarrow> ('c, 'k) sorted_by \<Rightarrow> 'k \<Rightarrow> 'e + ('c, 'k) sorted_by" where
  "sbs_conj_with cmp m x =
     (case binary_search (\<lambda>i. cmp (sb_items m ! i) x) 0 (length (sb_items m)) of
        Inl e \<Rightarrow> Inl e
      | Inr (Inr i) \<Rightarrow> Inr m
      | Inr (Inl i) \<Rightarrow> Inr (m\<lparr>sb_items := list_insert i x (sb_items m)\<rparr>))"

definition sbs_contains :: "('k \<Rightarrow> 'k \<Rightarrow> bool) \<Rightarrow> ('c, 'k) sorted_by \<Rightarrow> 'k \<Rightarrow> bool" where
  "sbs_contains eq m x \<longleftrightarrow> list_ex (\<lambda>y. eq y x) (sb_items m)"

definition sbs_push_if_absent :: "('k \<Rightarrow> 'k \<Rightarrow> bool) \<Rightarrow> 'k \<Rightarrow> ('c, 'k) sorted_by \<Rightarrow> ('c, 'k) sorted_by" where
  "sbs_push_if_absent eq x m = (if sbs_contains eq m x then m else m\<lparr>sb_items := sb_items m @ [x]\<rparr>)"

definition sbs_disj :: "('k \<Rightarrow> 'k \<Rightarrow> bool) \<Rightarrow> ('c, 'k) sorted_by \<Rightarrow> 'k \<Rightarrow> ('c, 'k) sorted_by" where
  "sbs_disj eq m x = m\<lparr>sb_items := filter (\<lambda>y. \<not> eq y x) (sb_items m)\<rparr>"

section \<open>Map values\<close>

text \<open>The tree behind \<open>SortedMap\<close> is an argument, a \<open>RedBlackTreeMap\<close> ordered by the values.\<close>

record ('i, 'o, 's, 'v) map_env =
  me_eq :: "'v \<Rightarrow> 'v \<Rightarrow> bool"
  me_hash :: "('i, 'o, 'v, 'v \<times> 'v) hash_ops"
  me_sorted :: "('s, 'v, 'v) map_ops"

datatype ('i, 'o, 's, 'c, 'v) map_value =
    MV_Array "'v array_map"
  | MV_Hash "('i, 'o) hash_map"
  | MV_Sorted 's
  | MV_SortedBy "('c, 'v \<times> 'v) sorted_by"

definition mv_promote :: "('i, 'o, 's, 'v) map_env \<Rightarrow> 'v assoc_result \<Rightarrow> ('i, 'o, 's, 'c, 'v) map_value" where
  "mv_promote me r =
     (case r of Arr m \<Rightarrow> MV_Array m | Promote pairs \<Rightarrow> MV_Hash (hm_from_pairs (me_hash me) pairs))"

definition mv_empty :: "('i, 'o, 's, 'c, 'v) map_value" where
  "mv_empty = MV_Array []"

definition mv_from_pairs :: "('i, 'o, 's, 'v) map_env \<Rightarrow> ('v \<times> 'v) list \<Rightarrow> ('i, 'o, 's, 'c, 'v) map_value" where
  "mv_from_pairs me pairs = mv_promote me (am_from_pairs (me_eq me) [] pairs)"

definition mv_from_flat_entries :: "('i, 'o, 's, 'v) map_env \<Rightarrow> 'v list \<Rightarrow> ('i, 'o, 's, 'c, 'v) map_value" where
  "mv_from_flat_entries me e = mv_from_pairs me (am_iter e)"

fun mv_get :: "('i, 'o, 's, 'v) map_env \<Rightarrow> ('i, 'o, 's, 'c, 'v) map_value \<Rightarrow> 'v \<Rightarrow> 'v option" where
  "mv_get me (MV_Array m) key = am_get (me_eq me) m key"
| "mv_get me (MV_Hash m) key = hm_get (me_hash me) m key"
| "mv_get me (MV_Sorted m) key = mo_get (me_sorted me) m key"
| "mv_get me (MV_SortedBy m) key = sbm_get (me_eq me) m key"

fun mv_count :: "('i, 'o, 's, 'v) map_env \<Rightarrow> ('i, 'o, 's, 'c, 'v) map_value \<Rightarrow> nat" where
  "mv_count me (MV_Array m) = am_count m"
| "mv_count me (MV_Hash m) = hm_count (me_hash me) m"
| "mv_count me (MV_Sorted m) = mo_size (me_sorted me) m"
| "mv_count me (MV_SortedBy m) = length (sb_items m)"

fun mv_assoc :: "('i, 'o, 's, 'v) map_env \<Rightarrow> ('i, 'o, 's, 'c, 'v) map_value \<Rightarrow> 'v \<Rightarrow> 'v \<Rightarrow> ('i, 'o, 's, 'c, 'v) map_value" where
  "mv_assoc me (MV_Array m) k v = mv_promote me (am_assoc (me_eq me) m k v)"
| "mv_assoc me (MV_Hash m) k v = MV_Hash (hm_assoc (me_hash me) m k v)"
| "mv_assoc me (MV_Sorted m) k v = MV_Sorted (mo_insert (me_sorted me) m k v)"
| "mv_assoc me (MV_SortedBy m) k v = MV_SortedBy (m\<lparr>sb_items := promoted_put (me_eq me) k v (sb_items m)\<rparr>)"

fun mv_dissoc :: "('i, 'o, 's, 'v) map_env \<Rightarrow> ('i, 'o, 's, 'c, 'v) map_value \<Rightarrow> 'v \<Rightarrow> ('i, 'o, 's, 'c, 'v) map_value" where
  "mv_dissoc me (MV_Array m) k = MV_Array (am_dissoc (me_eq me) m k)"
| "mv_dissoc me (MV_Hash m) k = MV_Hash (hm_dissoc (me_hash me) m k)"
| "mv_dissoc me (MV_Sorted m) k = MV_Sorted (mo_remove (me_sorted me) m k)"
| "mv_dissoc me (MV_SortedBy m) k = MV_SortedBy (sbm_dissoc (me_eq me) m k)"

fun mv_contains_key :: "('i, 'o, 's, 'v) map_env \<Rightarrow> ('i, 'o, 's, 'c, 'v) map_value \<Rightarrow> 'v \<Rightarrow> bool" where
  "mv_contains_key me (MV_Array m) k = (am_get (me_eq me) m k \<noteq> None)"
| "mv_contains_key me (MV_Hash m) k = hm_contains_key (me_hash me) m k"
| "mv_contains_key me (MV_Sorted m) k = (mo_get (me_sorted me) m k \<noteq> None)"
| "mv_contains_key me (MV_SortedBy m) k = list_ex (\<lambda>(j, v). me_eq me j k) (sb_items m)"

fun mv_iter :: "('i, 'o, 's, 'v) map_env \<Rightarrow> ('i, 'o, 's, 'c, 'v) map_value \<Rightarrow> ('v \<times> 'v) list" where
  "mv_iter me (MV_Array m) = am_iter m"
| "mv_iter me (MV_Hash m) = hm_iter (me_hash me) m"
| "mv_iter me (MV_Sorted m) = mo_iter (me_sorted me) m"
| "mv_iter me (MV_SortedBy m) = sb_items m"

section \<open>Transients\<close>

datatype value_error = TransientAlreadyPersisted | OutOfRange | IndexOutOfBounds nat nat

record 't transient =
  tr_inner :: 't
  tr_persisted :: bool

definition transient_new :: "'t \<Rightarrow> 't transient" where
  "transient_new t = \<lparr>tr_inner = t, tr_persisted = False\<rparr>"

text \<open>The guard every mutation starts with, and \<open>persistent\<close>.\<close>

definition transient_update :: "('t \<Rightarrow> value_error + 't) \<Rightarrow> 't transient \<Rightarrow> value_error + 't transient" where
  "transient_update f tr =
     (if tr_persisted tr then Inl TransientAlreadyPersisted
      else case f (tr_inner tr) of Inl e \<Rightarrow> Inl e | Inr t \<Rightarrow> Inr (tr\<lparr>tr_inner := t\<rparr>))"

definition persistent :: "'t transient \<Rightarrow> value_error + ('t \<times> 't transient)" where
  "persistent tr =
     (if tr_persisted tr then Inl TransientAlreadyPersisted
      else Inr (tr_inner tr, tr\<lparr>tr_persisted := True\<rparr>))"

definition tm_assoc :: "('i, 'o, 'k, 'k \<times> 'v) hash_ops \<Rightarrow> 'k \<Rightarrow> 'v \<Rightarrow>
    ('i, 'o) hash_map transient \<Rightarrow> value_error + ('i, 'o) hash_map transient" where
  "tm_assoc hx k v = transient_update (\<lambda>m. Inr (hm_assoc hx m k v))"

definition tm_dissoc :: "('i, 'o, 'k, 'e) hash_ops \<Rightarrow> 'k \<Rightarrow>
    ('i, 'o) hash_map transient \<Rightarrow> value_error + ('i, 'o) hash_map transient" where
  "tm_dissoc hx k = transient_update (\<lambda>m. Inr (hm_dissoc hx m k))"

definition tm_find :: "('i, 'o, 'k, 'k \<times> 'v) hash_ops \<Rightarrow> ('i, 'o) hash_map transient \<Rightarrow> 'k \<Rightarrow> ('v \<times> 'v) option" where
  "tm_find hx tr k = map_option (\<lambda>v. (v, v)) (hm_get hx (tr_inner tr) k)"

definition tv_append :: "('t, 'a) vec_ops \<Rightarrow> 'a \<Rightarrow> 't transient \<Rightarrow> value_error + 't transient" where
  "tv_append vo x = transient_update (\<lambda>t. Inr (vo_push_back vo t x))"

definition tv_pop :: "('t, 'a) vec_ops \<Rightarrow> 't transient \<Rightarrow> value_error + 't transient" where
  "tv_pop vo = transient_update (\<lambda>t. case vo_drop_last vo t of Some t' \<Rightarrow> Inr t' | None \<Rightarrow> Inl OutOfRange)"

text \<open>\<open>set_mut\<close> out of range changes nothing and says so, which the caller ignores.\<close>

definition tv_set :: "('t, 'a) vec_ops \<Rightarrow> nat \<Rightarrow> 'a \<Rightarrow> 't transient \<Rightarrow> value_error + 't transient" where
  "tv_set vo i x =
     transient_update (\<lambda>t.
       if vo_len vo t < i then Inl (IndexOutOfBounds i (vo_len vo t))
       else Inr (case vo_set vo t i x of Some t' \<Rightarrow> t' | None \<Rightarrow> t))"

definition ts_conj :: "('i, 'o, 'k, 'k) hash_ops \<Rightarrow> 'k \<Rightarrow>
    ('i, 'o) hash_map transient \<Rightarrow> value_error + ('i, 'o) hash_map transient" where
  "ts_conj hx x = transient_update (\<lambda>m. Inr (hs_conj hx m x))"

definition ts_disj :: "('i, 'o, 'k, 'e) hash_ops \<Rightarrow> 'k \<Rightarrow>
    ('i, 'o) hash_map transient \<Rightarrow> value_error + ('i, 'o) hash_map transient" where
  "ts_disj hx x = transient_update (\<lambda>m. Inr (hm_dissoc hx m x))"

end
