(* ===== verification/Collections_Spec.thy ===== *)
theory Collections_Spec
  imports Collections "HOL-Library.Finite_Map"
begin

text \<open>
  The contracts of the collections and the proofs that the code keeps them: queues are lists
  with two ends, maps keep their keys in insertion order through every representation,
  comparator-sorted collections stay sorted, and transients follow the persistent
  operations until they are made persistent.
\<close>

section \<open>The contract of queues\<close>

fun pops :: "('q \<Rightarrow> 'q option) \<Rightarrow> nat \<Rightarrow> 'q \<Rightarrow> 'q option" where
  "pops pop 0 q = Some q"
| "pops pop (Suc n) q = Option.bind (pop q) (pops pop n)"

locale fifo_queue =
  fixes inv :: "'q \<Rightarrow> bool" and elems :: "'q \<Rightarrow> 'a list"
    and conj :: "'q \<Rightarrow> 'a \<Rightarrow> 'q" and peek :: "'q \<Rightarrow> 'a option" and pop :: "'q \<Rightarrow> 'q option"
    and count :: "'q \<Rightarrow> nat"
  assumes conj_spec: "inv q \<Longrightarrow> inv (conj q x) \<and> elems (conj q x) = elems q @ [x]"
    and peek_spec: "inv q \<Longrightarrow> peek q = (case elems q of [] \<Rightarrow> None | x # xs \<Rightarrow> Some x)"
    and pop_empty: "inv q \<Longrightarrow> elems q = [] \<Longrightarrow> pop q = None"
    and pop_spec: "inv q \<Longrightarrow> elems q \<noteq> [] \<Longrightarrow> \<exists>q'. pop q = Some q' \<and> inv q' \<and> elems q' = tl (elems q)"
    and count_spec: "inv q \<Longrightarrow> count q = length (elems q)"
begin

lemma conjs: "inv q \<Longrightarrow> inv (fold (\<lambda>x q. conj q x) xs q) \<and> elems (fold (\<lambda>x q. conj q x) xs q) = elems q @ xs"
  by (induction xs arbitrary: q) (auto simp: conj_spec)

lemma pops_spec:
  "inv q \<Longrightarrow> n \<le> length (elems q) \<Longrightarrow> \<exists>q'. pops pop n q = Some q' \<and> inv q' \<and> elems q' = drop n (elems q)"
proof (induction n arbitrary: q)
  case (Suc n)
  then have "elems q \<noteq> []" by auto
  with pop_spec [OF Suc.prems(1)] obtain q1 where q1: "pop q = Some q1" "inv q1" "elems q1 = tl (elems q)" by blast
  with Suc.IH [of q1] Suc.prems(2) show ?case by (auto simp: drop_Suc)
qed simp

lemma first_in_first_out:
  assumes "inv q" "elems q = []" "n < length xs"
  shows "\<exists>q'. pops pop n (fold (\<lambda>x q. conj q x) xs q) = Some q' \<and> peek q' = Some (xs ! n)"
proof -
  note c = conjs [OF assms(1), of xs]
  from pops_spec [of "fold (\<lambda>x q. conj q x) xs q" n] c assms obtain q'
    where "pops pop n (fold (\<lambda>x q. conj q x) xs q) = Some q'" "inv q'" "elems q' = drop n xs" by auto
  with assms(3) show ?thesis by (auto simp: peek_spec Cons_nth_drop_Suc [symmetric])
qed

end

section \<open>Lists, vectors and queues\<close>

fun list_ok :: "'a plist \<Rightarrow> bool" where
  "list_ok PEmpty = True"
| "list_ok (PCons x l n) = (n = length (list_iter l) + 1 \<and> list_ok l)"

lemma list_count_iter: "list_ok l \<Longrightarrow> list_count l = length (list_iter l)"
  by (cases l) auto

lemma list_cons_ok [simp]: "list_ok l \<Longrightarrow> list_ok (list_cons x l)" "list_iter (list_cons x l) = x # list_iter l"
  by (simp_all add: list_cons_def list_count_iter)

lemma list_from_iter_ok [simp]: "list_ok (list_from_iter xs) \<and> list_iter (list_from_iter xs) = xs"
  by (induction xs) (simp_all add: list_from_iter_def)

lemma list_rest_ok: "list_ok l \<Longrightarrow> list_ok (list_rest l)" "list_iter (list_rest l) = tl (list_iter l)"
  by (cases l; simp)+

lemma list_is_empty_iter [simp]: "list_is_empty l \<longleftrightarrow> list_iter l = []"
  by (cases l) simp_all

lemma list_first_iter: "list_first l = (case list_iter l of [] \<Rightarrow> None | x # xs \<Rightarrow> Some x)"
  by (cases l) simp_all

lemma vec_lawsD:
  assumes "vec_laws vo"
  shows "vo_iter vo (vo_new vo) = []" "vo_len vo t = length (vo_iter vo t)"
    "vo_get vo t i = (if i < length (vo_iter vo t) then Some (vo_iter vo t ! i) else None)"
    "vo_iter vo (vo_push_back vo t x) = vo_iter vo t @ [x]"
    "map_option (vo_iter vo) (vo_set vo t i x) =
       (if i < length (vo_iter vo t) then Some ((vo_iter vo t)[i := x]) else None)"
    "map_option (vo_iter vo) (vo_drop_last vo t) =
       (if vo_iter vo t = [] then None else Some (butlast (vo_iter vo t)))"
  using assms by (simp_all add: vec_laws_def)

lemma vector_spec:
  assumes "vec_laws vo"
  shows "vector_iter vo (vector_empty vo) = []" "vector_count vo v = length (vector_iter vo v)"
    "vector_iter vo (vector_conj vo v x) = vector_iter vo v @ [x]"
    "vector_nth vo v i = (if i < length (vector_iter vo v) then Some (vector_iter vo v ! i) else None)"
  using vec_lawsD [OF assms]
  by (simp_all add: vector_iter_def vector_empty_def vector_count_def vector_conj_def vector_nth_def)

text \<open>
  The operations of a queue together with the vectors it is built on, and their invariant:
  the cached counts agree with the elements.
\<close>

definition queue_ok :: "('t, 'a) vec_ops \<Rightarrow> ('t, 'a) pqueue \<Rightarrow> bool" where
  "queue_ok vo q \<longleftrightarrow> vec_laws vo \<and> list_ok (pq_front q) \<and> pq_count q = length (queue_iter vo q)"

lemma queue_pop_spec:
  assumes "queue_ok vo q" "queue_iter vo q \<noteq> []"
  shows "\<exists>q'. queue_pop vo q = Some q' \<and> queue_ok vo q' \<and> queue_iter vo q' = tl (queue_iter vo q)"
proof -
  note v = vector_spec [of vo]
  show ?thesis
    using assms by (cases "list_iter (pq_front q)")
      (auto simp: queue_ok_def queue_pop_def queue_iter_def Let_def v list_rest_ok)
qed

interpretation queues: fifo_queue
  "\<lambda>(vo, q). queue_ok vo q" "\<lambda>(vo, q). queue_iter vo q" "\<lambda>(vo, q) x. (vo, queue_conj vo q x)"
  "\<lambda>(vo, q). queue_peek vo q" "\<lambda>(vo, q). map_option (Pair vo) (queue_pop vo q)" "\<lambda>(vo, q). pq_count q"
proof (unfold_locales, goal_cases)
  case (1 p x)
  then show ?case by (cases p) (auto simp: queue_ok_def queue_conj_def queue_iter_def vector_spec)
next
  case (2 p)
  then show ?case
    by (cases p) (auto simp: queue_ok_def queue_peek_def queue_iter_def vector_spec list_first_iter split: list.split)
next
  case (3 p)
  then show ?case by (cases p) (auto simp: queue_ok_def queue_pop_def)
next
  case (4 p)
  then show ?case using queue_pop_spec by (cases p) fastforce
next
  case (5 p)
  then show ?case by (cases p) (simp add: queue_ok_def)
qed

lemma queue_conjs_pair:
  "fold (\<lambda>x q. (case q of (vo, q) \<Rightarrow> \<lambda>x. (vo, queue_conj vo q x)) x) xs (vo, q) = (vo, fold (\<lambda>x q. queue_conj vo q x) xs q)"
  by (induction xs arbitrary: q) simp_all

lemma queue_pops_pair:
  "pops (\<lambda>(vo, q). map_option (Pair vo) (queue_pop vo q)) n (vo, q) = map_option (Pair vo) (pops (queue_pop vo) n q)"
  by (induction n arbitrary: q) (auto split: option.split bind_split)

lemma queue_empty_ok: "vec_laws vo \<Longrightarrow> queue_ok vo (queue_empty vo) \<and> queue_iter vo (queue_empty vo) = []"
  by (simp add: queue_ok_def queue_empty_def queue_iter_def vector_spec)

text \<open>
  Queues are first in, first out: from a queue filled with a sequence of elements the
  n-th \<open>pop\<close> succeeds and leaves the n-th element at the front, however the elements are
  split between the front list and the rear vector on the way, and the cached count is the
  number of elements left.
\<close>

theorem queue_first_in_first_out:
  assumes "vec_laws vo" and "n < length xs"
  shows "\<exists>q. pops (queue_pop vo) n (fold (\<lambda>x q. queue_conj vo q x) xs (queue_empty vo)) = Some q \<and>
    queue_peek vo q = Some (xs ! n) \<and> queue_iter vo q = drop n xs \<and> pq_count q = length xs - n"
proof -
  let ?q = "fold (\<lambda>x q. queue_conj vo q x) xs (queue_empty vo)"
  note empty = queue_empty_ok [OF assms(1)]
  have ok: "queue_ok vo ?q" "queue_iter vo ?q = xs"
    using queues.conjs [of "(vo, queue_empty vo)" xs] empty by (simp_all add: queue_conjs_pair)
  from queues.pops_spec [of "(vo, ?q)" n] ok assms(2) obtain q
    where q: "pops (queue_pop vo) n ?q = Some q" "queue_ok vo q" "queue_iter vo q = drop n xs"
    by (auto simp: queue_pops_pair)
  from queues.first_in_first_out [of "(vo, queue_empty vo)" n xs] empty assms(2) q(1)
  have "queue_peek vo q = Some (xs ! n)" by (simp add: queue_conjs_pair queue_pops_pair)
  with q show ?thesis by (auto simp: queue_ok_def)
qed

text \<open>Vectors as lists, which satisfy the laws.\<close>

definition list_vec :: "('a list, 'a) vec_ops" where
  "list_vec =
     \<lparr>vo_new = [], vo_len = length, vo_get = (\<lambda>t i. if i < length t then Some (t ! i) else None),
      vo_push_back = (\<lambda>t x. t @ [x]), vo_set = (\<lambda>t i x. if i < length t then Some (t[i := x]) else None),
      vo_drop_last = (\<lambda>t. if t = [] then None else Some (butlast t)), vo_iter = (\<lambda>t. t)\<rparr>"

lemma list_vec_laws: "vec_laws list_vec"
  by (simp add: vec_laws_def list_vec_def)

section \<open>The contract of maps\<close>

text \<open>
  Entries in iteration order, with keys compared by an equivalence: lookup, the absence of
  duplicates, and entries that are equal up to the instance of the key.
\<close>

definition lookup_eq :: "('k \<Rightarrow> 'k \<Rightarrow> bool) \<Rightarrow> ('k \<times> 'v) list \<Rightarrow> 'k \<Rightarrow> 'v option" where
  "lookup_eq eq al k = map_option snd (find (\<lambda>e. eq (fst e) k) al)"

definition distinct_eq :: "('k \<Rightarrow> 'k \<Rightarrow> bool) \<Rightarrow> ('k \<times> 'v) list \<Rightarrow> bool" where
  "distinct_eq eq al \<longleftrightarrow> sorted_wrt (\<lambda>a b. \<not> eq (fst a) (fst b)) al"

definition same_entries :: "('k \<Rightarrow> 'k \<Rightarrow> bool) \<Rightarrow> ('k \<times> 'v) list \<Rightarrow> ('k \<times> 'v) list \<Rightarrow> bool" where
  "same_entries eq = list_all2 (\<lambda>a b. eq (fst a) (fst b) \<and> snd a = snd b)"

lemma lookup_eq_simps [simp]:
  "lookup_eq eq [] k = None"
  "lookup_eq eq (e # al) k = (if eq (fst e) k then Some (snd e) else lookup_eq eq al k)"
  by (simp_all add: lookup_eq_def)

lemma lookup_same:
  assumes "equivp eq" "same_entries eq al bl"
  shows "lookup_eq eq al k = lookup_eq eq bl k"
  using assms(2) unfolding same_entries_def
proof (induction rule: list_all2_induct)
  case (Cons a al b bl)
  then have "eq (fst a) k \<longleftrightarrow> eq (fst b) k" using assms(1) by (metis equivp_def)
  with Cons show ?case by simp
qed simp

lemma same_refl: "equivp eq \<Longrightarrow> same_entries eq al al"
  by (auto simp: same_entries_def list_all2_conv_all_nth equivp_reflp)

lemma lookup_put:
  "equivp eq \<Longrightarrow> lookup_eq eq (promoted_put eq k v al) j = (if eq k j then Some v else lookup_eq eq al j)"
proof (induction al)
  case (Cons e al)
  have "eq (fst e) k \<Longrightarrow> eq (fst e) j \<longleftrightarrow> eq k j" "eq (fst e) j \<Longrightarrow> eq k j \<Longrightarrow> eq (fst e) k"
    using Cons.prems by (metis equivp_def)+
  with Cons show ?case by (cases e) auto
qed simp

lemma lookup_filter:
  "equivp eq \<Longrightarrow> lookup_eq eq (filter (\<lambda>e. \<not> eq (fst e) k) al) j = (if eq k j then None else lookup_eq eq al j)"
proof (induction al)
  case (Cons e al)
  have "eq (fst e) k \<Longrightarrow> eq (fst e) j \<longleftrightarrow> eq k j" "eq (fst e) j \<Longrightarrow> eq k j \<Longrightarrow> eq (fst e) k"
    using Cons.prems by (metis equivp_def)+
  with Cons show ?case by auto
qed simp

lemma same_length: "same_entries eq al bl \<Longrightarrow> length al = length bl"
  by (auto simp: same_entries_def list_all2_lengthD)

lemma same_trans: "equivp eq \<Longrightarrow> same_entries eq al bl \<Longrightarrow> same_entries eq bl cl \<Longrightarrow> same_entries eq al cl"
  unfolding same_entries_def by (erule (1) list_all2_trans [rotated]) (metis equivp_def)

lemma same_put:
  assumes "equivp eq" "same_entries eq al bl"
  shows "same_entries eq (promoted_put eq k v al) (promoted_put eq k v bl)"
  using assms(2) unfolding same_entries_def
proof (induction rule: list_all2_induct)
  case (Cons a al b bl)
  then have "eq (fst a) k \<longleftrightarrow> eq (fst b) k" using assms(1) by (metis equivp_def)
  with Cons show ?case by (cases a; cases b) auto
qed (simp add: assms(1) equivp_reflp)

lemma same_filter:
  assumes "equivp eq" "same_entries eq al bl"
  shows "same_entries eq (filter (\<lambda>e. \<not> eq (fst e) k) al) (filter (\<lambda>e. \<not> eq (fst e) k) bl)"
  using assms(2) unfolding same_entries_def
proof (induction rule: list_all2_induct)
  case (Cons a al b bl)
  then have "eq (fst a) k \<longleftrightarrow> eq (fst b) k" using assms(1) by (metis equivp_def)
  with Cons show ?case by auto
qed simp

text \<open>Updates as data, and their effect on the entries.\<close>

datatype ('k, 'v) map_update = Assoc 'k 'v | Dissoc 'k

fun update_with :: "('m \<Rightarrow> 'k \<Rightarrow> 'v \<Rightarrow> 'm) \<Rightarrow> ('m \<Rightarrow> 'k \<Rightarrow> 'm) \<Rightarrow> ('k, 'v) map_update \<Rightarrow> 'm \<Rightarrow> 'm" where
  "update_with assoc dissoc (Assoc k v) m = assoc m k v"
| "update_with assoc dissoc (Dissoc k) m = dissoc m k"

fun entries_step :: "('k \<Rightarrow> 'k \<Rightarrow> bool) \<Rightarrow> ('k, 'v) map_update \<Rightarrow> ('k \<times> 'v) list \<Rightarrow> ('k \<times> 'v) list" where
  "entries_step eq (Assoc k v) al = promoted_put eq k v al"
| "entries_step eq (Dissoc k) al = filter (\<lambda>e. \<not> eq (fst e) k) al"

locale insertion_map =
  fixes eq :: "'m \<Rightarrow> 'k \<Rightarrow> 'k \<Rightarrow> bool" and inv :: "'m \<Rightarrow> bool" and iter :: "'m \<Rightarrow> ('k \<times> 'v) list"
    and get :: "'m \<Rightarrow> 'k \<Rightarrow> 'v option" and assoc :: "'m \<Rightarrow> 'k \<Rightarrow> 'v \<Rightarrow> 'm" and dissoc :: "'m \<Rightarrow> 'k \<Rightarrow> 'm"
    and count :: "'m \<Rightarrow> nat"
  assumes equiv: "inv m \<Longrightarrow> equivp (eq m)"
    and iter_distinct: "inv m \<Longrightarrow> distinct_eq (eq m) (iter m)"
    and get_iter: "inv m \<Longrightarrow> get m k = lookup_eq (eq m) (iter m) k"
    and count_iter: "inv m \<Longrightarrow> count m = length (iter m)"
    and assoc_spec: "inv m \<Longrightarrow> inv (assoc m k v) \<and> eq (assoc m k v) = eq m \<and>
      same_entries (eq m) (iter (assoc m k v)) (promoted_put (eq m) k v (iter m))"
    and dissoc_spec: "inv m \<Longrightarrow> inv (dissoc m k) \<and> eq (dissoc m k) = eq m \<and>
      iter (dissoc m k) = filter (\<lambda>e. \<not> eq m (fst e) k) (iter m)"
begin

lemma get_assoc: "inv m \<Longrightarrow> get (assoc m k v) j = (if eq m k j then Some v else get m j)"
  using assoc_spec [of m k v] equiv [of m] lookup_same [of "eq m" "iter (assoc m k v)" "promoted_put (eq m) k v (iter m)" j]
  by (simp add: get_iter lookup_put)

lemma get_dissoc: "inv m \<Longrightarrow> get (dissoc m k) j = (if eq m k j then None else get m j)"
  using dissoc_spec [of m k] equiv [of m] by (simp add: get_iter lookup_filter)

text \<open>Any sequence of updates has the entries of the specification, up to the instances of keys.\<close>

lemma run_refines:
  "inv m \<Longrightarrow> same_entries (eq m) (iter m) al \<Longrightarrow>
   inv (fold (update_with assoc dissoc) us m) \<and> eq (fold (update_with assoc dissoc) us m) = eq m \<and>
   same_entries (eq m) (iter (fold (update_with assoc dissoc) us m)) (fold (entries_step (eq m)) us al)"
proof (induction us arbitrary: m al)
  case (Cons u us)
  note eqv = equiv [OF Cons.prems(1)]
  show ?case
  proof (cases u)
    case (Assoc k v)
    have "same_entries (eq m) (iter (assoc m k v)) (promoted_put (eq m) k v al)"
      using assoc_spec [OF Cons.prems(1), of k v] same_put [OF eqv Cons.prems(2), of k v] same_trans [OF eqv] by blast
    with Cons.IH [of "assoc m k v"] assoc_spec [OF Cons.prems(1), of k v] show ?thesis by (simp add: Assoc)
  next
    case (Dissoc k)
    with Cons.IH [of "dissoc m k"] dissoc_spec [OF Cons.prems(1), of k] same_filter [OF eqv Cons.prems(2), of k]
    show ?thesis by simp
  qed
qed simp

lemma run_get:
  "inv m \<Longrightarrow> same_entries (eq m) (iter m) al \<Longrightarrow>
   get (fold (update_with assoc dissoc) us m) j = lookup_eq (eq m) (fold (entries_step (eq m)) us al) j"
  using run_refines [of m al us] by (metis equiv get_iter lookup_same)

lemma run_count:
  "inv m \<Longrightarrow> same_entries (eq m) (iter m) al \<Longrightarrow>
   count (fold (update_with assoc dissoc) us m) = length (fold (entries_step (eq m)) us al)"
  using run_refines [of m al us] by (metis count_iter same_length)

lemma get_assocs:
  "inv m \<Longrightarrow> inv (fold (\<lambda>(k, v) m. assoc m k v) kvs m) \<and>
     get (fold (\<lambda>(k, v) m. assoc m k v) kvs m) j =
       (case lookup_eq (eq m) (rev kvs) j of Some v \<Rightarrow> Some v | None \<Rightarrow> get m j)"
proof (induction kvs arbitrary: m)
  case (Cons kv kvs)
  obtain k v where kv: "kv = (k, v)" by (cases kv)
  have app: "lookup_eq e (al @ [(k, v)]) j =
    (case lookup_eq e al j of Some w \<Rightarrow> Some w | None \<Rightarrow> if e k j then Some v else None)" for e and al :: "('k \<times> 'v) list"
    by (induction al) auto
  from Cons.IH [of "assoc m k v"] Cons.prems assoc_spec [OF Cons.prems, of k v] show ?case
    by (auto simp: kv get_assoc app split: option.split)
qed simp

end

section \<open>Hash maps\<close>

text \<open>
  The invariant of the two structures: a key is indexed under \<open>seq\<close> exactly when the entry at
  \<open>seq\<close> has an equal key, and all sequence numbers are below the next one.  It is stated for
  entries with a key, so that it serves maps and sets.
\<close>

definition hash_ok :: "('k \<Rightarrow> 'k \<Rightarrow> bool) \<Rightarrow> ('e \<Rightarrow> 'k) \<Rightarrow> ('i, 'o, 'k, 'e) hash_ops \<Rightarrow> ('i, 'o) hash_map \<Rightarrow> bool" where
  "hash_ok eq key hx m \<longleftrightarrow>
     equivp eq \<and> hash_laws eq (hx_index hx) \<and> tree_laws (hx_order hx) \<and>
     sorted_wrt (<) (map fst (mo_iter (hx_order hx) (hm_order m))) \<and>
     (\<forall>(seq, e) \<in> set (mo_iter (hx_order hx) (hm_order m)).
        seq < hm_next_seq m \<and> mo_get (hx_index hx) (hm_index m) (key e) = Some seq) \<and>
     (\<forall>k seq. mo_get (hx_index hx) (hm_index m) k = Some seq \<longrightarrow>
        (\<exists>e. (seq, e) \<in> set (mo_iter (hx_order hx) (hm_order m)) \<and> eq (key e) k)) \<and>
     mo_size (hx_index hx) (hm_index m) = length (mo_iter (hx_order hx) (hm_order m))"

lemma hash_lawsD:
  assumes "hash_laws eq mo"
  shows "mo_get mo (mo_new mo) k = None" "mo_size mo (mo_new mo) = 0"
    "eq k j \<Longrightarrow> mo_get mo t k = mo_get mo t j"
    "mo_get mo (mo_insert mo t k v) j = (if eq k j then Some v else mo_get mo t j)"
    "mo_get mo (mo_remove mo t k) j = (if eq k j then None else mo_get mo t j)"
    "mo_size mo (mo_insert mo t k v) = mo_size mo t + (if mo_get mo t k = None then 1 else 0)"
    "mo_size mo (mo_remove mo t k) = mo_size mo t - (if mo_get mo t k = None then 0 else 1)"
  using assms unfolding hash_laws_def by blast+

lemma tree_lawsD:
  assumes "tree_laws mo"
  shows "mo_iter mo (mo_new mo) = []" "mo_get mo t k = map_of (mo_iter mo t) k"
    "mo_iter mo (mo_insert mo t k v) = put_sorted k v (mo_iter mo t)"
    "mo_iter mo (mo_remove mo t k) = filter (\<lambda>e. fst e \<noteq> k) (mo_iter mo t)"
  using assms unfolding tree_laws_def by blast+

lemma put_sorted_append: "\<forall>e \<in> set al. fst e < k \<Longrightarrow> put_sorted k v al = al @ [(k, v)]"
  by (induction al) (auto simp: less_not_sym)

lemma put_sorted_update:
  "sorted_wrt (<) (map fst al) \<Longrightarrow> (k, w) \<in> set al \<Longrightarrow>
   put_sorted k v al = map (\<lambda>e. if fst e = k then (k, v) else e) al"
proof (induction al)
  case (Cons a al)
  have later: "fst a < fst e" if "e \<in> set al" for e using Cons.prems(1) that by auto
  show ?case
  proof (cases "fst a = k")
    case True
    then have "fst e \<noteq> k" if "e \<in> set al" for e using later [OF that] by auto
    with True show ?thesis by (cases a) (auto intro: map_idI [symmetric])
  next
    case False
    with Cons.prems(2) have "(k, w) \<in> set al" by auto
    with later [OF this] Cons False show ?thesis by (cases a) auto
  qed
qed simp

lemma hash_okD:
  assumes "hash_ok eq key hx m"
  shows "equivp eq" "hash_laws eq (hx_index hx)" "tree_laws (hx_order hx)"
    "sorted_wrt (<) (map fst (mo_iter (hx_order hx) (hm_order m)))"
    "(seq, e) \<in> set (mo_iter (hx_order hx) (hm_order m)) \<Longrightarrow>
       seq < hm_next_seq m \<and> mo_get (hx_index hx) (hm_index m) (key e) = Some seq"
    "mo_get (hx_index hx) (hm_index m) k = Some seq \<Longrightarrow>
       \<exists>e. (seq, e) \<in> set (mo_iter (hx_order hx) (hm_order m)) \<and> eq (key e) k"
    "mo_size (hx_index hx) (hm_index m) = length (mo_iter (hx_order hx) (hm_order m))"
  using assms unfolding hash_ok_def by blast+

text \<open>The entry found in the index is the one and only entry with an equal key.\<close>

lemma hash_ok_unique:
  assumes "hash_ok eq key hx m" "(seq, e) \<in> set (mo_iter (hx_order hx) (hm_order m))"
  shows "eq (key e) k \<longleftrightarrow> mo_get (hx_index hx) (hm_index m) k = Some seq"
proof
  assume "eq (key e) k"
  from hash_lawsD(3) [OF hash_okD(2) [OF assms(1)] this] hash_okD(5) [OF assms]
  show "mo_get (hx_index hx) (hm_index m) k = Some seq" by metis
next
  assume "mo_get (hx_index hx) (hm_index m) k = Some seq"
  from hash_okD(6) [OF assms(1) this] obtain e' where e': "(seq, e') \<in> set (mo_iter (hx_order hx) (hm_order m))"
    "eq (key e') k" by blast
  have "distinct (map fst (mo_iter (hx_order hx) (hm_order m)))"
    using hash_okD(4) [OF assms(1)] strict_sorted_iff by blast
  with assms(2) e' show "eq (key e) k" by (metis eq_key_imp_eq_value)
qed

lemma hash_ok_empty:
  "equivp eq \<Longrightarrow> hash_laws eq (hx_index hx) \<Longrightarrow> tree_laws (hx_order hx) \<Longrightarrow>
   hash_ok eq key hx (hm_empty hx) \<and> hm_iter hx (hm_empty hx) = []"
  by (simp add: hash_ok_def hm_empty_def hm_iter_def hash_lawsD tree_lawsD)

text \<open>A fresh entry at the end, and the replacement of an entry in its place.\<close>

lemma hash_ok_fresh:
  assumes "hash_ok eq key hx m" "mo_get (hx_index hx) (hm_index m) (key e) = None"
  defines "m' \<equiv> \<lparr>hm_index = mo_insert (hx_index hx) (hm_index m) (key e) (hm_next_seq m),
    hm_order = mo_insert (hx_order hx) (hm_order m) (hm_next_seq m) e, hm_next_seq = hm_next_seq m + 1\<rparr>"
  shows "hash_ok eq key hx m'" "hm_iter hx m' = hm_iter hx m @ [e]"
proof -
  note ok = hash_okD [OF assms(1)]
  let ?L = "mo_iter (hx_order hx) (hm_order m)"
  have L: "mo_iter (hx_order hx) (hm_order m') = ?L @ [(hm_next_seq m, e)]"
    using ok(5) by (auto simp: m'_def tree_lawsD(3) [OF ok(3)] intro!: put_sorted_append)
  have ne: "\<not> eq (key e) (key e')" if "(seq, e') \<in> set ?L" for seq e'
    using hash_ok_unique [OF assms(1) that, of "key e"] assms(2) ok(1) by (metis equivp_def option.distinct(1))
  have idx: "mo_get (hx_index hx) (hm_index m') k =
    (if eq (key e) k then Some (hm_next_seq m) else mo_get (hx_index hx) (hm_index m) k)" for k
    by (simp add: m'_def hash_lawsD(4) [OF ok(2)])
  have nxt: "hm_next_seq m' = Suc (hm_next_seq m)" by (simp add: m'_def)
  have "sorted_wrt (<) (map fst (mo_iter (hx_order hx) (hm_order m')))"
    using ok(4,5) by (auto simp: L sorted_wrt_append)
  moreover have "\<forall>(seq, e') \<in> set (mo_iter (hx_order hx) (hm_order m')).
      seq < hm_next_seq m' \<and> mo_get (hx_index hx) (hm_index m') (key e') = Some seq"
    using ok(5) ne ok(1) by (auto simp: L idx nxt equivp_reflp less_SucI)
  moreover have "\<exists>e'. (seq, e') \<in> set (mo_iter (hx_order hx) (hm_order m')) \<and> eq (key e') k"
    if "mo_get (hx_index hx) (hm_index m') k = Some seq" for k seq
    using that ok(6) by (auto simp: L idx split: if_splits)
  moreover have "mo_size (hx_index hx) (hm_index m') = length (mo_iter (hx_order hx) (hm_order m'))"
    using assms(2) ok(7) by (simp add: L) (simp add: m'_def hash_lawsD(6) [OF ok(2)])
  ultimately show "hash_ok eq key hx m'" using ok(1-3) unfolding hash_ok_def by blast
  show "hm_iter hx m' = hm_iter hx m @ [e]" by (simp add: hm_iter_def L)
qed

lemma hash_ok_replace:
  assumes "hash_ok eq key hx m" "mo_get (hx_index hx) (hm_index m) (key e) = Some seq"
  defines "m' \<equiv> m\<lparr>hm_order := mo_insert (hx_order hx) (hm_order m) seq e\<rparr>"
  shows "hash_ok eq key hx m'" "hm_iter hx m' = map (\<lambda>e'. if eq (key e') (key e) then e else e') (hm_iter hx m)"
proof -
  note ok = hash_okD [OF assms(1)]
  let ?L = "mo_iter (hx_order hx) (hm_order m)"
  from ok(6) [OF assms(2)] obtain e0 where e0: "(seq, e0) \<in> set ?L" "eq (key e0) (key e)" by blast
  have L: "mo_iter (hx_order hx) (hm_order m') = map (\<lambda>x. if fst x = seq then (seq, e) else x) ?L"
    using put_sorted_update [OF ok(4) e0(1)] by (simp add: m'_def tree_lawsD(3) [OF ok(3)])
  have fst: "map fst (mo_iter (hx_order hx) (hm_order m')) = map fst ?L"
    by (auto simp: L)
  have idx: "hm_index m' = hm_index m" "hm_next_seq m' = hm_next_seq m" by (simp_all add: m'_def)
  have "\<forall>(seq', e') \<in> set (mo_iter (hx_order hx) (hm_order m')).
      seq' < hm_next_seq m' \<and> mo_get (hx_index hx) (hm_index m') (key e') = Some seq'"
    using ok(5) assms(2) by (auto simp: L idx split: if_splits)
  moreover have "\<exists>e'. (seq', e') \<in> set (mo_iter (hx_order hx) (hm_order m')) \<and> eq (key e') k"
    if "mo_get (hx_index hx) (hm_index m') k = Some seq'" for k seq'
  proof (cases "seq' = seq")
    case True
    with that hash_ok_unique [OF assms(1) e0(1), of k] have "eq (key e0) k" by (simp add: idx)
    with e0(2) ok(1) have "eq (key e) k" by (metis equivp_def)
    moreover have "(seq, e) \<in> set (mo_iter (hx_order hx) (hm_order m'))"
      using imageI [OF e0(1), of "\<lambda>x. if fst x = seq then (seq, e) else x"] by (simp add: L)
    ultimately show ?thesis using True by blast
  next
    case False
    with that ok(6) [of k seq'] show ?thesis by (force simp: L idx image_iff)
  qed
  ultimately show "hash_ok eq key hx m'"
    using ok(1-4,7) unfolding hash_ok_def fst idx by (simp add: L)
  show "hm_iter hx m' = map (\<lambda>e'. if eq (key e') (key e) then e else e') (hm_iter hx m)"
    using hash_ok_unique [OF assms(1)] assms(2) by (auto simp: hm_iter_def L)
qed

text \<open>The index of the keys that are left, once the entry at \<open>seq\<close> is gone.\<close>

lemma hash_ok_drop:
  assumes "hash_ok eq key hx m" "mo_get (hx_index hx) (hm_index m) k = Some seq"
  defines "m' \<equiv> m\<lparr>hm_index := mo_remove (hx_index hx) (hm_index m) k, hm_order := mo_remove (hx_order hx) (hm_order m) seq\<rparr>"
  shows "hash_ok eq key hx m'"
proof -
  note ok = hash_okD [OF assms(1)]
  let ?L = "mo_iter (hx_order hx) (hm_order m)"
  have L: "mo_iter (hx_order hx) (hm_order m') = filter (\<lambda>x. fst x \<noteq> seq) ?L"
    by (simp add: m'_def tree_lawsD(4) [OF ok(3)])
  have idx: "mo_get (hx_index hx) (hm_index m') j = (if eq k j then None else mo_get (hx_index hx) (hm_index m) j)" for j
    by (simp add: m'_def hash_lawsD(5) [OF ok(2)])
  have nxt: "hm_next_seq m' = hm_next_seq m" by (simp add: m'_def)
  have keep: "eq k (key e') \<longleftrightarrow> seq' = seq" if "(seq', e') \<in> set ?L" for seq' e'
    using hash_ok_unique [OF assms(1) that, of k] assms(2) ok(1) by (metis equivp_def option.inject)
  have "sorted_wrt (<) (map fst (mo_iter (hx_order hx) (hm_order m')))"
    using sorted_wrt_filter ok(4) by (simp add: L sorted_wrt_map)
  moreover have "\<forall>(seq', e') \<in> set (mo_iter (hx_order hx) (hm_order m')).
      seq' < hm_next_seq m' \<and> mo_get (hx_index hx) (hm_index m') (key e') = Some seq'"
    using ok(5) keep by (auto simp: L idx nxt)
  moreover have "\<exists>e'. (seq', e') \<in> set (mo_iter (hx_order hx) (hm_order m')) \<and> eq (key e') j"
    if "mo_get (hx_index hx) (hm_index m') j = Some seq'" for j seq'
  proof -
    from that have j: "\<not> eq k j" "mo_get (hx_index hx) (hm_index m) j = Some seq'" by (auto simp: idx split: if_splits)
    from ok(6) [OF j(2)] obtain e' where e': "(seq', e') \<in> set ?L" "eq (key e') j" by blast
    with j(1) keep [OF e'(1)] ok(1) have "seq' \<noteq> seq" by (metis equivp_def)
    with e' show ?thesis by (auto simp: L)
  qed
  moreover have "mo_size (hx_index hx) (hm_index m') = length (mo_iter (hx_order hx) (hm_order m'))"
  proof -
    have d: "distinct (map fst ?L)" using ok(4) strict_sorted_iff by blast
    have "seq \<in> fst ` set ?L" using ok(6) [OF assms(2)] by force
    with d have "length (filter (\<lambda>x. fst x \<noteq> seq) ?L) = length ?L - 1"
      using length_filter_map [of "\<lambda>x. x \<noteq> seq" fst ?L] length_remove1 [of seq "map fst ?L"]
        distinct_remove1_removeAll [OF d, of seq] by (simp add: comp_def removeAll_filter_not_eq eq_commute)
    then show ?thesis using assms(2) ok(7) by (simp add: L) (simp add: m'_def hash_lawsD(7) [OF ok(2)])
  qed
  ultimately show ?thesis using ok(1-3) unfolding hash_ok_def by blast
qed

lemma hash_ok_remove:
  assumes "hash_ok eq key hx m"
  shows "hash_ok eq key hx (hm_dissoc hx m k)"
    "hm_iter hx (hm_dissoc hx m k) = filter (\<lambda>e. \<not> eq (key e) k) (hm_iter hx m)"
proof -
  note u = hash_ok_unique [OF assms, of _ _ k]
  show "hash_ok eq key hx (hm_dissoc hx m k)"
    using assms hash_ok_drop [OF assms, of k] by (auto simp: hm_dissoc_def split: option.split)
  show "hm_iter hx (hm_dissoc hx m k) = filter (\<lambda>e. \<not> eq (key e) k) (hm_iter hx m)"
    using u
    by (cases "mo_get (hx_index hx) (hm_index m) k")
      (auto simp: hm_dissoc_def hm_iter_def filter_map comp_def tree_lawsD(4) [OF hash_okD(3) [OF assms]]
        intro!: arg_cong [of _ _ "map snd"] filter_True [symmetric] filter_cong)
qed

text \<open>Lookup through the two structures is lookup in the entries, and no key occurs twice.\<close>

lemma hash_ok_distinct:
  assumes "hash_ok eq key hx m"
  shows "sorted_wrt (\<lambda>a b. \<not> eq (key a) (key b)) (hm_iter hx m)"
proof -
  have "\<not> eq (key (snd a)) (key (snd b))"
    if "a \<in> set (mo_iter (hx_order hx) (hm_order m))" "b \<in> set (mo_iter (hx_order hx) (hm_order m))" "fst a < fst b" for a b
    using that hash_ok_unique [OF assms, of "fst a" "snd a" "key (snd b)"] hash_okD(5) [OF assms, of "fst b" "snd b"]
    by auto
  then show ?thesis
    using hash_okD(4) [OF assms] by (auto simp: hm_iter_def sorted_wrt_map elim!: sorted_wrt_mono_rel [rotated])
qed

lemma hash_ok_contains:
  assumes "hash_ok eq key hx m"
  shows "hm_contains_key hx m k \<longleftrightarrow> list_ex (\<lambda>e. eq (key e) k) (hm_iter hx m)"
proof
  assume "hm_contains_key hx m k"
  then obtain seq where "mo_get (hx_index hx) (hm_index m) k = Some seq" by (auto simp: hm_contains_key_def)
  from hash_okD(6) [OF assms this] show "list_ex (\<lambda>e. eq (key e) k) (hm_iter hx m)"
    by (force simp: hm_iter_def list_ex_iff)
next
  assume "list_ex (\<lambda>e. eq (key e) k) (hm_iter hx m)"
  then obtain seq e where "(seq, e) \<in> set (mo_iter (hx_order hx) (hm_order m))" "eq (key e) k"
    by (auto simp: hm_iter_def list_ex_iff)
  with hash_ok_unique [OF assms, of seq e k] show "hm_contains_key hx m k" by (simp add: hm_contains_key_def)
qed

lemma hash_ok_count: "hash_ok eq key hx m \<Longrightarrow> hm_count hx m = length (hm_iter hx m)"
  by (simp add: hm_count_def hm_iter_def hash_okD(7))

lemma lookup_none: "(\<And>e. e \<in> set al \<Longrightarrow> \<not> eq (fst e) k) \<Longrightarrow> lookup_eq eq al k = None"
  by (induction al) auto

lemma lookup_member:
  "equivp eq \<Longrightarrow> distinct_eq eq al \<Longrightarrow> e \<in> set al \<Longrightarrow> eq (fst e) k \<Longrightarrow> lookup_eq eq al k = Some (snd e)"
proof (induction al)
  case (Cons a al)
  show ?case
  proof (cases "e = a")
    case False
    with Cons.prems have "e \<in> set al" "\<not> eq (fst a) k" by (auto simp: distinct_eq_def) (metis equivp_def)
    with Cons show ?thesis by (simp add: distinct_eq_def)
  qed (use Cons.prems in simp)
qed simp

lemma hm_get_iter:
  assumes "hash_ok eq fst hx m"
  shows "hm_get hx m k = lookup_eq eq (hm_iter hx m) k"
proof (cases "mo_get (hx_index hx) (hm_index m) k")
  case None
  with hash_ok_unique [OF assms] show ?thesis
    by (auto simp: hm_get_def hm_iter_def intro!: lookup_none [symmetric])
next
  case (Some seq)
  from hash_okD(6) [OF assms Some] obtain e
    where e: "(seq, e) \<in> set (mo_iter (hx_order hx) (hm_order m))" "eq (fst e) k" by blast
  have "distinct (map fst (mo_iter (hx_order hx) (hm_order m)))"
    using hash_okD(4) [OF assms] strict_sorted_iff by blast
  with e(1) have "map_of (mo_iter (hx_order hx) (hm_order m)) seq = Some e" by simp
  moreover have "lookup_eq eq (hm_iter hx m) k = Some (snd e)"
    using e hash_okD(1) [OF assms] hash_ok_distinct [OF assms]
    by (intro lookup_member) (force simp: distinct_eq_def hm_iter_def)+
  ultimately show ?thesis
    by (simp add: hm_get_def Some tree_lawsD(2) [OF hash_okD(3) [OF assms]])
qed

text \<open>Putting an entry, against the replacement in place or the append of the specification.\<close>

lemma put_absent: "\<not> list_ex (\<lambda>e. eq (fst e) k) al \<Longrightarrow> promoted_put eq k v al = al @ [(k, v)]"
  by (induction al) auto

lemma put_present:
  assumes "equivp eq"
  shows "list_ex (\<lambda>e. eq (fst e) k) al \<Longrightarrow> distinct_eq eq al \<Longrightarrow>
    same_entries eq (map (\<lambda>e. if eq (fst e) k then (k, v) else e) al) (promoted_put eq k v al)"
proof (induction al)
  case (Cons a al)
  obtain j w where a: "a = (j, w)" by (cases a)
  show ?case
  proof (cases "eq j k")
    case True
    have "\<not> eq (fst e) k" if "e \<in> set al" for e
      using Cons.prems(2) that True assms by (auto simp: distinct_eq_def a) (metis equivp_def)
    then have "map (\<lambda>e. if eq (fst e) k then (k, v) else e) al = al" by (auto intro: map_idI)
    moreover have "eq k j" using True assms by (metis equivp_def)
    ultimately show ?thesis using same_refl [OF assms, of al] True by (simp add: a same_entries_def)
  next
    case False
    with Cons show ?thesis using assms by (simp add: a same_entries_def distinct_eq_def equivp_reflp)
  qed
qed simp

lemma hm_assoc_spec:
  assumes "hash_ok eq fst hx m"
  shows "hash_ok eq fst hx (hm_assoc hx m k v)"
    "same_entries eq (hm_iter hx (hm_assoc hx m k v)) (promoted_put eq k v (hm_iter hx m))"
proof -
  note eq = hash_okD(1) [OF assms]
  have d: "distinct_eq eq (hm_iter hx m)" using hash_ok_distinct [OF assms] by (simp add: distinct_eq_def)
  note has = hash_ok_contains [OF assms, of k, unfolded hm_contains_key_def]
  show "hash_ok eq fst hx (hm_assoc hx m k v)"
    using hash_ok_fresh(1) [OF assms, of "(k, v)"] hash_ok_replace(1) [OF assms, of "(k, v)"]
    by (auto simp: hm_assoc_def Let_def split: option.split)
  show "same_entries eq (hm_iter hx (hm_assoc hx m k v)) (promoted_put eq k v (hm_iter hx m))"
  proof (cases "mo_get (hx_index hx) (hm_index m) k")
    case None
    with has hash_ok_fresh(2) [OF assms, of "(k, v)"] put_absent [of eq k "hm_iter hx m" v]
      same_refl [OF eq, of "hm_iter hx m @ [(k, v)]"] show ?thesis
      by (simp add: hm_assoc_def Let_def)
  next
    case (Some seq)
    with has put_present [OF eq _ d] hash_ok_replace(2) [OF assms, of "(k, v)" seq] show ?thesis
      by (simp add: hm_assoc_def)
  qed
qed

section \<open>Array maps\<close>

definition array_ok :: "('v \<Rightarrow> 'v \<Rightarrow> bool) \<Rightarrow> 'v array_map \<Rightarrow> bool" where
  "array_ok eq e \<longleftrightarrow> even (length e) \<and> length e \<le> 2 * threshold \<and> distinct_eq eq (am_iter e)"

lemma am_get_iter: "am_get eq e k = lookup_eq eq (am_iter e) k"
  by (induction e rule: am_iter.induct) auto

lemma am_count_iter: "am_count e = length (am_iter e)"
  by (induction e rule: am_iter.induct) (auto simp: am_count_def)

lemma am_iter_append: "even (length e) \<Longrightarrow> am_iter (e @ [k, v]) = am_iter e @ [(k, v)]"
  by (induction e rule: am_iter.induct) auto

lemma am_replace_some:
  "am_replace eq e k x = Some e' \<Longrightarrow> length e' = length e \<and> am_iter e' = promoted_put eq k x (am_iter e)"
proof (induction e arbitrary: e' rule: am_iter.induct)
  case (1 j v e)
  then show ?case by (cases "eq j k") auto
qed simp_all

lemma am_replace_none: "am_replace eq e k x = None \<Longrightarrow> \<not> list_ex (\<lambda>p. eq (fst p) k) (am_iter e)"
proof (induction e rule: am_iter.induct)
  case (1 j v e)
  then show ?case by (cases "eq j k") auto
qed simp_all

lemma am_dissoc_iter:
  "equivp eq \<Longrightarrow> distinct_eq eq (am_iter e) \<Longrightarrow> am_iter (am_dissoc eq e k) = filter (\<lambda>p. \<not> eq (fst p) k) (am_iter e)"
proof (induction e rule: am_iter.induct)
  case (1 j v e)
  have "eq j k \<Longrightarrow> p \<in> set (am_iter e) \<Longrightarrow> \<not> eq (fst p) k" for p
    using 1 by (auto simp: distinct_eq_def) (metis equivp_def)
  then have "eq j k \<Longrightarrow> filter (\<lambda>p. \<not> eq (fst p) k) (am_iter e) = am_iter e" by (auto intro: filter_True)
  with 1 show ?case by (auto simp: distinct_eq_def)
qed auto

lemma am_dissoc_length: "length (am_dissoc eq e k) \<le> length e \<and> (even (length e) \<longrightarrow> even (length (am_dissoc eq e k)))"
  by (induction e rule: am_iter.induct) auto

lemma distinct_put:
  assumes "equivp eq"
  shows "distinct_eq eq al \<Longrightarrow> distinct_eq eq (promoted_put eq k v al)"
proof (induction al)
  case (Cons a al)
  have keys: "e \<in> set (promoted_put eq k v al) \<Longrightarrow> fst e = k \<or> fst e \<in> fst ` set al" for e
    by (induction al) (auto split: if_splits)
  obtain j w where a: "a = (j, w)" by (cases a)
  have "\<not> eq j (fst e)" if "e \<in> set (promoted_put eq k v al)" "\<not> eq j k" for e
    using keys [OF that(1)] that(2) Cons.prems by (auto simp: distinct_eq_def a)
  with Cons show ?case by (auto simp: a distinct_eq_def)
qed (simp add: distinct_eq_def)

definition assoc_pairs :: "'v assoc_result \<Rightarrow> ('v \<times> 'v) list" where
  "assoc_pairs r = (case r of Arr e \<Rightarrow> am_iter e | Promote pairs \<Rightarrow> pairs)"

definition result_ok :: "('v \<Rightarrow> 'v \<Rightarrow> bool) \<Rightarrow> 'v assoc_result \<Rightarrow> bool" where
  "result_ok eq r \<longleftrightarrow> (case r of Arr e \<Rightarrow> array_ok eq e | Promote pairs \<Rightarrow> distinct_eq eq pairs)"

lemma am_assoc_spec:
  assumes "equivp eq" "array_ok eq e"
  shows "assoc_pairs (am_assoc eq e k v) = promoted_put eq k v (am_iter e) \<and> result_ok eq (am_assoc eq e k v)"
proof (cases "am_replace eq e k v")
  case (Some e')
  with am_replace_some [OF Some] distinct_put [OF assms(1), of "am_iter e" k v] assms(2) show ?thesis
    by (simp add: am_assoc_def assoc_pairs_def result_ok_def array_ok_def)
next
  case None
  with put_absent [of eq k "am_iter e" v] am_replace_none [OF None] distinct_put [OF assms(1), of "am_iter e" k v] assms(2)
  show ?thesis
    by (auto simp: am_assoc_def assoc_pairs_def result_ok_def array_ok_def Let_def am_iter_append)
qed

lemma am_from_pairs_spec:
  assumes "equivp eq"
  shows "array_ok eq e \<Longrightarrow> result_ok eq (am_from_pairs eq e kvs) \<and>
    assoc_pairs (am_from_pairs eq e kvs) = fold (\<lambda>(k, v). promoted_put eq k v) kvs (am_iter e)"
proof (induction kvs arbitrary: e)
  case Nil
  then show ?case by (simp add: assoc_pairs_def result_ok_def)
next
  case (Cons kv kvs)
  obtain k v where kv: "kv = (k, v)" by (cases kv)
  have puts: "distinct_eq eq al \<Longrightarrow> distinct_eq eq (fold (\<lambda>(k, v). promoted_put eq k v) kvs al)" for al
    by (induction kvs arbitrary: al) (auto intro: distinct_put [OF assms])
  from am_assoc_spec [OF assms Cons.prems, of k v] Cons.IH puts show ?case
    by (cases "am_assoc eq e k v") (simp_all add: kv assoc_pairs_def result_ok_def)
qed

section \<open>Map values\<close>

text \<open>Rebuilding a hash map from pairs with distinct keys keeps their order.\<close>

lemma hm_from_distinct:
  assumes "equivp eq"
  shows "hash_ok eq fst hx m \<Longrightarrow> distinct_eq eq (hm_iter hx m @ kvs) \<Longrightarrow>
    hash_ok eq fst hx (fold (\<lambda>(k, v) m. hm_assoc hx m k v) kvs m) \<and>
    hm_iter hx (fold (\<lambda>(k, v) m. hm_assoc hx m k v) kvs m) = hm_iter hx m @ kvs"
proof (induction kvs arbitrary: m)
  case (Cons kv kvs)
  obtain k v where kv: "kv = (k, v)" by (cases kv)
  have "\<not> list_ex (\<lambda>e. eq (fst e) k) (hm_iter hx m)"
    using Cons.prems(2) by (auto simp: kv distinct_eq_def sorted_wrt_append list_ex_iff)
  with hash_ok_contains [OF Cons.prems(1), of k] have "mo_get (hx_index hx) (hm_index m) k = None"
    by (simp add: hm_contains_key_def)
  with hash_ok_fresh [OF Cons.prems(1), of "(k, v)"]
  have "hash_ok eq fst hx (hm_assoc hx m k v)" "hm_iter hx (hm_assoc hx m k v) = hm_iter hx m @ [(k, v)]"
    by (simp_all add: hm_assoc_def Let_def)
  with Cons.IH [of "hm_assoc hx m k v"] Cons.prems(2) show ?case by (simp add: kv)
qed simp

fun map_ok :: "('i, 'o, 's, 'v) map_env \<Rightarrow> ('i, 'o, 's, 'c, 'v) map_value \<Rightarrow> bool" where
  "map_ok me (MV_Array e) \<longleftrightarrow> array_ok (me_eq me) e"
| "map_ok me (MV_Hash m) \<longleftrightarrow> hash_ok (me_eq me) fst (me_hash me) m"
| "map_ok me (MV_Sorted t) \<longleftrightarrow> False"
| "map_ok me (MV_SortedBy m) \<longleftrightarrow> distinct_eq (me_eq me) (sb_items m)"

definition env_laws :: "('i, 'o, 's, 'v) map_env \<Rightarrow> bool" where
  "env_laws me \<longleftrightarrow> equivp (me_eq me) \<and> hash_laws (me_eq me) (hx_index (me_hash me)) \<and> tree_laws (hx_order (me_hash me))"

lemma mv_promote_spec:
  assumes "env_laws me" "result_ok (me_eq me) r"
  shows "map_ok me (mv_promote me r)" "mv_iter me (mv_promote me r) = assoc_pairs r"
  using assms hm_from_distinct [of "me_eq me" "me_hash me" "hm_empty (me_hash me)"]
    hash_ok_empty [of "me_eq me" "me_hash me" fst]
  by (auto simp: mv_promote_def env_laws_def result_ok_def assoc_pairs_def hm_from_pairs_def split: assoc_result.split)

lemma mv_assoc_ok:
  assumes "env_laws me" "map_ok me m"
  shows "map_ok me (mv_assoc me m k v) \<and>
    same_entries (me_eq me) (mv_iter me (mv_assoc me m k v)) (promoted_put (me_eq me) k v (mv_iter me m))"
proof -
  have eqv: "equivp (me_eq me)" using assms(1) by (simp add: env_laws_def)
  show ?thesis
  proof (cases m)
    case (MV_Array e)
    with am_assoc_spec [OF eqv, of e k v] assms(2) same_refl [OF eqv, of "promoted_put (me_eq me) k v (am_iter e)"]
    show ?thesis by (simp add: mv_promote_spec [OF assms(1)])
  next
    case (MV_Hash h)
    with assms(2) hm_assoc_spec [of "me_eq me" "me_hash me" h k v] show ?thesis by simp
  qed (use assms(2) eqv same_refl [OF eqv] distinct_put [OF eqv] in auto)
qed

lemma mv_dissoc_ok:
  assumes "env_laws me" "map_ok me m"
  shows "map_ok me (mv_dissoc me m k) \<and>
    mv_iter me (mv_dissoc me m k) = filter (\<lambda>e. \<not> me_eq me (fst e) k) (mv_iter me m)"
proof -
  have eqv: "equivp (me_eq me)" using assms(1) by (simp add: env_laws_def)
  have kept: "distinct_eq (me_eq me) al \<Longrightarrow> distinct_eq (me_eq me) (filter P al)" for al and P :: "'d \<times> 'd \<Rightarrow> bool"
    by (simp add: distinct_eq_def sorted_wrt_filter)
  show ?thesis
  proof (cases m)
    case (MV_Array e)
    with am_dissoc_iter [OF eqv, of e k] am_dissoc_length [of "me_eq me" e k] assms(2) kept show ?thesis
      by (auto simp: array_ok_def)
  next
    case (MV_Hash h)
    with assms(2) hash_ok_remove [of "me_eq me" fst "me_hash me" h k] show ?thesis by simp
  qed (use assms(2) kept in \<open>auto simp: sbm_dissoc_def case_prod_unfold\<close>)
qed

lemma mv_observe:
  assumes "env_laws me" "map_ok me m"
  shows "distinct_eq (me_eq me) (mv_iter me m)" "mv_get me m k = lookup_eq (me_eq me) (mv_iter me m) k"
    "mv_count me m = length (mv_iter me m)"
  using assms hash_ok_distinct [of "me_eq me" fst "me_hash me"] hm_get_iter [of "me_eq me" "me_hash me"]
    hash_ok_count [of "me_eq me" fst "me_hash me"]
  by (cases m; auto simp: array_ok_def am_get_iter am_count_iter distinct_eq_def sbm_get_def lookup_eq_def case_prod_unfold)+

interpretation map_values: insertion_map
  "\<lambda>(me, m). me_eq me" "\<lambda>(me, m). env_laws me \<and> map_ok me m" "\<lambda>(me, m). mv_iter me m" "\<lambda>(me, m). mv_get me m"
  "\<lambda>(me, m) k v. (me, mv_assoc me m k v)" "\<lambda>(me, m) k. (me, mv_dissoc me m k)" "\<lambda>(me, m). mv_count me m"
  by unfold_locales (auto simp: mv_observe mv_assoc_ok mv_dissoc_ok env_laws_def [THEN iffD1])

text \<open>Building a map from pairs is a sequence of updates of the empty map.\<close>

lemma mv_from_pairs_ok:
  assumes "env_laws me"
  shows "map_ok me (mv_from_pairs me pairs)"
    "mv_iter me (mv_from_pairs me pairs) = fold (\<lambda>(k, v). promoted_put (me_eq me) k v) pairs []"
  using am_from_pairs_spec [of "me_eq me" "[]" pairs] assms
  by (simp_all add: mv_promote_spec [OF assms] mv_from_pairs_def array_ok_def distinct_eq_def env_laws_def)

lemma map_run_pair:
  "fold (update_with (\<lambda>(me, m) k v. (me, mv_assoc me m k v)) (\<lambda>(me, m) k. (me, mv_dissoc me m k))) us (me, m) =
   (me, fold (update_with (mv_assoc me) (mv_dissoc me)) us m)"
proof (induction us arbitrary: m)
  case (Cons u us)
  then show ?case by (cases u) simp_all
qed simp

lemma map_run_spec:
  fixes us :: "('v, 'v) map_update list"
  assumes "env_laws me" "map_ok me m"
  defines "spec \<equiv> fold (entries_step (me_eq me)) us (mv_iter me m)"
    and "m' \<equiv> fold (update_with (mv_assoc me) (mv_dissoc me)) us m"
  shows "mv_get me m' k = lookup_eq (me_eq me) spec k \<and> mv_count me m' = length spec \<and>
    same_entries (me_eq me) (mv_iter me m') spec"
proof -
  have same: "same_entries (me_eq me) (mv_iter me m) (mv_iter me m)"
    using assms(1) same_refl by (auto simp: env_laws_def)
  from map_values.run_get [of "(me, m)" "mv_iter me m" us k] map_values.run_count [of "(me, m)" "mv_iter me m" us]
    map_values.run_refines [of "(me, m)" "mv_iter me m" us] assms(1,2) same
  show ?thesis by (simp add: map_run_pair spec_def m'_def)
qed


text \<open>Finite maps and sorted lists of entries, which satisfy the laws of the two structures.\<close>

definition fmap_index :: "(('k, 'v) fmap, 'k, 'v) map_ops" where
  "fmap_index =
     \<lparr>mo_new = fmempty, mo_get = fmlookup, mo_insert = (\<lambda>t k v. fmupd k v t), mo_remove = (\<lambda>t k. fmdrop k t),
      mo_size = (\<lambda>t. fcard (fmdom t)), mo_iter = (\<lambda>t. [])\<rparr>"

definition alist_order :: "((nat \<times> 'v) list, nat, 'v) map_ops" where
  "alist_order =
     \<lparr>mo_new = [], mo_get = map_of, mo_insert = (\<lambda>t k v. put_sorted k v t),
      mo_remove = (\<lambda>t k. filter (\<lambda>e. fst e \<noteq> k) t), mo_size = length, mo_iter = (\<lambda>t. t)\<rparr>"

lemma fcard_upd: "fcard (fmdom (fmupd k v t)) = fcard (fmdom t) + (if fmlookup t k = None then 1 else 0)"
  by (cases "fmlookup t k") (simp_all only: fmdom_fmupd fcard_finsert_if fmdom_notI fmdomI if_True if_False, simp_all)

lemma fcard_drop: "fcard (fmdom (fmdrop k t)) = fcard (fmdom t) - (if fmlookup t k = None then 0 else 1)"
  by (cases "fmlookup t k") (simp_all only: fmdom_drop fcard_fminus_fsingleton_if fmdom_notI fmdomI if_True if_False, simp_all)

lemma fmap_index_laws: "hash_laws (=) fmap_index"
  unfolding hash_laws_def fmap_index_def by (simp only: map_ops.simps fcard_upd fcard_drop) simp

lemma alist_order_laws: "tree_laws alist_order"
  by (simp add: tree_laws_def alist_order_def)

definition sample_map_env :: "((nat, nat) fmap, (nat \<times> nat \<times> nat) list, unit, nat) map_env" where
  "sample_map_env =
     \<lparr>me_eq = (=), me_hash = \<lparr>hx_index = fmap_index, hx_order = alist_order\<rparr>,
      me_sorted = \<lparr>mo_new = (), mo_get = (\<lambda>t k. None), mo_insert = (\<lambda>t k v. ()), mo_remove = (\<lambda>t k. ()),
        mo_size = (\<lambda>t. 0), mo_iter = (\<lambda>t. [])\<rparr>\<rparr>"

lemma sample_map_env_laws: "env_laws sample_map_env"
  by (simp add: env_laws_def sample_map_env_def fmap_index_laws alist_order_laws identity_equivp)

text \<open>Nine keys, so that the map is promoted; key 2 is updated and key 1 removed and put back.\<close>

definition sample_map :: "((nat, nat) fmap, (nat \<times> nat \<times> nat) list, unit, unit, nat) map_value" where
  "sample_map =
     fold (update_with (mv_assoc sample_map_env) (mv_dissoc sample_map_env)) [Assoc 9 90, Assoc 2 22, Dissoc 1, Assoc 1 11]
       (mv_from_pairs sample_map_env [(1, 10), (2, 20), (3, 30), (4, 40), (5, 50), (6, 60), (7, 70), (8, 80)])"


section \<open>Comparator-sorted collections\<close>

text \<open>What \<open>CmpFn\<close> asks of a comparator: a total order, up to the keys it finds equal.\<close>

definition total_comparator :: "('k \<Rightarrow> 'k \<Rightarrow> ordering) \<Rightarrow> bool" where
  "total_comparator cmp \<longleftrightarrow>
     (\<forall>a b. cmp a b = Ord_Less \<longleftrightarrow> cmp b a = Ord_Greater) \<and>
     (\<forall>a b c. cmp a b = Ord_Less \<longrightarrow> cmp b c \<noteq> Ord_Greater \<longrightarrow> cmp a c = Ord_Less) \<and>
     (\<forall>a b c. cmp a b = Ord_Equal \<longrightarrow> cmp a c = cmp b c)"

definition sorted_keys :: "('k \<Rightarrow> 'k \<Rightarrow> ordering) \<Rightarrow> ('k \<times> 'v) list \<Rightarrow> bool" where
  "sorted_keys cmp = sorted_wrt (\<lambda>a b. cmp (fst a) (fst b) = Ord_Less)"

text \<open>The search meets the boundary of a probe that goes from less over equal to greater.\<close>

definition bisects :: "(nat \<Rightarrow> ordering) \<Rightarrow> nat \<Rightarrow> nat \<Rightarrow> nat + nat \<Rightarrow> bool" where
  "bisects o' lo hi r \<longleftrightarrow>
     (case r of
        Inr i \<Rightarrow> lo \<le> i \<and> i < hi \<and> o' i = Ord_Equal
      | Inl p \<Rightarrow> lo \<le> p \<and> p \<le> hi \<and> (\<forall>i. lo \<le> i \<and> i < p \<longrightarrow> o' i = Ord_Less) \<and> (\<forall>i. p \<le> i \<and> i < hi \<longrightarrow> o' i = Ord_Greater))"

lemma binary_search_bisects:
  assumes "\<And>i j. i < j \<Longrightarrow> j < n \<Longrightarrow> o' j = Ord_Less \<Longrightarrow> o' i = Ord_Less"
    and "\<And>i j. i < j \<Longrightarrow> j < n \<Longrightarrow> o' i = Ord_Greater \<Longrightarrow> o' j = Ord_Greater"
  shows "lo \<le> hi \<Longrightarrow> hi \<le> n \<Longrightarrow>
    \<exists>r. binary_search (\<lambda>i. Inr (o' i)) lo hi = (Inr r :: 'e + _) \<and> bisects o' lo hi r"
proof (induction "hi - lo" arbitrary: lo hi rule: less_induct)
  case less
  show ?case
  proof (cases "lo < hi")
    case True
    define mid where "mid = (lo + hi) div 2"
    have mid: "lo \<le> mid" "mid < hi" "mid < n" using True less.prems by (simp_all add: mid_def)
    have step: "binary_search (\<lambda>i. Inr (o' i)) lo hi = (case o' mid of
        Ord_Less \<Rightarrow> binary_search (\<lambda>i. Inr (o' i)) (mid + 1) hi | Ord_Greater \<Rightarrow> binary_search (\<lambda>i. Inr (o' i)) lo mid
      | Ord_Equal \<Rightarrow> (Inr (Inr mid) :: 'e + _))"
      using True by (simp add: binary_search.simps [of _ lo hi] Let_def flip: mid_def)
    have below: "o' i = Ord_Less" if "o' mid = Ord_Less" "i \<le> mid" for i
      using assms(1) [of i mid] that mid by (cases "i = mid") auto
    have above: "o' i = Ord_Greater" if "o' mid = Ord_Greater" "mid \<le> i" "i < hi" for i
      using assms(2) [of mid i] that mid less.prems by (cases "i = mid") auto
    show ?thesis
    proof (cases "o' mid")
      case Ord_Less
      from less.hyps [of hi "mid + 1"] mid less.prems obtain r
        where r: "binary_search (\<lambda>i. Inr (o' i)) (mid + 1) hi = (Inr r :: 'e + _)" "bisects o' (mid + 1) hi r"
        by (auto simp: diff_less_mono2)
      from r(2) mid below [OF Ord_Less] have "bisects o' lo hi r"
        by (auto simp: bisects_def Suc_le_eq split: sum.splits) (metis not_less)+
      with r(1) step Ord_Less show ?thesis by simp
    next
      case Ord_Greater
      from less.hyps [of mid lo] mid less.prems True obtain r
        where r: "binary_search (\<lambda>i. Inr (o' i)) lo mid = (Inr r :: 'e + _)" "bisects o' lo mid r"
        by (auto simp: diff_less_mono)
      from r(2) mid above [OF Ord_Greater] have "bisects o' lo hi r"
        by (auto simp: bisects_def split: sum.splits) (metis not_less)+
      with r(1) step Ord_Greater show ?thesis by simp
    qed (use step mid in \<open>auto simp: bisects_def\<close>)
  next
    case False
    with less.prems have "binary_search (\<lambda>i. Inr (o' i)) lo hi = (Inr (Inl lo) :: 'e + _)" "bisects o' lo hi (Inl lo)"
      by (auto simp: binary_search.simps [of _ hi hi] bisects_def)
    then show ?thesis by blast
  qed
qed

lemma comparatorD:
  assumes "total_comparator cmp"
  shows "cmp a b = Ord_Less \<Longrightarrow> cmp b a = Ord_Greater" "cmp a b = Ord_Greater \<Longrightarrow> cmp b a = Ord_Less"
    "cmp a b = Ord_Equal \<Longrightarrow> cmp b a = Ord_Equal"
    "cmp a b = Ord_Less \<Longrightarrow> cmp b c \<noteq> Ord_Greater \<Longrightarrow> cmp a c = Ord_Less"
    "cmp a b \<noteq> Ord_Greater \<Longrightarrow> cmp b c = Ord_Less \<Longrightarrow> cmp a c = Ord_Less"
    "cmp a b = Ord_Equal \<Longrightarrow> cmp a c = cmp b c" "cmp a a = Ord_Equal"
  using assms unfolding total_comparator_def by (metis ordering.exhaust ordering.distinct(1,3,5))+

lemma search_sorted:
  assumes "total_comparator cmp" "sorted_keys cmp al"
  shows "\<exists>r. binary_search (\<lambda>i. Inr (cmp (fst (al ! i)) k)) 0 (length al) = (Inr r :: 'e + _) \<and>
    bisects (\<lambda>i. cmp (fst (al ! i)) k) 0 (length al) r"
proof (rule binary_search_bisects)
  note cmp = comparatorD [OF assms(1)]
  have lt: "cmp (fst (al ! i)) (fst (al ! j)) = Ord_Less" if "i < j" "j < length al" for i j
    using assms(2) that by (simp add: sorted_keys_def sorted_wrt_iff_nth_less)
  show "i < j \<Longrightarrow> j < length al \<Longrightarrow> cmp (fst (al ! j)) k = Ord_Less \<Longrightarrow> cmp (fst (al ! i)) k = Ord_Less" for i j
    using lt cmp(4) by fastforce
  show "i < j \<Longrightarrow> j < length al \<Longrightarrow> cmp (fst (al ! i)) k = Ord_Greater \<Longrightarrow> cmp (fst (al ! j)) k = Ord_Greater" for i j
    using lt [of i j] cmp(1,2,4) by (metis ordering.distinct(3))
qed simp_all

text \<open>The two ways an entry is put into sorted entries.\<close>

lemma insert_swap: "S = insert a R \<Longrightarrow> U = insert b R \<Longrightarrow> \<not> P a \<Longrightarrow> (\<And>r. r \<in> R \<Longrightarrow> P r) \<Longrightarrow> U = insert b {e \<in> S. P e}"
  by auto

lemma replace_sorted:
  assumes "total_comparator cmp" "sorted_keys cmp al" "i < length al" "cmp (fst (al ! i)) k = Ord_Equal"
  shows "sorted_keys cmp (al[i := (k, v)])"
    "set (al[i := (k, v)]) = insert (k, v) {e \<in> set al. cmp (fst e) k \<noteq> Ord_Equal}"
proof -
  note cmp = comparatorD [OF assms(1)]
  have lt: "cmp (fst (al ! a)) (fst (al ! b)) = Ord_Less" if "a < b" "b < length al" for a b
    using assms(2) that by (simp add: sorted_keys_def sorted_wrt_iff_nth_less)
  have same: "cmp (fst (al ! i)) c = cmp k c" for c using cmp(6) [OF assms(4)] .
  have same': "cmp c (fst (al ! i)) = cmp c k" for c
    using same cmp(1-3) by (metis ordering.exhaust)
  have "cmp (fst (al[i := (k, v)] ! a)) (fst (al[i := (k, v)] ! b)) = Ord_Less" if "a < b" "b < length al" for a b
    using lt [OF that] same [of "fst (al ! b)"] same' [of "fst (al ! a)"] that assms(3)
    by (cases "a = i"; cases "b = i") auto
  then show "sorted_keys cmp (al[i := (k, v)])"
    by (simp add: sorted_keys_def sorted_wrt_iff_nth_less)
  have other: "cmp (fst (al ! j)) k \<noteq> Ord_Equal" if "j < length al" "j \<noteq> i" for j
    using lt [of i j] lt [of j i] that assms(3) same [of "fst (al ! j)"] same' [of "fst (al ! j)"] cmp(1,3)
    by (metis nat_neq_iff ordering.distinct(1,3,5))
  have rest: "cmp (fst e) k \<noteq> Ord_Equal" if "e \<in> set (take i al) \<union> set (drop (Suc i) al)" for e
    using that assms(3) other by (auto simp: in_set_conv_nth)
  have "set al = insert (al ! i) (set (take i al) \<union> set (drop (Suc i) al))"
    by (subst id_take_nth_drop [OF assms(3)]) (simp only: set_append list.set Un_insert_right)
  moreover have "set (al[i := (k, v)]) = insert (k, v) (set (take i al) \<union> set (drop (Suc i) al))"
    by (simp only: upd_conv_take_nth_drop [OF assms(3)] set_append list.set Un_insert_right)
  ultimately show "set (al[i := (k, v)]) = insert (k, v) {e \<in> set al. cmp (fst e) k \<noteq> Ord_Equal}"
    by (rule insert_swap) (simp_all only: assms(4) rest not_True_eq_False not_False_eq_True simp_thms)
qed

lemma insert_sorted:
  assumes "total_comparator cmp" "sorted_keys cmp al" "p \<le> length al"
    "\<And>i. i < p \<Longrightarrow> cmp (fst (al ! i)) k = Ord_Less" "\<And>i. p \<le> i \<Longrightarrow> i < length al \<Longrightarrow> cmp (fst (al ! i)) k = Ord_Greater"
  shows "sorted_keys cmp (list_insert p (k, v) al)"
    "set (list_insert p (k, v) al) = insert (k, v) {e \<in> set al. cmp (fst e) k \<noteq> Ord_Equal}"
proof -
  note cmp = comparatorD [OF assms(1)]
  have before: "cmp (fst e) k = Ord_Less" if "e \<in> set (take p al)" for e
    using that assms(3,4) by (auto simp: in_set_conv_nth)
  have after: "cmp (fst e) k = Ord_Greater" if "e \<in> set (drop p al)" for e
    using that assms(3,5) by (auto simp: in_set_conv_nth)
  have "sorted_wrt (\<lambda>a b. cmp (fst a) (fst b) = Ord_Less) (take p al @ drop p al)"
    using assms(2) by (simp add: sorted_keys_def)
  note parts = this [unfolded sorted_wrt_append]
  then show "sorted_keys cmp (list_insert p (k, v) al)"
    using before cmp(2) [OF after] unfolding sorted_keys_def list_insert_def sorted_wrt_append by simp
  have "set al = set (take p al) \<union> set (drop p al)" by (metis append_take_drop_id set_append)
  with before after show "set (list_insert p (k, v) al) = insert (k, v) {e \<in> set al. cmp (fst e) k \<noteq> Ord_Equal}"
    by (auto simp: list_insert_def)
qed

text \<open>
  C21.  \<open>assoc_with\<close> under a total comparator always returns, keeps the comparator, keeps the
  entries strictly sorted, and holds exactly the new entry and the old entries whose keys the
  comparator does not find equal to the new key.
\<close>

theorem sorted_assoc_correct:
  assumes "total_comparator cmp" "sorted_keys cmp (sb_items m)"
  shows "\<exists>m'. sbm_assoc_with (\<lambda>a b. Inr (cmp a b)) m k v = (Inr m' :: 'e + _) \<and> sb_comparator m' = sb_comparator m \<and>
    sorted_keys cmp (sb_items m') \<and>
    set (sb_items m') = insert (k, v) {e \<in> set (sb_items m). cmp (fst e) k \<noteq> Ord_Equal}"
proof -
  from search_sorted [OF assms, of k] obtain r where
    r: "binary_search (\<lambda>i. Inr (cmp (fst (sb_items m ! i)) k)) 0 (length (sb_items m)) = (Inr r :: 'e + _)"
    "bisects (\<lambda>i. cmp (fst (sb_items m ! i)) k) 0 (length (sb_items m)) r" by blast
  show ?thesis
  proof (cases r)
    case (Inl p)
    with r(2) insert_sorted [OF assms, of p k v] show ?thesis
      by (simp add: sbm_assoc_with_def r(1) bisects_def)
  next
    case (Inr i)
    with r(2) replace_sorted [OF assms, of i k v] show ?thesis
      by (simp add: sbm_assoc_with_def r(1) bisects_def)
  qed
qed

definition int_ordering :: "int \<Rightarrow> int \<Rightarrow> ordering" where
  "int_ordering a b = (if a < b then Ord_Greater else if a = b then Ord_Equal else Ord_Less)"

theorem sorted_assoc_correct_witness:
  "\<exists>m'. sbm_assoc_with (\<lambda>a b. Inr (int_ordering a b)) \<lparr>sb_comparator = (), sb_items = [(9, 1), (5, 2), (3, 3 :: nat)]\<rparr> 5 7 =
      (Inr m' :: unit + _) \<and> sb_comparator m' = () \<and> sorted_keys int_ordering (sb_items m') \<and>
    set (sb_items m') = {(9, 1), (5, 7), (3, 3)}"
proof -
  have cmp: "total_comparator int_ordering" by (auto simp: total_comparator_def int_ordering_def)
  have sorted: "sorted_keys int_ordering (sb_items \<lparr>sb_comparator = (), sb_items = [(9, 1), (5, 2), (3, 3 :: nat)]\<rparr>)"
    by (simp add: sorted_keys_def int_ordering_def)
  have "insert (5, 7) {e \<in> {(9, 1), (5, 2), (3, 3)}. int_ordering (fst e) 5 \<noteq> Ord_Equal} = {(9, 1), (5, 7), (3, 3 :: nat)}"
    by (auto simp: int_ordering_def)
  with sorted_assoc_correct [OF cmp sorted, of 5 7] show ?thesis by simp
qed

section \<open>Transients\<close>

text \<open>A batch of updates of a transient, which stops at the first error.\<close>

fun transient_run :: "('s \<Rightarrow> 'e + 's) list \<Rightarrow> 's \<Rightarrow> 'e + 's" where
  "transient_run [] tr = Inr tr"
| "transient_run (f # fs) tr = (case f tr of Inl e \<Rightarrow> Inl e | Inr tr' \<Rightarrow> transient_run fs tr')"

fun map_update_op :: "('i, 'o, 'k, 'k \<times> 'v) hash_ops \<Rightarrow> ('k, 'v) map_update \<Rightarrow>
    ('i, 'o) hash_map transient \<Rightarrow> value_error + ('i, 'o) hash_map transient" where
  "map_update_op hx (Assoc k v) = tm_assoc hx k v"
| "map_update_op hx (Dissoc k) = tm_dissoc hx k"

lemma map_update_live:
  "\<not> tr_persisted tr \<Longrightarrow>
   map_update_op hx u tr = Inr (tr\<lparr>tr_inner := update_with (hm_assoc hx) (hm_dissoc hx) u (tr_inner tr)\<rparr>)"
  by (cases u) (simp_all add: tm_assoc_def tm_dissoc_def transient_update_def)

lemma map_update_dead: "tr_persisted tr \<Longrightarrow> map_update_op hx u tr = Inl TransientAlreadyPersisted"
  by (cases u) (simp_all add: tm_assoc_def tm_dissoc_def transient_update_def)

lemma map_run_live:
  "\<not> tr_persisted tr \<Longrightarrow>
   transient_run (map (map_update_op hx) us) tr =
     Inr (tr\<lparr>tr_inner := fold (update_with (hm_assoc hx) (hm_dissoc hx)) us (tr_inner tr)\<rparr>)"
  by (induction us arbitrary: tr) (simp_all add: map_update_live)


section \<open>Hash sets\<close>

lemma hs_conj_spec:
  assumes "hash_ok eq (\<lambda>x. x) hx m"
  shows "hash_ok eq (\<lambda>x. x) hx (hs_conj hx m x)"
    "hm_iter hx (hs_conj hx m x) = (if list_ex (\<lambda>y. eq y x) (hm_iter hx m) then hm_iter hx m else hm_iter hx m @ [x])"
proof -
  note has = hash_ok_contains [OF assms, of x]
  have fresh: "\<not> hm_contains_key hx m x \<Longrightarrow> mo_get (hx_index hx) (hm_index m) x = None"
    by (simp add: hm_contains_key_def)
  show "hash_ok eq (\<lambda>x. x) hx (hs_conj hx m x)"
    using assms fresh hash_ok_fresh(1) [OF assms, of x] by (simp add: hs_conj_def Let_def)
  show "hm_iter hx (hs_conj hx m x) = (if list_ex (\<lambda>y. eq y x) (hm_iter hx m) then hm_iter hx m else hm_iter hx m @ [x])"
    using has fresh hash_ok_fresh(2) [OF assms, of x] by (simp add: hs_conj_def Let_def)
qed

text \<open>The first element of each class, in the order given.\<close>

fun firsts :: "('a \<Rightarrow> 'a \<Rightarrow> bool) \<Rightarrow> 'a list \<Rightarrow> 'a list \<Rightarrow> 'a list" where
  "firsts eq acc [] = acc"
| "firsts eq acc (x # xs) = firsts eq (if list_ex (\<lambda>y. eq y x) acc then acc else acc @ [x]) xs"

text \<open>
  Collecting values into a hash set keeps the first of equal values, in the order they
  came; membership is membership up to \<open>=\<close>, and the count is the number of elements iterated.
\<close>

theorem hash_set_keeps_firsts:
  assumes "equivp eq" "hash_laws eq (hx_index hx)" "tree_laws (hx_order hx)"
  shows "hm_iter hx (hs_from_iter hx xs) = firsts eq [] xs \<and>
    (hm_contains_key hx (hs_from_iter hx xs) x \<longleftrightarrow> list_ex (\<lambda>y. eq y x) (firsts eq [] xs)) \<and>
    hm_count hx (hs_from_iter hx xs) = length (firsts eq [] xs)"
proof -
  have run: "hash_ok eq (\<lambda>x. x) hx m \<Longrightarrow> hash_ok eq (\<lambda>x. x) hx (fold (\<lambda>x m. hs_conj hx m x) xs m) \<and>
      hm_iter hx (fold (\<lambda>x m. hs_conj hx m x) xs m) = firsts eq (hm_iter hx m) xs" for m
    by (induction xs arbitrary: m) (simp_all add: hs_conj_spec)
  from run [of "hm_empty hx"] hash_ok_empty [OF assms, of "\<lambda>x. x"]
  have ok: "hash_ok eq (\<lambda>x. x) hx (hs_from_iter hx xs)" "hm_iter hx (hs_from_iter hx xs) = firsts eq [] xs"
    by (simp_all add: hs_from_iter_def)
  from ok(2) hash_ok_contains [OF ok(1), of x] hash_ok_count [OF ok(1)] show ?thesis by simp
qed

end
