(* ===== verification/Datom_Codec.thy ===== *)
theory Datom_Codec
  imports Byte_Codec
begin

text \<open>
  The order-preserving encoding of datom values,
  \<^verbatim>\<open>crates/cljrs-datalog-store/src/codec.rs\<close>.  A double is its bit pattern, a string the
  list of its characters, a UUID the list of its sixteen bytes.  The decoder takes fuel, one unit
  per call and loop iteration; \<open>None\<close> is running out of it, which never happens with the fuel
  \<open>codec_decode\<close> gives.
\<close>

unbundle bit_operations_syntax

section \<open>Values and tags\<close>

datatype store_value =
    SV_Bool bool
  | SV_Long i64
  | SV_Double u64
  | SV_Instant i64
  | SV_Str str
  | SV_Keyword str
  | SV_Uuid "byte list"
  | SV_Ref u64
  | SV_Bytes "byte list"
  | SV_Vec "store_value list"

definition tag_bool :: byte where "tag_bool = 0x10"
definition tag_long :: byte where "tag_long = 0x20"
definition tag_double :: byte where "tag_double = 0x30"
definition tag_instant :: byte where "tag_instant = 0x40"
definition tag_str :: byte where "tag_str = 0x50"
definition tag_keyword :: byte where "tag_keyword = 0x60"
definition tag_uuid :: byte where "tag_uuid = 0x70"
definition tag_ref :: byte where "tag_ref = 0x80"
definition tag_bytes :: byte where "tag_bytes = 0x90"
definition tag_vec :: byte where "tag_vec = 0xA0"
definition tag_vec_end :: byte where "tag_vec_end = 0x01"
definition tag_giant_str :: byte where "tag_giant_str = 0x51"
definition tag_giant_bytes :: byte where "tag_giant_bytes = 0x91"

lemmas tag_defs = tag_bool_def tag_long_def tag_double_def tag_instant_def tag_str_def tag_keyword_def
  tag_uuid_def tag_ref_def tag_bytes_def tag_vec_def tag_vec_end_def tag_giant_str_def tag_giant_bytes_def

definition giant_threshold :: nat where "giant_threshold = 400"
definition giant_prefix :: nat where "giant_prefix = 64"

section \<open>Numbers\<close>

text \<open>\<open>to_be_bytes\<close> and \<open>from_be_bytes\<close>, for a number of \<open>n\<close> bytes.\<close>

fun be_bytes :: "nat \<Rightarrow> nat \<Rightarrow> byte list" where
  "be_bytes 0 x = []"
| "be_bytes (Suc n) x = of_nat (x div 256 ^ n) # be_bytes n x"

definition be_value :: "byte list \<Rightarrow> nat" where
  "be_value bs = foldl (\<lambda>acc b. acc * 256 + unat b) 0 bs"

definition sign_bit :: u64 where
  "sign_bit = push_bit 63 1"

definition order_i64 :: "i64 \<Rightarrow> byte list" where
  "order_i64 n = be_bytes 8 (unat (n XOR sign_bit))"

definition unorder_i64 :: "byte list \<Rightarrow> i64" where
  "unorder_i64 bs = of_nat (be_value bs) XOR sign_bit"

definition order_f64 :: "u64 \<Rightarrow> byte list" where
  "order_f64 bits =
     (let ordered = (if bits AND sign_bit = 0 then bits OR sign_bit else NOT bits)
      in be_bytes 8 (unat ordered))"

definition unorder_f64 :: "byte list \<Rightarrow> u64" where
  "unorder_f64 bs =
     (let ordered = of_nat (be_value bs)
      in if ordered AND sign_bit \<noteq> 0 then ordered AND NOT sign_bit else NOT ordered)"

section \<open>Escaped bytes\<close>

fun push_escaped :: "byte list \<Rightarrow> byte list \<Rightarrow> byte list" where
  "push_escaped [] out = out @ [0, 0]"
| "push_escaped (b # raw) out = push_escaped raw (if b = 0 then out @ [b, 1] else out @ [b])"

text \<open>The loop of \<open>pop_escaped\<close>, with the bytes read, the position and the bytes ahead.\<close>

fun pop_escaped_loop :: "byte list \<Rightarrow> nat \<Rightarrow> byte list \<Rightarrow> string + byte list \<times> nat" where
  "pop_escaped_loop raw i [] = Inl ''unterminated escaped bytes''"
| "pop_escaped_loop raw i (b # bs) =
     (if b = 0 then
        (case bs of
           [] \<Rightarrow> Inl ''unterminated escape''
         | c # bs' \<Rightarrow>
             if c = 0 then Inr (raw, i + 2)
             else if c = 1 then pop_escaped_loop (raw @ [0]) (i + 2) bs'
             else Inl ''invalid escape'')
      else pop_escaped_loop (raw @ [b]) (i + 1) bs)"

definition pop_escaped :: "byte list \<Rightarrow> string + byte list \<times> nat" where
  "pop_escaped bytes = pop_escaped_loop [] 0 bytes"

section \<open>Encoding\<close>

fun encode_inline :: "store_value \<Rightarrow> byte list \<Rightarrow> byte list" where
  "encode_inline (SV_Bool b) out = out @ [tag_bool, if b then 1 else 0]"
| "encode_inline (SV_Long n) out = out @ [tag_long] @ order_i64 n"
| "encode_inline (SV_Instant n) out = out @ [tag_instant] @ order_i64 n"
| "encode_inline (SV_Double d) out = out @ [tag_double] @ order_f64 d"
| "encode_inline (SV_Str s) out = push_escaped (utf8_bytes s) (out @ [tag_str])"
| "encode_inline (SV_Keyword s) out = push_escaped (utf8_bytes s) (out @ [tag_keyword])"
| "encode_inline (SV_Uuid b) out = out @ [tag_uuid] @ b"
| "encode_inline (SV_Ref e) out = out @ [tag_ref] @ be_bytes 8 (unat e)"
| "encode_inline (SV_Bytes b) out = push_escaped b (out @ [tag_bytes])"
| "encode_inline (SV_Vec items) out = fold encode_inline items (out @ [tag_vec]) @ [tag_vec_end]"

section \<open>Decoding\<close>

datatype decoded = D_Value store_value | D_Giant byte u64

text \<open>\<open>bytes.get(..n)\<close>, with the error of its \<open>ok_or\<close>.\<close>

definition first_bytes :: "nat \<Rightarrow> string \<Rightarrow> byte list \<Rightarrow> string + byte list" where
  "first_bytes n err bs = (if n \<le> length bs then Inr (take n bs) else Inl err)"

definition decode_leaf :: "byte \<Rightarrow> byte list \<Rightarrow> string + decoded \<times> nat" where
  "decode_leaf tag rest =
     (if tag = tag_bool then
        (case rest of [] \<Rightarrow> Inl ''truncated bool'' | b # _ \<Rightarrow> Inr (D_Value (SV_Bool (b \<noteq> 0)), 2))
      else if tag = tag_long \<or> tag = tag_instant then
        (case first_bytes 8 ''truncated long'' rest of
           Inl e \<Rightarrow> Inl e
         | Inr b \<Rightarrow> Inr (D_Value (if tag = tag_long then SV_Long (unorder_i64 b) else SV_Instant (unorder_i64 b)), 9))
      else if tag = tag_double then
        (case first_bytes 8 ''truncated double'' rest of
           Inl e \<Rightarrow> Inl e | Inr b \<Rightarrow> Inr (D_Value (SV_Double (unorder_f64 b)), 9))
      else if tag = tag_str \<or> tag = tag_keyword then
        (case pop_escaped rest of
           Inl e \<Rightarrow> Inl e
         | Inr (raw, used) \<Rightarrow>
             (case from_utf8 raw of
                None \<Rightarrow> Inl ''invalid utf8''
              | Some s \<Rightarrow> Inr (D_Value (if tag = tag_str then SV_Str s else SV_Keyword s), 1 + used)))
      else if tag = tag_uuid then
        (case first_bytes 16 ''truncated uuid'' rest of
           Inl e \<Rightarrow> Inl e | Inr b \<Rightarrow> Inr (D_Value (SV_Uuid b), 17))
      else if tag = tag_ref then
        (case first_bytes 8 ''truncated ref'' rest of
           Inl e \<Rightarrow> Inl e | Inr b \<Rightarrow> Inr (D_Value (SV_Ref (of_nat (be_value b))), 9))
      else if tag = tag_bytes then
        (case pop_escaped rest of
           Inl e \<Rightarrow> Inl e | Inr (raw, used) \<Rightarrow> Inr (D_Value (SV_Bytes raw), 1 + used))
      else if tag = tag_giant_str \<or> tag = tag_giant_bytes then
        (case first_bytes 8 ''truncated giant'' (drop giant_prefix rest) of
           Inl e \<Rightarrow> Inl e
         | Inr b \<Rightarrow> Inr (D_Giant tag (of_nat (be_value b)), 1 + giant_prefix + 8))
      else Inl ''unknown value tag'')"

text \<open>\<open>decode\<close> and its loop over the elements of a vector, at position \<open>at\<close> with \<open>rest\<close> ahead.\<close>

fun decode_at :: "nat \<Rightarrow> byte list \<Rightarrow> (string + decoded \<times> nat) option"
  and decode_items :: "nat \<Rightarrow> nat \<Rightarrow> store_value list \<Rightarrow> byte list \<Rightarrow> (string + decoded \<times> nat) option" where
  "decode_at 0 bytes = None"
| "decode_at (Suc n) bytes =
     (case bytes of
        [] \<Rightarrow> Some (Inl ''empty value encoding'')
      | tag # rest \<Rightarrow> if tag = tag_vec then decode_items n 1 [] rest else Some (decode_leaf tag rest))"
| "decode_items 0 at items rest = None"
| "decode_items (Suc n) at items rest =
     (case rest of
        [] \<Rightarrow> Some (Inl ''unterminated vector encoding'')
      | b # _ \<Rightarrow>
          if b = tag_vec_end then Some (Inr (D_Value (SV_Vec items), at + 1))
          else
            (case decode_at n rest of
               None \<Rightarrow> None
             | Some (Inl e) \<Rightarrow> Some (Inl e)
             | Some (Inr (D_Value v, used)) \<Rightarrow> decode_items n (at + used) (items @ [v]) (drop used rest)
             | Some (Inr (D_Giant _ _, _)) \<Rightarrow> Some (Inl ''giant inside vector encoding'')))"

definition codec_decode :: "byte list \<Rightarrow> (string + decoded \<times> nat) option" where
  "codec_decode bytes = decode_at (2 * length bytes + 2) bytes"

end
