(* ===== verification/Datalog_Store.thy ===== *)
theory Datalog_Store
  imports Datom_Codec "HOL-Library.AList"
begin

text \<open>
  The datalog triple store, \<^verbatim>\<open>crates/cljrs-datalog-store/src/lib.rs\<close>.  The database below it
  (the vendored C library behind \<^verbatim>\<open>cljrs-lmdb\<close>) and SHA-256 are arguments: a record of the calls
  the store makes.  A database value is what a transaction sees; aborting a transaction goes back to
  the value before it.  A database is read through the entries a full cursor walk yields, and any
  read, write or commit may fail with a code.
\<close>

unbundle bit_operations_syntax

section \<open>The database\<close>

datatype dbi = Eav | Ave | Vae | Schema | Meta | Giants | Giant_Ids

type_synonym entries = "(byte list \<times> byte list) list"

record 'd storage =
  st_begin :: "'d \<Rightarrow> int option"
  st_fault :: "'d \<Rightarrow> dbi \<Rightarrow> int option"
  st_entries :: "'d \<Rightarrow> dbi \<Rightarrow> entries"
  st_put :: "'d \<Rightarrow> dbi \<Rightarrow> byte list \<Rightarrow> byte list \<Rightarrow> int + 'd"
  st_del :: "'d \<Rightarrow> dbi \<Rightarrow> byte list \<Rightarrow> int + 'd"
  st_commit :: "'d \<Rightarrow> int + 'd"
  st_digest :: "byte list \<Rightarrow> byte list"

datatype store_error = SE_Lmdb int | SE_Codec string | SE_Missing_Giant u64

type_synonym 'a res = "store_error + 'a"

definition rbind :: "'a res \<Rightarrow> ('a \<Rightarrow> 'b res) \<Rightarrow> 'b res" where
  "rbind m f = (case m of Inl e \<Rightarrow> Inl e | Inr a \<Rightarrow> f a)"

text \<open>A loop that decodes entry after entry and stops at the first error.\<close>

fun collect :: "('a \<Rightarrow> 'b res) \<Rightarrow> 'a list \<Rightarrow> 'b list res" where
  "collect f [] = Inr []"
| "collect f (x # xs) = rbind (f x) (\<lambda>y. rbind (collect f xs) (\<lambda>ys. Inr (y # ys)))"

text \<open>The reads of \<open>RoTxn\<close>.\<close>

definition read_txn :: "'d storage \<Rightarrow> 'd \<Rightarrow> unit res" where
  "read_txn st db = (case st_begin st db of Some c \<Rightarrow> Inl (SE_Lmdb c) | None \<Rightarrow> Inr ())"

definition ro_entries :: "'d storage \<Rightarrow> 'd \<Rightarrow> dbi \<Rightarrow> entries res" where
  "ro_entries st db t = (case st_fault st db t of Some c \<Rightarrow> Inl (SE_Lmdb c) | None \<Rightarrow> Inr (st_entries st db t))"

definition ro_get :: "'d storage \<Rightarrow> 'd \<Rightarrow> dbi \<Rightarrow> byte list \<Rightarrow> byte list option res" where
  "ro_get st db t k = rbind (ro_entries st db t) (\<lambda>es. Inr (map_of es k))"

definition keys_from :: "byte list \<Rightarrow> entries \<Rightarrow> byte list list" where
  "keys_from low es = dropWhile (\<lambda>k. k < low) (map fst es)"

definition keys_below :: "byte list \<Rightarrow> entries \<Rightarrow> byte list list" where
  "keys_below high es = takeWhile (\<lambda>k. k < high) (map fst es)"

definition ro_count_all :: "'d storage \<Rightarrow> 'd \<Rightarrow> dbi \<Rightarrow> u64 res" where
  "ro_count_all st db t = rbind (ro_entries st db t) (\<lambda>es. Inr (of_nat (length es)))"

definition ro_key_rank :: "'d storage \<Rightarrow> 'd \<Rightarrow> dbi \<Rightarrow> byte list \<Rightarrow> u64 option res" where
  "ro_key_rank st db t k =
     rbind (ro_entries st db t) (\<lambda>es.
     Inr (if k \<in> set (map fst es) then Some (of_nat (length (takeWhile (\<lambda>j. j \<noteq> k) (map fst es)))) else None))"

definition mdb_notfound :: int where "mdb_notfound = -30798"

text \<open>\<open>count_below\<close> seeks the first key that is not below and asks for its rank.\<close>

definition ro_count_below :: "'d storage \<Rightarrow> 'd \<Rightarrow> dbi \<Rightarrow> byte list \<Rightarrow> u64 res" where
  "ro_count_below st db t k =
     rbind (ro_entries st db t) (\<lambda>es.
       case keys_from k es of
         [] \<Rightarrow> ro_count_all st db t
       | found # _ \<Rightarrow>
           rbind (ro_key_rank st db t found) (\<lambda>r.
             case r of Some n \<Rightarrow> Inr n | None \<Rightarrow> Inl (SE_Lmdb mdb_notfound)))"

definition ro_get_rank :: "'d storage \<Rightarrow> 'd \<Rightarrow> dbi \<Rightarrow> u64 \<Rightarrow> byte list option res" where
  "ro_get_rank st db t rank =
     rbind (ro_entries st db t) (\<lambda>es. Inr (if unat rank < length es then Some (fst (es ! unat rank)) else None))"

section \<open>Datoms, attributes and the store\<close>

record datom =
  d_e :: u64
  d_a :: str
  d_v :: store_value

datatype op = Add u64 str store_value | Retract u64 str store_value

record attr_props =
  cardinality_many :: bool
  ref_type :: bool
  unique_identity :: bool
  unique_value :: bool

definition default_props :: attr_props where
  "default_props = \<lparr>cardinality_many = False, ref_type = False, unique_identity = False, unique_value = False\<rparr>"

record 'd store =
  sr_db :: 'd
  sr_attrs :: "(str \<times> u32 \<times> attr_props) list"
  sr_names :: "(u32 \<times> str) list"

definition meta_max_eid :: "byte list" where "meta_max_eid = ascii_bytes (lit ''max-eid'')"
definition meta_next_aid :: "byte list" where "meta_next_aid = ascii_bytes (lit ''next-aid'')"
definition meta_next_giant :: "byte list" where "meta_next_giant = ascii_bytes (lit ''next-giant'')"

definition be_u64 :: "u64 \<Rightarrow> byte list" where
  "be_u64 w = be_bytes 8 (unat w)"

definition be_u32 :: "u32 \<Rightarrow> byte list" where
  "be_u32 w = be_bytes 4 (unat w)"

definition u64_of :: "byte list \<Rightarrow> u64" where
  "u64_of bs = of_nat (be_value bs)"

definition u32_of :: "byte list \<Rightarrow> u32" where
  "u32_of bs = of_nat (be_value bs)"

text \<open>\<open>k.get(i..i + n)\<close> with the error of its \<open>ok_or\<close>.\<close>

definition key_part :: "nat \<Rightarrow> nat \<Rightarrow> string \<Rightarrow> byte list \<Rightarrow> byte list res" where
  "key_part i n err k = (if i + n \<le> length k then Inr (take n (drop i k)) else Inl (SE_Codec err))"

definition eav_key :: "u64 \<Rightarrow> u32 \<Rightarrow> byte list \<Rightarrow> byte list" where
  "eav_key e aid venc = be_u64 e @ be_u32 aid @ venc"

definition ave_key :: "u32 \<Rightarrow> byte list \<Rightarrow> u64 \<Rightarrow> byte list" where
  "ave_key aid venc e = be_u32 aid @ venc @ be_u64 e"

definition vae_key :: "u64 \<Rightarrow> u32 \<Rightarrow> u64 \<Rightarrow> byte list" where
  "vae_key target aid e = be_u64 target @ be_u32 aid @ be_u64 e"

section \<open>Opening\<close>

definition props_of_flags :: "byte \<Rightarrow> attr_props" where
  "props_of_flags flags =
     \<lparr>cardinality_many = flags AND 1 \<noteq> 0, ref_type = flags AND 2 \<noteq> 0,
      unique_identity = flags AND 4 \<noteq> 0, unique_value = flags AND 8 \<noteq> 0\<rparr>"

definition load_attr :: "byte list \<times> byte list \<Rightarrow> (str \<times> u32 \<times> attr_props) res" where
  "load_attr = (\<lambda>(k, v).
     case from_utf8 k of
       None \<Rightarrow> Inl (SE_Codec ''schema attr not utf8'')
     | Some name \<Rightarrow>
         rbind (key_part 0 4 ''short schema entry'' v) (\<lambda>a.
         rbind (key_part 4 1 ''short schema entry'' v) (\<lambda>f.
         Inr (name, u32_of a, props_of_flags (hd f)))))"

text \<open>The environment and its tables are open; what is left is to read the schema into the caches.\<close>

definition open_store :: "'d storage \<Rightarrow> 'd \<Rightarrow> 'd store res" where
  "open_store st db =
     rbind (read_txn st db) (\<lambda>_.
     rbind (ro_entries st db Schema) (\<lambda>es.
     rbind (collect load_attr es) (\<lambda>rows.
     Inr \<lparr>sr_db = db,
          sr_attrs = fold (\<lambda>(name, a) m. AList.update name a m) rows [],
          sr_names = fold (\<lambda>(name, aid, p) m. AList.update aid name m) rows []\<rparr>)))"

section \<open>Write transactions\<close>

type_synonym ('d, 'a) txn = "'d store \<Rightarrow> 'a res \<times> 'd store"

definition tret :: "'a \<Rightarrow> ('d, 'a) txn" where
  "tret a s = (Inr a, s)"

definition tfail :: "store_error \<Rightarrow> ('d, 'a) txn" where
  "tfail e s = (Inl e, s)"

definition tbind :: "('d, 'a) txn \<Rightarrow> ('a \<Rightarrow> ('d, 'b) txn) \<Rightarrow> ('d, 'b) txn" where
  "tbind m f s = (case m s of (Inl e, s') \<Rightarrow> (Inl e, s') | (Inr a, s') \<Rightarrow> f a s')"

definition tread :: "('d \<Rightarrow> 'a res) \<Rightarrow> ('d, 'a) txn" where
  "tread f s = (f (sr_db s), s)"

definition tput :: "'d storage \<Rightarrow> dbi \<Rightarrow> byte list \<Rightarrow> byte list \<Rightarrow> ('d, unit) txn" where
  "tput st t k v s =
     (case st_put st (sr_db s) t k v of Inl c \<Rightarrow> (Inl (SE_Lmdb c), s) | Inr d \<Rightarrow> (Inr (), s\<lparr>sr_db := d\<rparr>))"

definition tdel :: "'d storage \<Rightarrow> dbi \<Rightarrow> byte list \<Rightarrow> ('d, unit) txn" where
  "tdel st t k s =
     (case st_del st (sr_db s) t k of Inl c \<Rightarrow> (Inl (SE_Lmdb c), s) | Inr d \<Rightarrow> (Inr (), s\<lparr>sr_db := d\<rparr>))"

text \<open>
  \<open>write_txn\<close>, the body, \<open>commit\<close>: an early return drops the transaction, which aborts it.  The
  caches of the store are not part of the transaction.
\<close>

definition in_write_txn :: "'d storage \<Rightarrow> ('d, 'a) txn \<Rightarrow> ('d, 'a) txn" where
  "in_write_txn st m s =
     (case st_begin st (sr_db s) of
        Some c \<Rightarrow> (Inl (SE_Lmdb c), s)
      | None \<Rightarrow>
          (case m s of
             (Inl e, s') \<Rightarrow> (Inl e, s'\<lparr>sr_db := sr_db s\<rparr>)
           | (Inr a, s') \<Rightarrow>
               (case st_commit st (sr_db s') of
                  Inl c \<Rightarrow> (Inl (SE_Lmdb c), s'\<lparr>sr_db := sr_db s\<rparr>)
                | Inr d \<Rightarrow> (Inr a, s'\<lparr>sr_db := d\<rparr>))))"

definition bump_counter :: "'d storage \<Rightarrow> byte list \<Rightarrow> ('d, u64) txn" where
  "bump_counter st key =
     tbind (tread (\<lambda>db. ro_get st db Meta key)) (\<lambda>b.
     tbind (case b of
              None \<Rightarrow> tret 0
            | Some b \<Rightarrow> if length b = 8 then tret (u64_of b) else tfail (SE_Codec ''bad meta counter'')) (\<lambda>current.
     let next = current + 1
     in tbind (tput st Meta key (be_u64 next)) (\<lambda>_. tret next)))"

definition flag_byte :: "attr_props \<Rightarrow> byte" where
  "flag_byte p =
     (if cardinality_many p then 1 else 0) OR (if ref_type p then 2 else 0) OR
     (if unique_identity p then 4 else 0) OR (if unique_value p then 8 else 0)"

text \<open>The second half of \<open>intern_attr\<close>: the schema entry, then the two caches.\<close>

definition record_attr :: "'d storage \<Rightarrow> str \<Rightarrow> u32 \<Rightarrow> attr_props \<Rightarrow> ('d, u32 \<times> attr_props) txn" where
  "record_attr st name aid props =
     tbind (tput st Schema (utf8_bytes name) (be_u32 aid @ [flag_byte props])) (\<lambda>_ s.
       (Inr (aid, props),
        s\<lparr>sr_attrs := AList.update name (aid, props) (sr_attrs s), sr_names := AList.update aid name (sr_names s)\<rparr>))"

definition intern_attr :: "'d storage \<Rightarrow> str \<Rightarrow> attr_props option \<Rightarrow> ('d, u32 \<times> attr_props) txn" where
  "intern_attr st name props s =
     (case map_of (sr_attrs s) name of
        Some (aid, current) \<Rightarrow>
          (case props of None \<Rightarrow> tret (aid, current) s | Some p \<Rightarrow> record_attr st name aid p s)
      | None \<Rightarrow>
          tbind (bump_counter st meta_next_aid) (\<lambda>n.
            record_attr st name (ucast n) (case props of None \<Rightarrow> default_props | Some p \<Rightarrow> p)) s)"

definition set_attr :: "'d storage \<Rightarrow> str \<Rightarrow> attr_props \<Rightarrow> ('d, unit) txn" where
  "set_attr st name props = in_write_txn st (tbind (intern_attr st name (Some props)) (\<lambda>_. tret ()))"

definition get_attr_props :: "'d store \<Rightarrow> str \<Rightarrow> attr_props option" where
  "get_attr_props s name = map_option snd (map_of (sr_attrs s) name)"

definition attrs_with_aids :: "'d store \<Rightarrow> (str \<times> u32 \<times> attr_props) list" where
  "attrs_with_aids s = sort_key (\<lambda>(name, aid, props). aid) (sr_attrs s)"

text \<open>Encoding for a key, which spills a long value into the giants table.\<close>

definition giant_raw :: "store_value \<Rightarrow> (byte \<times> byte list) option" where
  "giant_raw v =
     (case v of
        SV_Str s \<Rightarrow> Some (tag_giant_str, utf8_bytes s)
      | SV_Bytes b \<Rightarrow> Some (tag_giant_bytes, b)
      | _ \<Rightarrow> None)"

definition giant_key :: "byte \<Rightarrow> byte list \<Rightarrow> u64 \<Rightarrow> byte list" where
  "giant_key tag raw i = tag # take giant_prefix raw @ be_u64 i"

definition giant_id_of :: "byte list \<Rightarrow> u64 res" where
  "giant_id_of b = (if length b = 8 then Inr (u64_of b) else Inl (SE_Codec ''bad giant id''))"

definition intern_giant :: "'d storage \<Rightarrow> byte \<Rightarrow> byte list \<Rightarrow> ('d, u64) txn" where
  "intern_giant st tag raw =
     tbind (tread (\<lambda>db. ro_get st db Giant_Ids (st_digest st raw))) (\<lambda>existing.
       case existing of
         Some b \<Rightarrow> tread (\<lambda>db. giant_id_of b)
       | None \<Rightarrow>
           tbind (bump_counter st meta_next_giant) (\<lambda>i.
           tbind (tput st Giants (be_u64 i) (tag # raw)) (\<lambda>_.
           tbind (tput st Giant_Ids (st_digest st raw) (be_u64 i)) (\<lambda>_.
           tret i))))"

definition encode_value_for_key :: "'d storage \<Rightarrow> store_value \<Rightarrow> ('d, byte list) txn" where
  "encode_value_for_key st v =
     (let inline = encode_inline v []
      in if length inline \<le> giant_threshold then tret inline
         else
           (case giant_raw v of
              None \<Rightarrow> tfail (SE_Codec ''only strings and bytes can be giant'')
            | Some (tag, raw) \<Rightarrow> tbind (intern_giant st tag raw) (\<lambda>i. tret (giant_key tag raw i))))"

text \<open>The encoded values of an entity and attribute, read inside the transaction.\<close>

definition entity_attr_values :: "'d storage \<Rightarrow> u64 \<Rightarrow> u32 \<Rightarrow> 'd \<Rightarrow> byte list list res" where
  "entity_attr_values st e aid db =
     (let p = be_u64 e @ be_u32 aid
      in rbind (ro_entries st db Eav) (\<lambda>es.
         Inr (map (drop (length p)) (takeWhile (prefix p) (keys_from p es)))))"

definition insert_datom :: "'d storage \<Rightarrow> u64 \<Rightarrow> u32 \<Rightarrow> byte list \<Rightarrow> store_value \<Rightarrow> ('d, unit) txn" where
  "insert_datom st e aid venc v =
     tbind (tput st Eav (eav_key e aid venc) []) (\<lambda>_.
     tbind (tput st Ave (ave_key aid venc e) []) (\<lambda>_.
     case v of SV_Ref target \<Rightarrow> tput st Vae (vae_key target aid e) [] | _ \<Rightarrow> tret ()))"

text \<open>\<open>None\<close> from \<open>codec_decode\<close>, running out of fuel, does not happen.\<close>

definition codec_result :: "byte list \<Rightarrow> string + decoded \<times> nat" where
  "codec_result bytes = (case codec_decode bytes of None \<Rightarrow> Inl '''' | Some r \<Rightarrow> r)"

definition delete_datom :: "'d storage \<Rightarrow> u64 \<Rightarrow> u32 \<Rightarrow> byte list \<Rightarrow> ('d, unit) txn" where
  "delete_datom st e aid venc =
     tbind (tdel st Eav (eav_key e aid venc)) (\<lambda>_.
     tbind (tdel st Ave (ave_key aid venc e)) (\<lambda>_.
     if take 1 venc = [tag_ref] then
       (case codec_result venc of
          Inr (D_Value (SV_Ref target), _) \<Rightarrow> tdel st Vae (vae_key target aid e)
        | _ \<Rightarrow> tret ())
     else tret ()))"

definition delete_datom_encoded :: "'d storage \<Rightarrow> u64 \<Rightarrow> u32 \<Rightarrow> byte list \<Rightarrow> store_value \<Rightarrow> ('d, unit) txn" where
  "delete_datom_encoded st e aid venc v =
     tbind (tdel st Eav (eav_key e aid venc)) (\<lambda>_.
     tbind (tdel st Ave (ave_key aid venc e)) (\<lambda>_.
     case v of SV_Ref target \<Rightarrow> tdel st Vae (vae_key target aid e) | _ \<Rightarrow> tret ()))"

fun delete_all :: "'d storage \<Rightarrow> u64 \<Rightarrow> u32 \<Rightarrow> byte list list \<Rightarrow> ('d, unit) txn" where
  "delete_all st e aid [] = tret ()"
| "delete_all st e aid (existing # rest) = tbind (delete_datom st e aid existing) (\<lambda>_. delete_all st e aid rest)"

definition apply_op :: "'d storage \<Rightarrow> op \<Rightarrow> u64 \<Rightarrow> ('d, u64) txn" where
  "apply_op st oper max_eid =
     (case oper of
        Add e a v \<Rightarrow>
          tbind (intern_attr st a None) (\<lambda>(aid, props).
          tbind (if cardinality_many props then tret ()
                 else tbind (tread (entity_attr_values st e aid)) (delete_all st e aid)) (\<lambda>_.
          tbind (encode_value_for_key st v) (\<lambda>venc.
          tbind (insert_datom st e aid venc v) (\<lambda>_.
          tret (max max_eid e)))))
      | Retract e a v \<Rightarrow>
          tbind (intern_attr st a None) (\<lambda>(aid, props).
          tbind (encode_value_for_key st v) (\<lambda>venc.
          tbind (delete_datom_encoded st e aid venc v) (\<lambda>_.
          tret max_eid))))"

fun apply_ops :: "'d storage \<Rightarrow> op list \<Rightarrow> u64 \<Rightarrow> ('d, u64) txn" where
  "apply_ops st [] max_eid = tret max_eid"
| "apply_ops st (oper # ops) max_eid = tbind (apply_op st oper max_eid) (apply_ops st ops)"

definition counter_or_zero :: "byte list option \<Rightarrow> u64" where
  "counter_or_zero b = (case b of Some b \<Rightarrow> if length b = 8 then u64_of b else 0 | None \<Rightarrow> 0)"

definition transact :: "'d storage \<Rightarrow> op list \<Rightarrow> ('d, unit) txn" where
  "transact st ops =
     in_write_txn st
       (tbind (tread (\<lambda>db. ro_get st db Meta meta_max_eid)) (\<lambda>b.
        tbind (apply_ops st ops (counter_or_zero b)) (\<lambda>max_eid.
        tput st Meta meta_max_eid (be_u64 max_eid))))"

section \<open>Queries\<close>

definition lookup_aid :: "'d store \<Rightarrow> str \<Rightarrow> u32 option" where
  "lookup_aid s name = map_option fst (map_of (sr_attrs s) name)"

definition attr_name :: "'d store \<Rightarrow> u32 \<Rightarrow> str res" where
  "attr_name s aid =
     (case map_of (sr_names s) aid of Some name \<Rightarrow> Inr name | None \<Rightarrow> Inl (SE_Codec ''unknown aid in index''))"

definition max_eid :: "'d storage \<Rightarrow> 'd store \<Rightarrow> u64 res" where
  "max_eid st s =
     rbind (read_txn st (sr_db s)) (\<lambda>_.
     rbind (ro_get st (sr_db s) Meta meta_max_eid) (\<lambda>b. Inr (counter_or_zero b)))"

definition next_eid :: "'d storage \<Rightarrow> 'd store \<Rightarrow> u64 \<Rightarrow> u64 option res" where
  "next_eid st s from =
     rbind (read_txn st (sr_db s)) (\<lambda>_.
     rbind (ro_entries st (sr_db s) Eav) (\<lambda>es.
       case keys_from (be_u64 from) es of
         [] \<Rightarrow> Inr None
       | k # _ \<Rightarrow> rbind (key_part 0 8 ''short eav key'' k) (\<lambda>b. Inr (Some (u64_of b)))))"

definition decode_value :: "'d storage \<Rightarrow> 'd \<Rightarrow> byte list \<Rightarrow> (store_value \<times> nat) res" where
  "decode_value st db bytes =
     (case codec_result bytes of
        Inl m \<Rightarrow> Inl (SE_Codec m)
      | Inr (D_Value v, used) \<Rightarrow> Inr (v, used)
      | Inr (D_Giant tag i, used) \<Rightarrow>
          rbind (ro_get st db Giants (be_u64 i)) (\<lambda>stored.
            case stored of
              None \<Rightarrow> Inl (SE_Missing_Giant i)
            | Some [] \<Rightarrow> Inl (SE_Codec ''empty giant'')
            | Some (_ # raw) \<Rightarrow>
                if tag = tag_giant_str then
                  (case from_utf8 raw of
                     None \<Rightarrow> Inl (SE_Codec ''giant not utf8'')
                   | Some t \<Rightarrow> Inr (SV_Str t, used))
                else Inr (SV_Bytes raw, used)))"

text \<open>A value that was never stored gets the id 0, which no giant has.\<close>

definition encode_value_readonly :: "'d storage \<Rightarrow> 'd \<Rightarrow> store_value \<Rightarrow> byte list res" where
  "encode_value_readonly st db v =
     (let inline = encode_inline v []
      in if length inline \<le> giant_threshold then Inr inline
         else
           (case giant_raw v of
              None \<Rightarrow> Inl (SE_Codec ''only strings and bytes can be giant'')
            | Some (tag, raw) \<Rightarrow>
                rbind (ro_get st db Giant_Ids (st_digest st raw)) (\<lambda>existing.
                rbind (case existing of Some b \<Rightarrow> giant_id_of b | None \<Rightarrow> Inr 0) (\<lambda>i.
                Inr (giant_key tag raw i)))))"

text \<open>The three decoders of \<open>decode_index_entry\<close>, which the scans use as well.\<close>

definition decode_eav :: "'d storage \<Rightarrow> 'd store \<Rightarrow> byte list \<Rightarrow> datom res" where
  "decode_eav st s k =
     rbind (key_part 0 8 ''short eav key'' k) (\<lambda>e.
     rbind (key_part 8 4 ''short eav key'' k) (\<lambda>aid.
     rbind (decode_value st (sr_db s) (drop 12 k)) (\<lambda>(v, _).
     rbind (attr_name s (u32_of aid)) (\<lambda>a.
     Inr \<lparr>d_e = u64_of e, d_a = a, d_v = v\<rparr>))))"

definition decode_ave :: "'d storage \<Rightarrow> 'd store \<Rightarrow> byte list \<Rightarrow> datom res" where
  "decode_ave st s k =
     rbind (key_part 0 4 ''short ave key'' k) (\<lambda>aid.
     rbind (decode_value st (sr_db s) (drop 4 k)) (\<lambda>(v, used).
     rbind (key_part (4 + used) 8 ''short ave key'' k) (\<lambda>e.
     rbind (attr_name s (u32_of aid)) (\<lambda>a.
     Inr \<lparr>d_e = u64_of e, d_a = a, d_v = v\<rparr>))))"

definition decode_vae :: "'d store \<Rightarrow> u64 \<Rightarrow> byte list \<Rightarrow> datom res" where
  "decode_vae s target k =
     rbind (key_part 8 4 ''short vae key'' k) (\<lambda>aid.
     rbind (key_part 12 8 ''short vae key'' k) (\<lambda>e.
     rbind (attr_name s (u32_of aid)) (\<lambda>a.
     Inr \<lparr>d_e = u64_of e, d_a = a, d_v = SV_Ref target\<rparr>)))"

definition prefix_keys :: "'d storage \<Rightarrow> 'd \<Rightarrow> dbi \<Rightarrow> byte list \<Rightarrow> byte list list res" where
  "prefix_keys st db t p = rbind (ro_entries st db t) (\<lambda>es. Inr (takeWhile (prefix p) (keys_from p es)))"

definition scan_eav :: "'d storage \<Rightarrow> 'd store \<Rightarrow> byte list \<Rightarrow> datom list res" where
  "scan_eav st s p = rbind (prefix_keys st (sr_db s) Eav p) (collect (decode_eav st s))"

definition scan_ave :: "'d storage \<Rightarrow> 'd store \<Rightarrow> byte list \<Rightarrow> datom list res" where
  "scan_ave st s p = rbind (prefix_keys st (sr_db s) Ave p) (collect (decode_ave st s))"

definition scan_vae :: "'d storage \<Rightarrow> 'd store \<Rightarrow> u64 \<Rightarrow> datom list res" where
  "scan_vae st s target = rbind (prefix_keys st (sr_db s) Vae (be_u64 target)) (collect (decode_vae s target))"

text \<open>The derived \<open>PartialEq\<close> of values: doubles compare by IEEE equality.\<close>

definition f64_is_nan :: "u64 \<Rightarrow> bool" where
  "f64_is_nan b \<longleftrightarrow> 0x7FF0000000000000 < take_bit 63 b"

definition f64_eq :: "u64 \<Rightarrow> u64 \<Rightarrow> bool" where
  "f64_eq a b \<longleftrightarrow> \<not> f64_is_nan a \<and> \<not> f64_is_nan b \<and> (a = b \<or> take_bit 63 a = 0 \<and> take_bit 63 b = 0)"

fun value_eq :: "store_value \<Rightarrow> store_value \<Rightarrow> bool" where
  "value_eq (SV_Double a) w = (case w of SV_Double b \<Rightarrow> f64_eq a b | _ \<Rightarrow> False)"
| "value_eq (SV_Vec vs) w = (case w of SV_Vec ws \<Rightarrow> list_all2 value_eq vs ws | _ \<Rightarrow> False)"
| "value_eq v w = (v = w)"

definition retain_value :: "store_value option \<Rightarrow> datom list \<Rightarrow> datom list" where
  "retain_value v ds = (case v of None \<Rightarrow> ds | Some want \<Rightarrow> filter (\<lambda>d. value_eq (d_v d) want) ds)"

definition search_scan :: "'d storage \<Rightarrow> 'd store \<Rightarrow> u64 option \<Rightarrow> u32 option \<Rightarrow> store_value option \<Rightarrow>
    byte list option \<Rightarrow> datom list res" where
  "search_scan st s e aid v venc =
     (case e of
        Some e \<Rightarrow>
          (case aid of
             Some aid \<Rightarrow> scan_eav st s (be_u64 e @ be_u32 aid @ (case venc of None \<Rightarrow> [] | Some c \<Rightarrow> c))
           | None \<Rightarrow> rbind (scan_eav st s (be_u64 e)) (\<lambda>out. Inr (retain_value v out)))
      | None \<Rightarrow>
          (case aid of
             Some aid \<Rightarrow> scan_ave st s (be_u32 aid @ (case venc of None \<Rightarrow> [] | Some c \<Rightarrow> c))
           | None \<Rightarrow>
               (case v of
                  Some (SV_Ref target) \<Rightarrow> scan_vae st s target
                | _ \<Rightarrow> rbind (scan_eav st s []) (\<lambda>out. Inr (retain_value v out)))))"

definition search :: "'d storage \<Rightarrow> 'd store \<Rightarrow> u64 option \<Rightarrow> str option \<Rightarrow> store_value option \<Rightarrow> datom list res" where
  "search st s e a v =
     rbind (read_txn st (sr_db s)) (\<lambda>_.
       case a of
         Some name \<Rightarrow>
           (case lookup_aid s name of
              None \<Rightarrow> Inr []
            | Some aid \<Rightarrow>
                rbind (case v of None \<Rightarrow> Inr None | Some w \<Rightarrow> rbind (encode_value_readonly st (sr_db s) w) (\<lambda>c. Inr (Some c)))
                  (search_scan st s e (Some aid) v))
       | None \<Rightarrow>
           rbind (case v of None \<Rightarrow> Inr None | Some w \<Rightarrow> rbind (encode_value_readonly st (sr_db s) w) (\<lambda>c. Inr (Some c)))
             (search_scan st s e None v))"

section \<open>Counts\<close>

text \<open>Drop trailing \<open>0xFF\<close> bytes, then increment the last one.\<close>

fun successor_rev :: "byte list \<Rightarrow> byte list option" where
  "successor_rev [] = None"
| "successor_rev (b # bs) = (if b = 0xFF then successor_rev bs else Some (rev ((b + 1) # bs)))"

definition prefix_successor :: "byte list \<Rightarrow> byte list option" where
  "prefix_successor p = successor_rev (rev p)"

definition saturating_sub :: "u64 \<Rightarrow> u64 \<Rightarrow> u64" where
  "saturating_sub a b = (if b \<le> a then a - b else 0)"

definition count_prefix :: "'d storage \<Rightarrow> 'd \<Rightarrow> dbi \<Rightarrow> byte list \<Rightarrow> u64 res" where
  "count_prefix st db t p =
     rbind (ro_count_below st db t p) (\<lambda>start.
     rbind (case prefix_successor p of Some succ \<Rightarrow> ro_count_below st db t succ | None \<Rightarrow> ro_count_all st db t) (\<lambda>end'.
     Inr (saturating_sub end' start)))"

definition with_value :: "'d storage \<Rightarrow> 'd \<Rightarrow> byte list \<Rightarrow> store_value option \<Rightarrow> byte list res" where
  "with_value st db p v =
     (case v of None \<Rightarrow> Inr p | Some w \<Rightarrow> rbind (encode_value_readonly st db w) (\<lambda>c. Inr (p @ c)))"

definition count_datoms :: "'d storage \<Rightarrow> 'd store \<Rightarrow> u64 option \<Rightarrow> str option \<Rightarrow> store_value option \<Rightarrow> u64 res" where
  "count_datoms st s e a v =
     rbind (read_txn st (sr_db s)) (\<lambda>_.
       case a of
         Some name \<Rightarrow>
           (case lookup_aid s name of
              None \<Rightarrow> Inr 0
            | Some aid \<Rightarrow>
                (case e of
                   Some e \<Rightarrow> rbind (with_value st (sr_db s) (be_u64 e @ be_u32 aid) v) (count_prefix st (sr_db s) Eav)
                 | None \<Rightarrow> rbind (with_value st (sr_db s) (be_u32 aid) v) (count_prefix st (sr_db s) Ave)))
       | None \<Rightarrow>
           (case (e, v) of
              (Some e, None) \<Rightarrow> count_prefix st (sr_db s) Eav (be_u64 e)
            | (None, Some (SV_Ref target)) \<Rightarrow> count_prefix st (sr_db s) Vae (be_u64 target)
            | (None, None) \<Rightarrow> ro_count_all st (sr_db s) Eav
            | _ \<Rightarrow> rbind (search st s e a v) (\<lambda>ds. Inr (of_nat (length ds)))))"

definition cardinality :: "'d storage \<Rightarrow> 'd store \<Rightarrow> str \<Rightarrow> u64 res" where
  "cardinality st s a = count_datoms st s None (Some a) None"

definition sample_at :: "'d storage \<Rightarrow> 'd store \<Rightarrow> str \<Rightarrow> u64 \<Rightarrow> datom list res" where
  "sample_at st s a rank =
     rbind (ro_get_rank st (sr_db s) Ave rank) (\<lambda>k.
       case k of
         None \<Rightarrow> Inr []
       | Some k \<Rightarrow>
           rbind (decode_value st (sr_db s) (drop 4 k)) (\<lambda>(v, used).
           rbind (key_part (4 + used) 8 ''short ave key'' k) (\<lambda>e.
           Inr [\<lparr>d_e = u64_of e, d_a = a, d_v = v\<rparr>])))"

definition sample_ave :: "'d storage \<Rightarrow> 'd store \<Rightarrow> str \<Rightarrow> u64 \<Rightarrow> datom list res" where
  "sample_ave st s a n =
     (case lookup_aid s a of
        None \<Rightarrow> Inr []
      | Some aid \<Rightarrow>
          rbind (read_txn st (sr_db s)) (\<lambda>_.
          rbind (ro_count_below st (sr_db s) Ave (be_u32 aid)) (\<lambda>start.
          rbind (count_prefix st (sr_db s) Ave (be_u32 aid)) (\<lambda>total.
            if total = 0 \<or> n = 0 then Inr []
            else
              let take' = min n total
              in rbind (collect (\<lambda>i. sample_at st s a (start + (of_nat i * total) div take')) [0 ..< unat take'])
                   (\<lambda>rows. Inr (concat rows))))))"

section \<open>Ranges\<close>

datatype index = Index_Eav | Index_Ave | Index_Vae

record bound =
  b_e :: "u64 option"
  b_a :: "str option"
  b_v :: "store_value option"
  b_closed :: bool

fun index_dbi :: "index \<Rightarrow> dbi" where
  "index_dbi Index_Eav = Eav"
| "index_dbi Index_Ave = Ave"
| "index_dbi Index_Vae = Vae"

fun bound_prefix :: "'d storage \<Rightarrow> 'd store \<Rightarrow> index \<Rightarrow> bound \<Rightarrow> byte list option res" where
  "bound_prefix st s Index_Eav b =
     (case b_e b of
        Some e \<Rightarrow>
          (case b_a b of
             Some name \<Rightarrow>
               (case lookup_aid s name of
                  None \<Rightarrow> Inr None
                | Some aid \<Rightarrow> rbind (with_value st (sr_db s) (be_u64 e @ be_u32 aid) (b_v b)) (\<lambda>k. Inr (Some k)))
           | None \<Rightarrow> if b_v b \<noteq> None then Inl (SE_Codec ''eav bound has v without a'') else Inr (Some (be_u64 e)))
      | None \<Rightarrow> if b_a b \<noteq> None \<or> b_v b \<noteq> None then Inl (SE_Codec ''eav bound has a/v without e'') else Inr (Some []))"
| "bound_prefix st s Index_Ave b =
     (case b_a b of
        Some name \<Rightarrow>
          (case lookup_aid s name of
             None \<Rightarrow> Inr None
           | Some aid \<Rightarrow>
               (case b_v b of
                  Some v \<Rightarrow>
                    rbind (encode_value_readonly st (sr_db s) v) (\<lambda>c.
                    Inr (Some (be_u32 aid @ c @ (case b_e b of Some e \<Rightarrow> be_u64 e | None \<Rightarrow> []))))
                | None \<Rightarrow>
                    if b_e b \<noteq> None then Inl (SE_Codec ''ave bound has e without v'') else Inr (Some (be_u32 aid))))
      | None \<Rightarrow> if b_v b \<noteq> None \<or> b_e b \<noteq> None then Inl (SE_Codec ''ave bound has v/e without a'') else Inr (Some []))"
| "bound_prefix st s Index_Vae b =
     (case b_v b of
        Some v \<Rightarrow>
          (case v of
             SV_Ref target \<Rightarrow>
               (case b_a b of
                  Some name \<Rightarrow>
                    (case lookup_aid s name of
                       None \<Rightarrow> Inr None
                     | Some aid \<Rightarrow>
                         Inr (Some (be_u64 target @ be_u32 aid @ (case b_e b of Some e \<Rightarrow> be_u64 e | None \<Rightarrow> []))))
                | None \<Rightarrow>
                    if b_e b \<noteq> None then Inl (SE_Codec ''vae bound has e without a'') else Inr (Some (be_u64 target)))
           | _ \<Rightarrow> Inl (SE_Codec ''vae bound v must be a ref''))
      | None \<Rightarrow> if b_a b \<noteq> None \<or> b_e b \<noteq> None then Inl (SE_Codec ''vae bound has a/e without v'') else Inr (Some []))"

fun decode_index_entry :: "'d storage \<Rightarrow> 'd store \<Rightarrow> index \<Rightarrow> byte list \<Rightarrow> datom res" where
  "decode_index_entry st s Index_Eav k = decode_eav st s k"
| "decode_index_entry st s Index_Ave k = decode_ave st s k"
| "decode_index_entry st s Index_Vae k =
     rbind (key_part 0 8 ''short vae key'' k) (\<lambda>target. decode_vae s (u64_of target) k)"

definition low_key :: "bool \<Rightarrow> byte list \<Rightarrow> byte list option" where
  "low_key closed p = (if closed \<or> p = [] then Some p else prefix_successor p)"

definition high_key :: "bool \<Rightarrow> byte list \<Rightarrow> byte list option" where
  "high_key closed p = (if p = [] then None else if closed then prefix_successor p else Some p)"

definition resolve_range :: "'d storage \<Rightarrow> 'd store \<Rightarrow> index \<Rightarrow> bound \<Rightarrow> bound \<Rightarrow>
    (byte list \<times> byte list option) option res" where
  "resolve_range st s i low high =
     rbind (bound_prefix st s i low) (\<lambda>lo.
       case lo of
         None \<Rightarrow> Inr None
       | Some lo_prefix \<Rightarrow>
           rbind (bound_prefix st s i high) (\<lambda>hi.
             case hi of
               None \<Rightarrow> Inr None
             | Some hi_prefix \<Rightarrow>
                 (case low_key (b_closed low) lo_prefix of
                    None \<Rightarrow> Inr None
                  | Some lo_key \<Rightarrow>
                      let hi_excl = high_key (b_closed high) hi_prefix
                      in if (case hi_excl of Some h \<Rightarrow> h \<le> lo_key | None \<Rightarrow> False) then Inr None
                         else Inr (Some (lo_key, hi_excl)))))"

definition range_keys :: "entries \<Rightarrow> byte list \<Rightarrow> byte list option \<Rightarrow> byte list list" where
  "range_keys es lo hi = (case hi of None \<Rightarrow> keys_from lo es | Some h \<Rightarrow> takeWhile (\<lambda>k. k < h) (keys_from lo es))"

text \<open>The walk downwards starts at the last key below the upper end.\<close>

definition range_keys_down :: "entries \<Rightarrow> byte list \<Rightarrow> byte list option \<Rightarrow> byte list list" where
  "range_keys_down es lo hi =
     takeWhile (\<lambda>k. lo \<le> k) (rev (case hi of None \<Rightarrow> map fst es | Some h \<Rightarrow> keys_below h es))"

definition slice :: "'d storage \<Rightarrow> 'd store \<Rightarrow> index \<Rightarrow> bound \<Rightarrow> bound \<Rightarrow> nat option \<Rightarrow> bool \<Rightarrow> datom list res" where
  "slice st s i low high limit reverse =
     (if limit = Some 0 then Inr []
      else
        rbind (read_txn st (sr_db s)) (\<lambda>_.
        rbind (resolve_range st s i low high) (\<lambda>r.
          case r of
            None \<Rightarrow> Inr []
          | Some (lo, hi) \<Rightarrow>
              rbind (ro_entries st (sr_db s) (index_dbi i)) (\<lambda>es.
                let ks = (if reverse then range_keys_down es lo hi else range_keys es lo hi)
                in collect (decode_index_entry st s i) (case limit of None \<Rightarrow> ks | Some n \<Rightarrow> take n ks)))))"

definition count_range :: "'d storage \<Rightarrow> 'd store \<Rightarrow> index \<Rightarrow> bound \<Rightarrow> bound \<Rightarrow> u64 res" where
  "count_range st s i low high =
     rbind (read_txn st (sr_db s)) (\<lambda>_.
     rbind (resolve_range st s i low high) (\<lambda>r.
       case r of
         None \<Rightarrow> Inr 0
       | Some (lo, hi) \<Rightarrow>
           rbind (if lo = [] then Inr 0 else ro_count_below st (sr_db s) (index_dbi i) lo) (\<lambda>start.
           rbind (case hi of Some h \<Rightarrow> ro_count_below st (sr_db s) (index_dbi i) h
                           | None \<Rightarrow> ro_count_all st (sr_db s) (index_dbi i)) (\<lambda>end'.
           Inr (saturating_sub end' start)))))"

end
