(* ===== verification/Datom_Codec_Spec.thy ===== *)
theory Datom_Codec_Spec
  imports Datom_Codec
begin

text \<open>
  Correctness of the datom codec: values read back whatever follows them, no encoding is a
  prefix of another, and the order of the bytes is the order of the values, also inside
  composite keys.
\<close>

section \<open>Byte strings that differ\<close>

text \<open>The first difference of two byte strings decides their order, whatever follows.\<close>

definition splits_below :: "byte list \<Rightarrow> byte list \<Rightarrow> bool" where
  "splits_below x y \<longleftrightarrow> (\<exists>p a b x' y'. x = p @ a # x' \<and> y = p @ b # y' \<and> a < b)"

lemma splits_below_Cons: "a < b \<Longrightarrow> splits_below (a # x) (b # y)"
  unfolding splits_below_def by (metis append_Nil)

lemma splits_below_prefix: "splits_below x y \<Longrightarrow> splits_below (p @ x) (p @ y)"
  unfolding splits_below_def by (metis append_assoc)

lemma splits_below_cons: "splits_below x y \<Longrightarrow> splits_below (a # x) (a # y)"
  using splits_below_prefix [of x y "[a]"] by simp

lemma splits_below_append: "splits_below x y \<Longrightarrow> splits_below (x @ r) (y @ s)"
  unfolding splits_below_def by fastforce

lemma splits_below_less: "splits_below x y \<Longrightarrow> x < y"
proof -
  have less: "a < b \<Longrightarrow> p @ a # x' < p @ b # y'" for p :: "byte list" and a b x' y'
    by (induction p) auto
  assume "splits_below x y"
  then show ?thesis unfolding splits_below_def using less by blast
qed

lemma less_cases:
  assumes "(x :: byte list) < y"
  shows "strict_prefix x y \<or> splits_below x y"
  using assms
proof (induction x arbitrary: y)
  case (Cons a x)
  then obtain b y' where y: "y = b # y'" by (cases y) auto
  from Cons y consider "a < b" | "a = b" "x < y'" by auto
  then show ?case
  proof cases
    case 2
    with Cons.IH [of y'] y show ?thesis by (auto intro: splits_below_cons)
  qed (auto simp: y intro: splits_below_Cons)
qed (use neq_Nil_conv in \<open>auto simp: strict_prefix_def\<close>)

lemma append_less: "(p :: byte list) @ r < p @ s \<longleftrightarrow> r < s"
  by (induction p) auto

text \<open>
  The contract of an order-preserving code: of two values one is below the other, and then its
  code is below at the first byte where the codes differ.  Order, injectivity and freedom from
  prefixes follow, in every context.
\<close>

locale ordered_code =
  fixes enc :: "'a \<Rightarrow> byte list" and below :: "'a \<Rightarrow> 'a \<Rightarrow> bool" and wf :: "'a \<Rightarrow> bool"
  assumes enc_below: "wf v \<Longrightarrow> wf w \<Longrightarrow> below v w \<Longrightarrow> splits_below (enc v) (enc w)"
    and total: "wf v \<Longrightarrow> wf w \<Longrightarrow> v \<noteq> w \<Longrightarrow> below v w \<or> below w v"
begin

lemma below_irrefl: "wf v \<Longrightarrow> \<not> below v v"
  using enc_below [of v v] splits_below_less [of "enc v" "enc v"] by auto

lemma code_order: "wf v \<Longrightarrow> wf w \<Longrightarrow> v \<noteq> w \<Longrightarrow> enc v @ r < enc w @ s \<longleftrightarrow> below v w"
  using enc_below [of v w] enc_below [of w v] total [of v w]
  by (meson order.asym splits_below_append splits_below_less)

lemma code_order_iff: "wf v \<Longrightarrow> wf w \<Longrightarrow> enc v < enc w \<longleftrightarrow> below v w"
  using code_order [of v w "[]" "[]"] below_irrefl by (cases "v = w") auto

lemma code_split: "wf v \<Longrightarrow> wf w \<Longrightarrow> enc v @ r = enc w @ s \<longleftrightarrow> v = w \<and> r = s"
  using code_order [of v w r s] code_order [of w v s r] total [of v w]
  by (metis order.irrefl same_append_eq)

lemma pair_order: "wf v \<Longrightarrow> wf w \<Longrightarrow> enc v @ r < enc w @ s \<longleftrightarrow> below v w \<or> v = w \<and> r < s"
  using code_order [of v w r s] below_irrefl [of v] by (cases "v = w") (auto simp: append_less)

end

section \<open>Numbers\<close>

lemma length_be_bytes [simp]: "length (be_bytes n x) = n"
  by (induction n) simp_all

lemma be_value_Cons: "be_value (b # bs) = unat b * 256 ^ length bs + be_value bs"
proof -
  have "foldl (\<lambda>acc b. acc * 256 + unat b) a bs = a * 256 ^ length bs + be_value bs" for a
  proof (induction bs arbitrary: a)
    case (Cons c cs)
    from Cons [of "a * 256 + unat c"] Cons [of "unat c"] show ?case
      by (simp add: be_value_def algebra_simps)
  qed (simp add: be_value_def)
  from this [of "unat b"] show ?thesis by (simp add: be_value_def)
qed

lemma be_value_Nil [simp]: "be_value [] = 0"
  by (simp add: be_value_def)

lemma unat_byte_less: "unat (b :: byte) < 256"
  using uint_lt2p [of b] by (subst of_nat_less_iff [symmetric, where 'a = int]) simp

lemma be_value_less: "be_value bs < 256 ^ length bs"
proof (induction bs)
  case (Cons b bs)
  have "unat b * 256 ^ length bs + be_value bs < (unat b + 1) * 256 ^ length bs" using Cons by simp
  also have "\<dots> \<le> 256 * 256 ^ length bs"
    using unat_byte_less [of b] by (intro mult_right_mono) auto
  finally show ?case by (simp add: be_value_Cons)
qed simp

lemma unat_byte_of_nat: "unat (of_nat x :: byte) = x mod 256"
  by (simp add: unat_of_nat)

lemma be_value_bytes [simp]: "be_value (be_bytes n x) = x mod 256 ^ n"
proof (induction n)
  case (Suc n)
  have "x mod (256 ^ n * 256) = 256 ^ n * (x div 256 ^ n mod 256) + x mod 256 ^ n" by (rule mod_mult2_eq)
  with Suc show ?case by (simp add: be_value_Cons unat_byte_of_nat mult.commute)
qed simp

lemma be_bytes_mod: "k \<le> n \<Longrightarrow> be_bytes k (z mod 256 ^ n) = be_bytes k z"
proof (induction k)
  case (Suc k)
  have pow: "(256 :: nat) ^ m = 2 ^ (8 * m)" for m by (simp add: power_mult)
  have "take_bit 8 (drop_bit (8 * k) (take_bit (8 * n) z)) = take_bit 8 (drop_bit (8 * k) z)"
  proof -
    have "8 \<le> 8 * n - 8 * k" using Suc.prems by arith
    then show ?thesis by (simp add: drop_bit_take_bit min_def)
  qed
  then have "z mod 256 ^ n div 256 ^ k mod 256 = z div 256 ^ k mod 256"
    by (simp add: take_bit_eq_mod drop_bit_eq_div pow)
  then have "of_nat (z mod 256 ^ n div 256 ^ k) = (of_nat (z div 256 ^ k) :: byte)"
    by (simp add: word_unat_eq_iff unat_byte_of_nat)
  with Suc show ?case by simp
qed simp

lemma be_bytes_below: "x < y \<Longrightarrow> y < 256 ^ n \<Longrightarrow> splits_below (be_bytes n x) (be_bytes n y)"
proof (induction n arbitrary: x y)
  case (Suc n)
  have small: "x div 256 ^ n < 256" "y div 256 ^ n < 256"
    using Suc.prems by (simp_all add: less_mult_imp_div_less mult.commute)
  have reduce: "be_bytes n z = be_bytes n (z mod 256 ^ n)" for z by (simp add: be_bytes_mod)
  show ?case
  proof (cases "x div 256 ^ n = y div 256 ^ n")
    case True
    with Suc.prems(1) have "x mod 256 ^ n < y mod 256 ^ n"
      by (metis add_less_cancel_left div_mult_mod_eq)
    with Suc.IH [of "x mod 256 ^ n" "y mod 256 ^ n"] reduce [of x] reduce [of y] True show ?thesis
      by (simp add: splits_below_cons)
  next
    case False
    with Suc.prems(1) have "x div 256 ^ n < y div 256 ^ n"
      by (metis div_le_mono le_neq_implies_less less_imp_le_nat)
    with small show ?thesis
      by (auto intro!: splits_below_Cons simp: word_less_nat_alt unat_byte_of_nat)
  qed
qed simp

text \<open>The sign bit.\<close>

lemma uint_sign: "uint sign_bit = 2 ^ 63"
  by (simp add: sign_bit_def)

lemma bit_sign: "bit sign_bit i \<longleftrightarrow> i = 63"
  unfolding sign_bit_def bit_push_bit_iff bit_1_iff by auto

lemma and_sign: "w AND sign_bit = 0 \<longleftrightarrow> \<not> bit w 63"
proof
  assume "w AND sign_bit = 0"
  then have "bit (w AND sign_bit) 63 \<longleftrightarrow> bit (0 :: u64) 63" by simp
  then show "\<not> bit w 63" by (simp add: bit_and_iff bit_sign)
next
  assume "\<not> bit w 63"
  then show "w AND sign_bit = 0" by (intro bit_eqI) (auto simp: bit_and_iff bit_sign)
qed

lemma xor_sign: "w XOR sign_bit = w + sign_bit"
proof (cases "bit w 63")
  case False
  then show ?thesis using disjunctive_add_eq_xor [of w sign_bit] and_sign [of w] by simp
next
  case True
  define v where "v = w XOR sign_bit"
  have "\<not> bit v 63" using True by (simp add: v_def bit_simps bit_sign)
  then have "v + sign_bit = v XOR sign_bit" using disjunctive_add_eq_xor [of v sign_bit] and_sign [of v] by simp
  also have "\<dots> = w" by (simp add: v_def xor.assoc)
  finally have "w + sign_bit = v + (sign_bit + sign_bit)" by (simp add: algebra_simps)
  also have "sign_bit + sign_bit = 0" by (simp add: sign_bit_def)
  finally show ?thesis by (simp add: v_def)
qed

lemma unat_xor_sign: "int (unat (w XOR sign_bit)) = sint w + 2 ^ 63" for w :: i64
proof -
  have "sint w + 2 ^ 63 = take_bit 64 (uint w + 2 ^ 63)"
    by (simp add: sint_uint signed_take_bit_eq_take_bit_shift)
  also have "\<dots> = uint (w + sign_bit)" by (simp add: uint_word_ariths uint_sign take_bit_eq_mod)
  finally show ?thesis by (simp add: xor_sign)
qed

text \<open>
  Doubles by the IEEE total order: the rank of a positive pattern is its magnitude, negative
  patterns rank below in the reverse order of their magnitudes.
\<close>

definition f64_rank :: "u64 \<Rightarrow> int" where
  "f64_rank b = (if bit b 63 then 2 ^ 63 - 1 - uint b else uint b)"

lemma unat_order_f64:
  "int (unat (if b AND sign_bit = 0 then b OR sign_bit else NOT b)) = f64_rank b + 2 ^ 63"
proof (cases "bit b 63")
  case False
  then have "b AND sign_bit = 0" by (simp add: and_sign)
  then have "b OR sign_bit = b + sign_bit" by (simp add: disjunctive_add_eq_or)
  moreover have "uint b < 2 ^ 63"
  proof -
    have "\<not> bit (uint b) 63" using False by (simp add: bit_uint_iff)
    then have "\<not> odd (uint b div 2 ^ 63)" unfolding bit_int_def .
    moreover have "uint b div 2 ^ 63 < 2" using uint_lt2p [of b] by (simp add: less_mult_imp_div_less)
    moreover have "0 \<le> uint b div 2 ^ 63" by (simp add: pos_imp_zdiv_nonneg_iff)
    moreover have "q = 0" if "\<not> odd q" "q < 2" "0 \<le> q" for q :: int using that by presburger
    ultimately have "uint b div 2 ^ 63 = 0" by blast
    then show ?thesis using zdiv_eq_0_iff [of "uint b" "2 ^ 63"] uint_ge_0 [of b] by simp
  qed
  ultimately show ?thesis using False and_sign [of b] by (simp add: f64_rank_def uint_word_ariths uint_sign)
next
  case True
  then have "b AND sign_bit \<noteq> 0" by (simp add: and_sign)
  moreover have "uint (NOT b) = 2 ^ 64 - 1 - uint b"
  proof -
    have "uint (NOT b) = (- uint b - 1) mod 2 ^ 64"
      by (simp add: not_eq_complement uint_word_ariths mod_diff_left_eq)
    also have "\<dots> = (- uint b - 1 + 2 ^ 64) mod 2 ^ 64" by (simp only: mod_add_self2)
    also have "\<dots> = - uint b - 1 + 2 ^ 64" using uint_lt2p [of b] less_le_trans [OF _ uint_ge_0 [of b], of "-1"] by (intro mod_pos_pos_trivial) simp_all
    finally show ?thesis by simp
  qed
  ultimately show ?thesis using True by (simp add: f64_rank_def)
qed

text \<open>Numbers of a fixed width in key order.\<close>

lemma unat_less_pow: "unat (w :: u64) < 256 ^ 8" "unat (a :: u32) < 256 ^ 4"
  using uint_lt2p [of w] uint_lt2p [of a] by (simp_all only: of_nat_less_iff [symmetric, where 'a = int]) simp_all

interpretation be64: ordered_code "\<lambda>w :: u64. be_bytes 8 (unat w)" "(<)" "\<lambda>w. True"
  by unfold_locales (auto simp: word_less_nat_alt [THEN iffD1] intro!: be_bytes_below unat_less_pow)

interpretation be32: ordered_code "\<lambda>w :: u32. be_bytes 4 (unat w)" "(<)" "\<lambda>w. True"
  by unfold_locales (auto simp: word_less_nat_alt [THEN iffD1] intro!: be_bytes_below unat_less_pow)

interpretation longs: ordered_code order_i64 "\<lambda>v w. sint v < sint w" "\<lambda>w. True"
proof unfold_locales
  fix v w :: i64
  assume "sint v < sint w"
  then have "int (unat (v XOR sign_bit)) < int (unat (w XOR sign_bit))" by (simp only: unat_xor_sign)
  then show "splits_below (order_i64 v) (order_i64 w)"
    by (simp only: order_i64_def of_nat_less_iff be_bytes_below unat_less_pow)
qed (metis linorder_neqE signed_word_eqI)

lemma f64_rank_sign: "bit b 63 \<longleftrightarrow> f64_rank b < 0"
proof -
  have "0 \<le> f64_rank b" if "\<not> bit b 63" using that by (simp add: f64_rank_def)
  moreover have "f64_rank b < 0" if "bit b 63"
  proof -
    have "bit (uint b) 63" using that by (simp add: bit_uint_iff)
    then have "uint b div 2 ^ 63 \<noteq> 0" unfolding bit_int_def by auto
    then have "\<not> uint b < 2 ^ 63" using zdiv_eq_0_iff [of "uint b" "2 ^ 63"] uint_ge_0 [of b] by simp
    then show ?thesis using that by (simp add: f64_rank_def)
  qed
  ultimately show ?thesis by force
qed

lemma f64_rank_inject: "f64_rank v = f64_rank w \<longleftrightarrow> v = w"
proof
  assume same: "f64_rank v = f64_rank w"
  then have "bit v 63 \<longleftrightarrow> bit w 63" by (simp add: f64_rank_sign)
  with same have "uint v = uint w" by (auto simp: f64_rank_def split: if_splits)
  then show "v = w" by (simp only: word_uint_eq_iff)
qed simp

interpretation doubles: ordered_code order_f64 "\<lambda>v w. f64_rank v < f64_rank w" "\<lambda>w. True"
proof unfold_locales
  fix v w :: u64
  assume "f64_rank v < f64_rank w"
  then have "int (unat (if v AND sign_bit = 0 then v OR sign_bit else NOT v)) <
      int (unat (if w AND sign_bit = 0 then w OR sign_bit else NOT w))" by (simp only: unat_order_f64)
  then show "splits_below (order_f64 v) (order_f64 w)"
    by (simp only: order_f64_def Let_def of_nat_less_iff be_bytes_below unat_less_pow)
qed (metis f64_rank_inject linorder_neqE)

section \<open>Escaped bytes\<close>

definition escaped :: "byte list \<Rightarrow> byte list" where
  "escaped raw = push_escaped raw []"

lemma push_escaped_append: "push_escaped raw out = out @ escaped raw"
proof -
  have "push_escaped raw (out @ out') = out @ push_escaped raw out'" for out'
    by (induction raw arbitrary: out') simp_all
  from this [of "[]"] show ?thesis by (simp add: escaped_def)
qed

lemma escaped_simps [simp]:
  "escaped [] = [0, 0]" "escaped (b # raw) = (if b = 0 then [0, 1] else [b]) @ escaped raw"
  using push_escaped_append [of raw "[0, 1]"] push_escaped_append [of raw "[b]"] by (simp_all add: escaped_def)

lemma escaped_below: "x < y \<Longrightarrow> splits_below (escaped x) (escaped y)"
proof (induction x arbitrary: y)
  case Nil
  then obtain b y' where "y = b # y'" by (cases y) auto
  moreover have "splits_below [0, 0] (0 # 1 # escaped y')" by (intro splits_below_cons splits_below_Cons) simp
  moreover have "b \<noteq> 0 \<Longrightarrow> splits_below [0, 0] (b # escaped y')" by (intro splits_below_Cons) (simp add: word_gt_0)
  ultimately show ?case by simp
next
  case (Cons a x)
  then obtain b y' where y: "y = b # y'" by (cases y) auto
  from Cons.prems y consider "a < b" | "a = b" "x < y'" by auto
  then show ?case
  proof cases
    case 1
    then have "b \<noteq> 0" by auto
    with 1 show ?thesis by (auto simp: y intro: splits_below_Cons)
  next
    case 2
    then show ?thesis by (auto simp: y intro!: splits_below_prefix Cons.IH splits_below_cons)
  qed
qed

interpretation escapes: ordered_code escaped "(<)" "\<lambda>w. True"
  by unfold_locales (auto simp: escaped_below)

lemma pop_escaped_loop: "pop_escaped_loop acc i (escaped raw @ rest) = Inr (acc @ raw, i + length (escaped raw))"
  by (induction raw arbitrary: acc i) simp_all

lemma pop_escaped: "pop_escaped (escaped raw @ rest) = Inr (raw, length (escaped raw))"
  by (simp add: pop_escaped_def pop_escaped_loop)

section \<open>Values\<close>

text \<open>What Rust's types guarantee of a value: characters are scalars and a UUID has sixteen bytes.\<close>

fun wf_value :: "store_value \<Rightarrow> bool" where
  "wf_value (SV_Str s) \<longleftrightarrow> list_all is_scalar s"
| "wf_value (SV_Keyword s) \<longleftrightarrow> list_all is_scalar s"
| "wf_value (SV_Uuid b) \<longleftrightarrow> length b = 16"
| "wf_value (SV_Vec items) \<longleftrightarrow> list_all wf_value items"
| "wf_value _ \<longleftrightarrow> True"

definition encoded :: "store_value \<Rightarrow> byte list" where
  "encoded v = encode_inline v []"

lemma datom_encode_append: "encode_inline v out = out @ encoded v"
proof -
  have "encode_inline v (out @ out') = out @ encode_inline v out'" for out out'
  proof (induction v arbitrary: out out')
    case (SV_Vec items)
    have "fold encode_inline items (out @ o') = out @ fold encode_inline items o'" for o'
      using SV_Vec by (induction items arbitrary: o') simp_all
    then show ?case by simp
  qed (simp_all add: push_escaped_append)
  from this [of out "[]"] show ?thesis by (simp add: encoded_def)
qed

definition encoded_items :: "store_value list \<Rightarrow> byte list" where
  "encoded_items items = concat (map encoded items) @ [tag_vec_end]"

lemma encoded_simps [simp]:
  "encoded (SV_Bool b) = [tag_bool, if b then 1 else 0]"
  "encoded (SV_Long n) = tag_long # order_i64 n"
  "encoded (SV_Instant n) = tag_instant # order_i64 n"
  "encoded (SV_Double d) = tag_double # order_f64 d"
  "encoded (SV_Str s) = tag_str # escaped (utf8_bytes s)"
  "encoded (SV_Keyword s) = tag_keyword # escaped (utf8_bytes s)"
  "encoded (SV_Uuid u) = tag_uuid # u"
  "encoded (SV_Ref e) = tag_ref # be_bytes 8 (unat e)"
  "encoded (SV_Bytes u) = tag_bytes # escaped u"
  "encoded (SV_Vec items) = tag_vec # encoded_items items"
proof -
  have "fold encode_inline items out = out @ concat (map encoded items)" for out
    by (induction items arbitrary: out) (simp_all add: datom_encode_append)
  then show "encoded (SV_Vec items) = tag_vec # encoded_items items"
    by (simp add: encoded_def encoded_items_def)
qed (simp_all add: encoded_def push_escaped_append)

lemma encoded_items_simps [simp]:
  "encoded_items [] = [tag_vec_end]" "encoded_items (v # vs) = encoded v @ encoded_items vs"
  by (simp_all add: encoded_items_def)

text \<open>The tag of a value, which orders values of different types.\<close>

definition value_tag :: "store_value \<Rightarrow> byte" where
  "value_tag v = hd (encoded v)"

lemma encoded_tag: "encoded v = value_tag v # tl (encoded v)"
  by (cases v) (simp_all add: value_tag_def)

lemma value_tag_simps [simp]:
  "value_tag (SV_Bool b) = tag_bool" "value_tag (SV_Long n) = tag_long" "value_tag (SV_Instant n) = tag_instant"
  "value_tag (SV_Double d) = tag_double" "value_tag (SV_Str s) = tag_str" "value_tag (SV_Keyword s) = tag_keyword"
  "value_tag (SV_Uuid u) = tag_uuid" "value_tag (SV_Ref e) = tag_ref" "value_tag (SV_Bytes u) = tag_bytes"
  "value_tag (SV_Vec items) = tag_vec"
  by (simp_all add: value_tag_def)

text \<open>The order of values: by type, then numerically, by bytes, or element by element.\<close>

fun value_less :: "store_value \<Rightarrow> store_value \<Rightarrow> bool"
  and items_less :: "store_value list \<Rightarrow> store_value list \<Rightarrow> bool" where
  "value_less (SV_Bool a) w = (case w of SV_Bool b \<Rightarrow> \<not> a \<and> b | _ \<Rightarrow> value_tag (SV_Bool a) < value_tag w)"
| "value_less (SV_Long a) w = (case w of SV_Long b \<Rightarrow> sint a < sint b | _ \<Rightarrow> value_tag (SV_Long a) < value_tag w)"
| "value_less (SV_Instant a) w = (case w of SV_Instant b \<Rightarrow> sint a < sint b | _ \<Rightarrow> value_tag (SV_Instant a) < value_tag w)"
| "value_less (SV_Double a) w = (case w of SV_Double b \<Rightarrow> f64_rank a < f64_rank b | _ \<Rightarrow> value_tag (SV_Double a) < value_tag w)"
| "value_less (SV_Str a) w = (case w of SV_Str b \<Rightarrow> utf8_bytes a < utf8_bytes b | _ \<Rightarrow> value_tag (SV_Str a) < value_tag w)"
| "value_less (SV_Keyword a) w = (case w of SV_Keyword b \<Rightarrow> utf8_bytes a < utf8_bytes b | _ \<Rightarrow> value_tag (SV_Keyword a) < value_tag w)"
| "value_less (SV_Uuid a) w = (case w of SV_Uuid b \<Rightarrow> a < b | _ \<Rightarrow> value_tag (SV_Uuid a) < value_tag w)"
| "value_less (SV_Ref a) w = (case w of SV_Ref b \<Rightarrow> a < b | _ \<Rightarrow> value_tag (SV_Ref a) < value_tag w)"
| "value_less (SV_Bytes a) w = (case w of SV_Bytes b \<Rightarrow> a < b | _ \<Rightarrow> value_tag (SV_Bytes a) < value_tag w)"
| "value_less (SV_Vec a) w = (case w of SV_Vec b \<Rightarrow> items_less a b | _ \<Rightarrow> value_tag (SV_Vec a) < value_tag w)"
| "items_less [] ys = (ys \<noteq> [])"
| "items_less (x # xs) ys = (case ys of [] \<Rightarrow> False | y # ys' \<Rightarrow> value_less x y \<or> x = y \<and> items_less xs ys')"

lemma value_less_tags: "value_tag v \<noteq> value_tag w \<Longrightarrow> value_less v w \<longleftrightarrow> value_tag v < value_tag w"
  by (cases v) (auto split: store_value.split)

lemma tag_above_end: "tag_vec_end < value_tag v"
  by (cases v) (simp_all add: tag_defs)

lemma utf8_bytes_inject: "list_all is_scalar s \<Longrightarrow> list_all is_scalar t \<Longrightarrow> utf8_bytes s = utf8_bytes t \<longleftrightarrow> s = t"
  using from_utf8_bytes by (metis option.inject)

lemma same_length_below: "length x = length y \<Longrightarrow> x < y \<Longrightarrow> splits_below x y"
  using less_cases [of x y] by (auto simp: strict_prefix_def prefix_def)

text \<open>Values with the same tag have the same constructor.\<close>

lemma same_tag_cases:
  assumes "value_tag v = value_tag w"
  obtains (bool) a b where "v = SV_Bool a" "w = SV_Bool b"
    | (long) a b where "v = SV_Long a" "w = SV_Long b"
    | (instant) a b where "v = SV_Instant a" "w = SV_Instant b"
    | (double) a b where "v = SV_Double a" "w = SV_Double b"
    | (string) a b where "v = SV_Str a" "w = SV_Str b"
    | (keyword) a b where "v = SV_Keyword a" "w = SV_Keyword b"
    | (uuid) a b where "v = SV_Uuid a" "w = SV_Uuid b"
    | (entity) a b where "v = SV_Ref a" "w = SV_Ref b"
    | (blob) a b where "v = SV_Bytes a" "w = SV_Bytes b"
    | (tuple) a b where "v = SV_Vec a" "w = SV_Vec b"
  using assms by (cases v; cases w) (auto simp: tag_defs)

lemma tags_below: "value_tag v < value_tag w \<Longrightarrow> splits_below (encoded v) (encoded w)"
  using splits_below_Cons encoded_tag [of v] encoded_tag [of w] by metis

lemma leaf_below:
  assumes "wf_value v" "wf_value w" "value_less v w" "value_tag v \<noteq> tag_vec"
  shows "splits_below (encoded v) (encoded w)"
proof (cases "value_tag v = value_tag w")
  case True
  then show ?thesis
  proof (cases rule: same_tag_cases)
    case bool
    with assms(3) show ?thesis by (auto intro!: splits_below_cons [OF splits_below_Cons])
  next
    case uuid
    with assms show ?thesis by (auto intro!: splits_below_cons same_length_below)
  qed (use assms in \<open>auto intro!: splits_below_cons longs.enc_below doubles.enc_below be64.enc_below escapes.enc_below\<close>)
next
  case False
  with assms(3) show ?thesis by (simp add: value_less_tags tags_below)
qed

lemma items_below:
  assumes "\<And>x w. x \<in> set items \<Longrightarrow> wf_value x \<Longrightarrow> wf_value w \<Longrightarrow> value_less x w \<Longrightarrow> splits_below (encoded x) (encoded w)"
  shows "list_all wf_value items \<Longrightarrow> list_all wf_value ws \<Longrightarrow> items_less items ws \<Longrightarrow>
    splits_below (encoded_items items) (encoded_items ws)"
  using assms
proof (induction items arbitrary: ws)
  case Nil
  then obtain y ys where "ws = y # ys" by (cases ws) auto
  moreover have "splits_below [tag_vec_end] (value_tag y # tl (encoded y) @ encoded_items ys)"
    by (rule splits_below_Cons) (rule tag_above_end)
  ultimately show ?case using encoded_tag [of y] by (metis append_Cons encoded_items_simps)
next
  case (Cons x xs)
  then obtain y ys where y: "ws = y # ys" by (cases ws) auto
  from Cons.prems(3) y consider "value_less x y" | "x = y" "items_less xs ys" by auto
  then show ?case
  proof cases
    case 1
    with Cons.prems y show ?thesis by (auto intro: splits_below_append)
  next
    case 2
    with Cons y show ?thesis by (auto intro: splits_below_prefix)
  qed
qed

lemma encoded_below:
  "wf_value v \<Longrightarrow> wf_value w \<Longrightarrow> value_less v w \<Longrightarrow> splits_below (encoded v) (encoded w)"
proof (induction v arbitrary: w)
  case (SV_Vec items)
  show ?case
  proof (cases "value_tag w = tag_vec")
    case True
    then obtain ws where w: "w = SV_Vec ws" by (cases w) (auto simp: tag_defs)
    with SV_Vec.prems items_below [of items ws] SV_Vec.IH show ?thesis by (simp add: splits_below_cons)
  next
    case False
    with SV_Vec.prems(3) value_less_tags [of "SV_Vec items" w] show ?thesis
      by (intro tags_below) auto
  qed
qed (rule leaf_below; simp add: tag_defs)+

lemma leaf_total:
  assumes "wf_value v" "wf_value w" "v \<noteq> w" "value_tag v \<noteq> tag_vec"
  shows "value_less v w \<or> value_less w v"
proof (cases "value_tag v = value_tag w")
  case True
  then show ?thesis
  proof (cases rule: same_tag_cases)
    case (string a b)
    with assms utf8_bytes_inject [of a b] linorder_neq_iff [of "utf8_bytes a" "utf8_bytes b"] show ?thesis by auto
  next
    case (keyword a b)
    with assms utf8_bytes_inject [of a b] linorder_neq_iff [of "utf8_bytes a" "utf8_bytes b"] show ?thesis by auto
  qed (use assms longs.total doubles.total be64.total escapes.total in auto)
next
  case False
  then show ?thesis using value_less_tags [of v w] value_less_tags [of w v] by (auto simp: neq_iff)
qed

lemma value_total: "wf_value v \<Longrightarrow> wf_value w \<Longrightarrow> v \<noteq> w \<Longrightarrow> value_less v w \<or> value_less w v"
proof (induction v arbitrary: w)
  case (SV_Vec items)
  show ?case
  proof (cases "value_tag w = tag_vec")
    case True
    then obtain ws where w: "w = SV_Vec ws" by (cases w) (auto simp: tag_defs)
    have "items_less items ws \<or> items_less ws items"
      using SV_Vec.IH SV_Vec.prems unfolding w
    proof (induction items arbitrary: ws)
      case Nil
      then show ?case by (cases ws) auto
    next
      case (Cons x xs)
      show ?case
      proof (cases ws)
        case ws: (Cons y ys)
        show ?thesis
        proof (cases "x = y")
          case True
          with Cons.IH [of ys] Cons.prems ws show ?thesis by auto
        next
          case False
          with Cons.prems(1) [of x y] Cons.prems(2,3) ws show ?thesis by auto
        qed
      qed simp
    qed
    then show ?thesis by (simp add: w)
  next
    case False
    with value_less_tags [of "SV_Vec items" w] value_less_tags [of w "SV_Vec items"] show ?thesis
      by (auto simp: neq_iff)
  qed
qed (rule leaf_total; simp add: tag_defs)+

interpretation datoms: ordered_code encoded value_less wf_value
  by unfold_locales (auto intro: encoded_below dest: value_total)

section \<open>Reading back\<close>

lemma unat_be_value: "of_nat (be_value (be_bytes 8 (unat w))) = (w :: u64)"
  using unat_less_pow(1) [of w] by simp

lemma unorder_order_i64: "unorder_i64 (order_i64 n) = n"
  by (simp only: unorder_i64_def order_i64_def unat_be_value) (simp add: xor.assoc)

lemma unorder_order_f64: "unorder_f64 (order_f64 d) = d"
proof -
  have "bit (d OR sign_bit) 63" "bit (NOT d) 63 \<longleftrightarrow> \<not> bit d 63"
    by (simp_all add: bit_or_iff bit_not_iff bit_sign)
  moreover have "(d OR sign_bit) AND NOT sign_bit = d" if "\<not> bit d 63"
    using that by (intro bit_eqI) (auto simp: bit_simps bit_sign)
  ultimately show ?thesis
    unfolding unorder_f64_def order_f64_def Let_def unat_be_value
    by (simp add: and_sign split: if_split)
qed

lemma length_order [simp]: "length (order_i64 n) = 8" "length (order_f64 d) = 8"
  by (simp_all add: order_i64_def order_f64_def Let_def)

lemma decode_leaf_encoded:
  assumes "wf_value v" "value_tag v \<noteq> tag_vec"
  shows "decode_leaf (value_tag v) (tl (encoded v) @ rest) = Inr (D_Value v, length (encoded v))"
  using assms
  by (cases v) (simp_all add: decode_leaf_def first_bytes_def pop_escaped from_utf8_bytes unorder_order_i64
      unorder_order_f64 unat_be_value del: be_value_bytes, simp_all add: tag_defs)

lemma encoded_length: "1 \<le> length (encoded v)" "1 \<le> length (encoded_items vs)"
  using encoded_tag [of v] by (simp_all add: encoded_items_def Suc_le_eq neq_Nil_conv) metis

lemma decode_leaf_at:
  assumes "wf_value v" "value_tag v \<noteq> tag_vec" "length (encoded v) \<le> n"
  shows "decode_at n (encoded v @ rest) = Some (Inr (D_Value v, length (encoded v)))"
proof -
  obtain m where n: "n = Suc m" using assms(3) encoded_length(1) [of v] by (cases n) auto
  have e: "encoded v @ rest = value_tag v # tl (encoded v) @ rest" using encoded_tag [of v] by (metis append_Cons)
  show ?thesis unfolding n e using assms(2) decode_leaf_encoded [OF assms(1,2), of rest] by simp
qed

text \<open>Fuel for the length of an encoding is enough to read it.\<close>

lemma datom_decode_encoded:
  "wf_value v \<Longrightarrow> length (encoded v) \<le> n \<Longrightarrow> decode_at n (encoded v @ rest) = Some (Inr (D_Value v, length (encoded v)))"
proof (induction v arbitrary: n rest)
  case (SV_Vec items)
  have "decode_items n at acc (encoded_items vs @ rest) = Some (Inr (D_Value (SV_Vec (acc @ vs)), at + length (encoded_items vs)))"
    if "set vs \<subseteq> set items" "length (encoded_items vs) \<le> n" for vs n at acc
    using that
  proof (induction vs arbitrary: n at acc)
    case Nil
    then show ?case by (cases n) simp_all
  next
    case (Cons v vs)
    from Cons.prems(2) encoded_length(1) [of v] obtain m where m: "n = Suc m" by (cases n) auto
    have le: "length (encoded v) \<le> m" "length (encoded_items vs) \<le> m"
      using Cons.prems(2) encoded_length(1) [of v] encoded_length(2) [of vs]
      unfolding m encoded_items_simps length_append by linarith+
    have v: "decode_at m (encoded v @ encoded_items vs @ rest) = Some (Inr (D_Value v, length (encoded v)))"
      using SV_Vec.IH [of v m "encoded_items vs @ rest"] SV_Vec.prems(1) Cons.prems le
      by (auto simp: list_all_iff)
    have "decode_items m (at + length (encoded v)) (acc @ [v]) (encoded_items vs @ rest) =
        Some (Inr (D_Value (SV_Vec (acc @ v # vs)), at + length (encoded v) + length (encoded_items vs)))"
      using Cons.IH [of m "at + length (encoded v)" "acc @ [v]"] Cons.prems(1) le(2) by simp
    with v show ?case
      using encoded_tag [of v] tag_above_end [of v] by (cases "encoded v") (auto simp: m)
  qed
  from this [of items "n - 1" 1 "[]"] SV_Vec.prems(2) show ?case by (cases n) auto
qed (rule decode_leaf_at; simp add: tag_defs)+

text \<open>The decoder is total and stays within its input.\<close>

lemma pop_escaped_bounds: "pop_escaped_loop acc i bs = Inr (raw, j) \<Longrightarrow> i < j \<and> j \<le> i + length bs"
proof (induction acc i bs rule: pop_escaped_loop.induct)
  case (2 acc i b bs)
  show ?case
  proof (cases "b = 0")
    case True
    with 2 show ?thesis by (cases bs) (force split: if_splits)+
  next
    case False
    with 2 show ?thesis by auto
  qed
qed simp

lemma decode_leaf_bounds: "decode_leaf tag rest = Inr (d, used) \<Longrightarrow> 1 \<le> used \<and> used \<le> Suc (length rest)"
  using pop_escaped_bounds [of "[]" 0 rest]
  by (auto simp: decode_leaf_def first_bytes_def pop_escaped_def giant_prefix_def
      split: if_splits sum.splits list.splits option.splits prod.splits)

lemma datom_decode_total:
  "2 * length bytes + 1 \<le> n \<Longrightarrow>
     \<exists>r. decode_at n bytes = Some r \<and> (\<forall>d u. r = Inr (d, u) \<longrightarrow> 1 \<le> u \<and> u \<le> length bytes)"
  "2 * length bytes + 2 \<le> n \<Longrightarrow>
     \<exists>r. decode_items n at acc bytes = Some r \<and> (\<forall>d u. r = Inr (d, u) \<longrightarrow> at < u \<and> u \<le> at + length bytes)"
proof (induction n arbitrary: bytes at acc)
  case 0
  { case 1 then show ?case by simp next case 2 then show ?case by simp }
next
  case (Suc n)
  {
    case 1
    show ?case
    proof (cases bytes)
      case (Cons tag rest)
      show ?thesis
      proof (cases "tag = tag_vec")
        case True
        with Suc.IH(2) [of rest 1 "[]"] 1 Cons show ?thesis by force
      next
        case False
        with decode_leaf_bounds [of tag rest] Cons show ?thesis by auto
      qed
    qed simp
  next
    case 2
    show ?case
    proof (cases bytes)
      case (Cons b rest)
      show ?thesis
      proof (cases "b = tag_vec_end")
        case False
        from Suc.IH(1) [of bytes] 2 obtain r where r: "decode_at n bytes = Some r"
          "\<forall>d u. r = Inr (d, u) \<longrightarrow> 1 \<le> u \<and> u \<le> length bytes" by auto
        show ?thesis
        proof (cases r)
          case (Inl e)
          with r False Cons show ?thesis by simp
        next
          case (Inr p)
          obtain d u where p: "p = (d, u)" by (cases p)
          with r Inr have u: "1 \<le> u" "u \<le> length bytes" by auto
          show ?thesis
          proof (cases d)
            case (D_Value v)
            have "2 * length (drop u bytes) + 2 \<le> n" using u 2 by simp
            from Suc.IH(2) [OF this, of "at + u" "acc @ [v]"] u D_Value p Inr r(1) False Cons show ?thesis by force
          next
            case (D_Giant g i)
            with p Inr r(1) False Cons show ?thesis by simp
          qed
        qed
      qed (use Cons in simp)
    qed simp
  }
qed

text \<open>
  C24.  Every datom value reads back: decoding bytes that start with the encoding of a value gives
  that value and the length of its encoding, whatever follows; and decoding returns on all
  bytes, with a length within them.
\<close>

theorem datom_value_roundtrip:
  assumes "wf_value v"
  shows "codec_decode (encode_inline v [] @ rest) = Some (Inr (D_Value v, length (encode_inline v []))) \<and>
    (\<exists>r. codec_decode bytes = Some r \<and> (\<forall>d used. r = Inr (d, used) \<longrightarrow> 1 \<le> used \<and> used \<le> length bytes))"
  using datom_decode_encoded [OF assms, of "2 * length (encoded v @ rest) + 2" rest] datom_decode_total(1) [of bytes "2 * length bytes + 2"]
  by (simp add: codec_decode_def encoded_def)

theorem datom_value_roundtrip_witness:
  "codec_decode (encode_inline (SV_Vec [SV_Long (- 5), SV_Str [0, 955]]) [] @ [7, 7]) =
     Some (Inr (D_Value (SV_Vec [SV_Long (- 5), SV_Str [0, 955]]), 18))"
proof -
  have "wf_value (SV_Vec [SV_Long (- 5), SV_Str [0, 955]])" by (simp add: is_scalar_def)
  moreover have "length (encode_inline (SV_Vec [SV_Long (- 5), SV_Str [0, 955]]) []) = 18"
    by (simp add: datom_encode_append utf8_bytes_def utf8_units_def)
  ultimately show ?thesis using datom_value_roundtrip [of "SV_Vec [SV_Long (- 5), SV_Str [0, 955]]" "[7, 7]"] by simp
qed



text \<open>Negative NaN patterns sort below negative infinity, not above positive infinity.\<close>

lemma negative_nan_sorts_first: "order_f64 (NOT 0) < order_f64 f64_neg_infinity"
proof -
  have "bit (NOT 0 :: u64) 63" "bit f64_neg_infinity 63" by (simp_all add: f64_neg_infinity_def bit_simps)
  then have "f64_rank (NOT 0) < f64_rank f64_neg_infinity"
    by (simp add: f64_rank_def f64_neg_infinity_def unsigned_minus_1_eq_mask mask_eq_exp_minus_1)
  then show ?thesis using doubles.code_order_iff by blast
qed

end
