(* ===== verification/Datalog_Store_Spec.thy ===== *)
theory Datalog_Store_Spec
  imports Datalog_Store Datom_Codec_Spec
begin

text \<open>
  The triple store refines a set of datoms: transactions have the effect of their operations on the
  set, searches return exactly the matching datoms, and the counts agree with the searches.
\<close>

section \<open>What the database promises\<close>

text \<open>Entries are in key order; a write or a commit that succeeds does what it says and nothing else.\<close>

definition storage_laws :: "'d storage \<Rightarrow> bool" where
  "storage_laws st \<longleftrightarrow>
     (\<forall>d t. sorted_wrt (<) (map fst (st_entries st d t))) \<and>
     (\<forall>d t k v d'. st_put st d t k v = Inr d' \<longrightarrow>
        (\<forall>u. st_entries st d' u = (if u = t then put_sorted k v (st_entries st d t) else st_entries st d u))) \<and>
     (\<forall>d t k d'. st_del st d t k = Inr d' \<longrightarrow>
        (\<forall>u. st_entries st d' u = (if u = t then filter (\<lambda>e. fst e \<noteq> k) (st_entries st d t) else st_entries st d u))) \<and>
     (\<forall>d d'. st_commit st d = Inr d' \<longrightarrow> st_entries st d' = st_entries st d)"

text \<open>A database that does not fail: keys of 1 to 511 bytes are accepted, and a digest is such a key.\<close>

definition key_fits :: "byte list \<Rightarrow> bool" where
  "key_fits k \<longleftrightarrow> 0 < length k \<and> length k \<le> 511"

definition reliable :: "'d storage \<Rightarrow> bool" where
  "reliable st \<longleftrightarrow>
     (\<forall>d. st_begin st d = None) \<and> (\<forall>d t. st_fault st d t = None) \<and>
     (\<forall>d t k v. key_fits k \<longrightarrow> (\<exists>d'. st_put st d t k v = Inr d')) \<and>
     (\<forall>d t k. key_fits k \<longrightarrow> (\<exists>d'. st_del st d t k = Inr d')) \<and>
     (\<forall>d. \<exists>d'. st_commit st d = Inr d') \<and> (\<forall>raw. key_fits (st_digest st raw))"

type_synonym tables = "dbi \<Rightarrow> byte list \<rightharpoonup> byte list"

definition tabs :: "'d storage \<Rightarrow> 'd \<Rightarrow> tables" where
  "tabs st d t = map_of (st_entries st d t)"

definition sound :: "'d storage \<Rightarrow> bool" where
  "sound st \<longleftrightarrow> storage_laws st \<and> reliable st"

definition put_in :: "'d storage \<Rightarrow> dbi \<Rightarrow> byte list \<Rightarrow> byte list \<Rightarrow> 'd \<Rightarrow> 'd" where
  "put_in st t k v d = projr (st_put st d t k v)"

definition del_in :: "'d storage \<Rightarrow> dbi \<Rightarrow> byte list \<Rightarrow> 'd \<Rightarrow> 'd" where
  "del_in st t k d = projr (st_del st d t k)"

lemma tabs_sorted: "sound st \<Longrightarrow> sorted_wrt (<) (map fst (st_entries st d t))"
  by (simp add: sound_def storage_laws_def)

lemma put_ok: "sound st \<Longrightarrow> key_fits k \<Longrightarrow> st_put st d t k v = Inr (put_in st t k v d)"
  unfolding sound_def reliable_def put_in_def by (metis sum.sel(2))

lemma del_ok: "sound st \<Longrightarrow> key_fits k \<Longrightarrow> st_del st d t k = Inr (del_in st t k d)"
  unfolding sound_def reliable_def del_in_def by (metis sum.sel(2))

lemma tabs_put:
  assumes "sound st" "key_fits k"
  shows "tabs st (put_in st t k v d) = (tabs st d)(t := (tabs st d t)(k \<mapsto> v))"
proof
  fix u
  have "\<forall>u. st_entries st (put_in st t k v d) u =
      (if u = t then put_sorted k v (st_entries st d t) else st_entries st d u)"
    using assms(1) put_ok [OF assms, of d t v] unfolding sound_def storage_laws_def by blast
  then show "tabs st (put_in st t k v d) u = ((tabs st d)(t := (tabs st d t)(k \<mapsto> v))) u"
    using tabs_sorted [OF assms(1)] by (simp add: tabs_def map_of_put_sorted)
qed

lemma tabs_del:
  assumes "sound st" "key_fits k"
  shows "tabs st (del_in st t k d) = (tabs st d)(t := (tabs st d t)(k := None))"
proof
  fix u
  have "\<forall>u. st_entries st (del_in st t k d) u =
      (if u = t then filter (\<lambda>e. fst e \<noteq> k) (st_entries st d t) else st_entries st d u)"
    using assms(1) del_ok [OF assms, of d t] unfolding sound_def storage_laws_def by blast
  moreover have "map_of (filter (\<lambda>e. fst e \<noteq> k) al) = (map_of al)(k := None)" for al :: "(byte list \<times> byte list) list"
    by (induction al) (auto simp: fun_eq_iff)
  ultimately show "tabs st (del_in st t k d) u = ((tabs st d)(t := (tabs st d t)(k := None))) u"
    by (simp add: tabs_def)
qed

lemma tput_ok: "sound st \<Longrightarrow> key_fits k \<Longrightarrow> tput st t k v s = (Inr (), s\<lparr>sr_db := put_in st t k v (sr_db s)\<rparr>)"
  by (simp add: tput_def put_ok)

lemma tdel_ok: "sound st \<Longrightarrow> key_fits k \<Longrightarrow> tdel st t k s = (Inr (), s\<lparr>sr_db := del_in st t k (sr_db s)\<rparr>)"
  by (simp add: tdel_def del_ok)

lemma reads_ok:
  assumes "sound st"
  shows "ro_entries st d t = Inr (st_entries st d t)" "ro_get st d t k = Inr (tabs st d t k)" "read_txn st d = Inr ()"
  using assms by (simp_all add: sound_def reliable_def ro_entries_def ro_get_def rbind_def tabs_def read_txn_def)

lemma tbind_Inr: "m s = (Inr a, s') \<Longrightarrow> tbind m f s = f a s'"
  by (simp add: tbind_def)

lemma tread_ok: "f (sr_db s) = Inr a \<Longrightarrow> tread f s = (Inr a, s)"
  by (simp add: tread_def)

lemma tret_simp [simp]: "tret a s = (Inr a, s)"
  by (simp add: tret_def)

lemma rbind_simps [simp]: "rbind (Inr a) f = f a" "rbind (Inl e) f = Inl e"
  by (simp_all add: rbind_def)

section \<open>Encoded values\<close>

lemma be_u64_simps [simp]: "length (be_u64 w) = 8" "u64_of (be_u64 w) = w" "be_u64 v = be_u64 w \<longleftrightarrow> v = w"
proof -
  show "u64_of (be_u64 w) = w" for w by (simp only: u64_of_def be_u64_def unat_be_value)
  then show "be_u64 v = be_u64 w \<longleftrightarrow> v = w" by metis
qed (simp add: be_u64_def)

lemma be_u32_simps [simp]: "length (be_u32 w) = 4" "u32_of (be_u32 w) = w" "be_u32 v = be_u32 w \<longleftrightarrow> v = w"
proof -
  show "u32_of (be_u32 w) = w" for w using unat_less_pow(2) [of w] by (simp add: u32_of_def be_u32_def)
  then show "be_u32 v = be_u32 w \<longleftrightarrow> v = w" by metis
qed (simp add: be_u32_def)

text \<open>A value that does not fit into a key, and the bytes a giant stores.\<close>

definition is_giant :: "store_value \<Rightarrow> bool" where
  "is_giant v \<longleftrightarrow> giant_threshold < length (encoded v)"

definition value_ok :: "byte list set \<Rightarrow> store_value \<Rightarrow> bool" where
  "value_ok R v \<longleftrightarrow> wf_value v \<and> (is_giant v \<longrightarrow> (\<exists>tag raw. giant_raw v = Some (tag, raw) \<and> raw \<in> R))"

text \<open>The bytes of a value in a key, once its giant is known.\<close>

definition venc :: "(byte list \<Rightarrow> byte list) \<Rightarrow> tables \<Rightarrow> store_value \<Rightarrow> byte list option" where
  "venc dg T v =
     (if is_giant v then
        Option.bind (giant_raw v) (\<lambda>(tag, raw). map_option (\<lambda>b. tag # take giant_prefix raw @ b) (T Giant_Ids (dg raw)))
      else Some (encoded v))"

text \<open>
  Giants are found by their digests and hold the bytes they were made from; the digests of the
  bytes that occur (\<open>R\<close>) do not collide.
\<close>

definition counter :: "tables \<Rightarrow> byte list \<Rightarrow> u64" where
  "counter T key = counter_or_zero (T Meta key)"

definition giants_ok :: "(byte list \<Rightarrow> byte list) \<Rightarrow> byte list set \<Rightarrow> tables \<Rightarrow> bool" where
  "giants_ok dg R T \<longleftrightarrow>
     inj_on dg R \<and>
     (\<forall>h b. T Giant_Ids h = Some b \<longrightarrow>
        (\<exists>raw i tag. raw \<in> R \<and> h = dg raw \<and> b = be_u64 i \<and> 0 < i \<and> T Giants b = Some (tag # raw))) \<and>
     (\<forall>b. T Giants b \<noteq> None \<longrightarrow> (\<exists>i. b = be_u64 i \<and> i \<le> counter T meta_next_giant))"

lemma giants_okD:
  assumes "giants_ok dg R T" "T Giant_Ids (dg raw) = Some b" "raw \<in> R"
  obtains i tag where "b = be_u64 i" "0 < i" "T Giants b = Some (tag # raw)"
proof -
  from assms(1,2) obtain raw' i tag where "raw' \<in> R" "dg raw = dg raw'" "b = be_u64 i" "0 < i" "T Giants b = Some (tag # raw')"
    unfolding giants_ok_def by blast
  moreover from this assms(1,3) have "raw' = raw" by (auto simp: giants_ok_def dest: inj_onD)
  ultimately show thesis using that by blast
qed

lemma giant_raw_cases:
  assumes "giant_raw v = Some (tag, raw)"
  obtains (string) s where "v = SV_Str s" "tag = tag_giant_str" "raw = utf8_bytes s"
    | (blob) "v = SV_Bytes raw" "tag = tag_giant_bytes"
  using assms by (cases v) (auto simp: giant_raw_def)

lemma giant_length:
  assumes "is_giant v" "giant_raw v = Some (tag, raw)"
  shows "giant_prefix \<le> length raw"
proof -
  have "length (escaped raw) \<le> 2 * length raw + 2" by (induction raw) auto
  moreover have "length (encoded v) = Suc (length (escaped raw))"
    using assms(2) by (cases rule: giant_raw_cases) auto
  ultimately show ?thesis using assms(1) by (simp add: is_giant_def giant_threshold_def giant_prefix_def)
qed

lemma giant_vencE:
  assumes "giants_ok dg R T" "value_ok R v" "venc dg T v = Some c" "is_giant v"
  obtains tag raw i tag' where "giant_raw v = Some (tag, raw)" "c = giant_key tag raw i" "0 < i"
    "T Giants (be_u64 i) = Some (tag' # raw)" "length c = 73"
proof -
  from assms(2,4) obtain tag raw where raw: "giant_raw v = Some (tag, raw)" "raw \<in> R"
    by (auto simp: value_ok_def)
  with assms(3,4) obtain b where b: "T Giant_Ids (dg raw) = Some b" "c = tag # take giant_prefix raw @ b"
    by (auto simp: venc_def)
  from giants_okD [OF assms(1) b(1) raw(2)] obtain i tag' where i: "b = be_u64 i" "0 < i" "T Giants b = Some (tag' # raw)" .
  have "length c = 73" using giant_length [OF assms(4) raw(1)] by (simp add: b(2) i(1) giant_prefix_def)
  with that [of tag raw i tag'] raw(1) b(2) i show thesis by (simp add: giant_key_def)
qed

lemma codec_result_encoded: "wf_value v \<Longrightarrow> codec_result (encoded v @ rest) = Inr (D_Value v, length (encoded v))"
  using datom_decode_encoded [of v "2 * length (encoded v @ rest) + 2" rest] by (simp add: codec_result_def codec_decode_def)

lemma codec_result_leaf: "tag \<noteq> tag_vec \<Longrightarrow> codec_result (tag # rest) = decode_leaf tag rest"
  by (simp add: codec_result_def codec_decode_def)

lemma codec_result_giant:
  assumes "tag = tag_giant_str \<or> tag = tag_giant_bytes" "giant_prefix \<le> length raw"
  shows "codec_result (giant_key tag raw i @ rest) = Inr (D_Giant tag i, 73)"
proof -
  have "tag \<noteq> tag_vec" using assms(1) by (auto simp: tag_defs)
  moreover have "decode_leaf tag bs = (case first_bytes 8 ''truncated giant'' (drop giant_prefix bs) of
      Inl e \<Rightarrow> Inl e | Inr b \<Rightarrow> Inr (D_Giant tag (u64_of b), 73))" for bs
    using assms(1) by (elim disjE) (simp_all add: decode_leaf_def tag_defs giant_prefix_def u64_of_def cong: sum.case_cong)
  ultimately show ?thesis using assms(2) by (simp add: giant_key_def codec_result_leaf first_bytes_def)
qed

text \<open>Values in keys read back, and so no two share their bytes.\<close>

lemma decode_venc:
  assumes "sound st" "giants_ok (st_digest st) R (tabs st d)" "value_ok R v" "venc (st_digest st) (tabs st d) v = Some c"
  shows "decode_value st d (c @ rest) = Inr (v, length c)"
proof (cases "is_giant v")
  case True
  from giant_vencE [OF assms(2-4) True] obtain tag raw i tag'
    where g: "giant_raw v = Some (tag, raw)" "c = giant_key tag raw i" "tabs st d Giants (be_u64 i) = Some (tag' # raw)" "length c = 73" .
  note len = giant_length [OF True g(1)]
  from g(1) show ?thesis
  proof (cases rule: giant_raw_cases)
    case (string t)
    with assms(3) have "from_utf8 raw = Some t" by (simp add: value_ok_def from_utf8_bytes)
    with string g(2-4) codec_result_giant [OF _ len, of tag i rest] show ?thesis
      by (simp add: decode_value_def reads_ok [OF assms(1)])
  next
    case blob
    with g(2-4) codec_result_giant [OF _ len, of tag i rest] show ?thesis
      by (simp add: decode_value_def reads_ok [OF assms(1)] tag_defs)
  qed
next
  case False
  with assms(3,4) codec_result_encoded [of v rest] show ?thesis
    by (auto simp: decode_value_def value_ok_def venc_def)
qed

lemma venc_split:
  assumes "sound st" "giants_ok (st_digest st) R (tabs st d)"
    "value_ok R v" "venc (st_digest st) (tabs st d) v = Some c" "value_ok R w" "venc (st_digest st) (tabs st d) w = Some c'"
    "c @ r = c' @ r'"
  shows "v = w" "c = c'" "r = r'"
proof -
  show "v = w"
    using decode_venc [OF assms(1-4), of r] decode_venc [OF assms(1,2,5,6), of r'] assms(7) by simp
  with assms(4,6) show "c = c'" by simp
  with assms(7) show "r = r'" by simp
qed

lemma venc_fits: "giants_ok dg R T \<Longrightarrow> value_ok R v \<Longrightarrow> venc dg T v = Some c \<Longrightarrow> 0 < length c \<and> length c \<le> 400"
proof (cases "is_giant v")
  case True
  assume "giants_ok dg R T" "value_ok R v" "venc dg T v = Some c"
  from giant_vencE [OF this True] have "length c = 73" by blast
  then show ?thesis by simp
next
  case False
  assume "venc dg T v = Some c"
  with False encoded_length(1) [of v] show ?thesis by (cases c) (auto simp: venc_def is_giant_def giant_threshold_def)
qed

section \<open>The indexes\<close>

type_synonym triple = "u64 \<times> str \<times> store_value"

fun is_ref :: "store_value \<Rightarrow> bool" where
  "is_ref (SV_Ref t) = True"
| "is_ref _ = False"

fun ref_target :: "store_value \<Rightarrow> u64" where
  "ref_target (SV_Ref t) = t"
| "ref_target _ = 0"

text \<open>The keys of a datom, under the attribute ids \<open>L\<close> and the tables \<open>T\<close>.\<close>

fun eav_of :: "(byte list \<Rightarrow> byte list) \<Rightarrow> tables \<Rightarrow> (str \<rightharpoonup> u32) \<Rightarrow> triple \<Rightarrow> byte list" where
  "eav_of dg T L (e, n, v) = eav_key e (the (L n)) (the (venc dg T v))"

fun ave_of :: "(byte list \<Rightarrow> byte list) \<Rightarrow> tables \<Rightarrow> (str \<rightharpoonup> u32) \<Rightarrow> triple \<Rightarrow> byte list" where
  "ave_of dg T L (e, n, v) = ave_key (the (L n)) (the (venc dg T v)) e"

fun vae_of :: "(str \<rightharpoonup> u32) \<Rightarrow> triple \<Rightarrow> byte list" where
  "vae_of L (e, n, v) = vae_key (ref_target v) (the (L n)) e"

definition refs :: "triple set \<Rightarrow> triple set" where
  "refs A = {x \<in> A. is_ref (snd (snd x))}"

definition admissible :: "(byte list \<Rightarrow> byte list) \<Rightarrow> byte list set \<Rightarrow> tables \<Rightarrow> (str \<rightharpoonup> u32) \<Rightarrow> triple set" where
  "admissible dg R T L = {(e, n, v). L n \<noteq> None \<and> value_ok R v \<and> venc dg T v \<noteq> None}"

definition index_ok :: "(byte list \<Rightarrow> byte list) \<Rightarrow> byte list set \<Rightarrow> tables \<Rightarrow> (str \<rightharpoonup> u32) \<Rightarrow> triple set \<Rightarrow> bool" where
  "index_ok dg R T L A \<longleftrightarrow>
     A \<subseteq> admissible dg R T L \<and>
     dom (T Eav) = eav_of dg T L ` A \<and> dom (T Ave) = ave_of dg T L ` A \<and> dom (T Vae) = vae_of L ` refs A"

text \<open>Keys are never shared.\<close>

lemma keys_inject:
  assumes "sound st" "giants_ok (st_digest st) R (tabs st d)" "inj_on L (dom L)"
    "x \<in> admissible (st_digest st) R (tabs st d) L" "y \<in> admissible (st_digest st) R (tabs st d) L"
  shows "eav_of (st_digest st) (tabs st d) L x = eav_of (st_digest st) (tabs st d) L y \<Longrightarrow> x = y"
    "ave_of (st_digest st) (tabs st d) L x = ave_of (st_digest st) (tabs st d) L y \<Longrightarrow> x = y"
    "is_ref (snd (snd x)) \<Longrightarrow> is_ref (snd (snd y)) \<Longrightarrow> vae_of L x = vae_of L y \<Longrightarrow> x = y"
proof -
  obtain e n v e' n' v' where xy: "x = (e, n, v)" "y = (e', n', v')" by (cases x; cases y)
  with assms(4,5) obtain a c a' c' where
    ac: "L n = Some a" "value_ok R v" "venc (st_digest st) (tabs st d) v = Some c"
    "L n' = Some a'" "value_ok R v'" "venc (st_digest st) (tabs st d) v' = Some c'"
    by (auto simp: admissible_def)
  have names: "a = a' \<Longrightarrow> n = n'" using inj_onD [OF assms(3), of n n'] ac(1,4) by auto
  note split = venc_split [OF assms(1,2) ac(2,3,5,6)]
  show "x = y" if "eav_of (st_digest st) (tabs st d) L x = eav_of (st_digest st) (tabs st d) L y"
    using that split [of "[]" "[]"] names ac by (auto simp: xy eav_key_def)
  show "x = y" if "ave_of (st_digest st) (tabs st d) L x = ave_of (st_digest st) (tabs st d) L y"
    using that split [of "be_u64 e" "be_u64 e'"] names ac by (auto simp: xy ave_key_def)
  show "x = y" if "is_ref (snd (snd x))" "is_ref (snd (snd y))" "vae_of L x = vae_of L y"
    using that names ac by (cases v; cases v') (auto simp: xy vae_key_def)
qed

text \<open>Interning attributes and giants leaves the indexes valid.\<close>

lemma index_ok_mono:
  assumes "index_ok dg R T L A" "T' Eav = T Eav" "T' Ave = T Ave" "T' Vae = T Vae"
    "\<And>v c. venc dg T v = Some c \<Longrightarrow> venc dg T' v = Some c" "\<And>n a. L n = Some a \<Longrightarrow> L' n = Some a"
  shows "index_ok dg R T' L' A"
proof -
  have A: "A \<subseteq> admissible dg R T L" using assms(1) by (simp add: index_ok_def)
  have same: "eav_of dg T' L' x = eav_of dg T L x" "ave_of dg T' L' x = ave_of dg T L x" "vae_of L' x = vae_of L x"
    if "x \<in> A" for x
  proof -
    obtain e n v where x: "x = (e, n, v)" by (cases x)
    with that A obtain a c where "L n = Some a" "venc dg T v = Some c" by (auto simp: admissible_def)
    with assms(5,6) show "eav_of dg T' L' x = eav_of dg T L x" "ave_of dg T' L' x = ave_of dg T L x" "vae_of L' x = vae_of L x"
      by (auto simp: x)
  qed
  have "admissible dg R T L \<subseteq> admissible dg R T' L'"
    using assms(5,6) by (fastforce simp: admissible_def)
  moreover have "eav_of dg T' L' ` A = eav_of dg T L ` A" "ave_of dg T' L' ` A = ave_of dg T L ` A"
    "vae_of L' ` refs A = vae_of L ` refs A"
    using same by (auto simp: refs_def intro!: image_cong)
  ultimately show ?thesis using assms(1-4) A unfolding index_ok_def by simp
qed

lemma venc_cong: "T' Giant_Ids = T Giant_Ids \<Longrightarrow> venc dg T' = venc dg T"
  by (simp add: venc_def fun_eq_iff split: option.split)

lemma keys_cong:
  assumes "T' Giant_Ids = T Giant_Ids"
  shows "eav_of dg T' = eav_of dg T" "ave_of dg T' = ave_of dg T" "admissible dg R T' = admissible dg R T"
  using venc_cong [of T' T, OF assms] by (auto simp: fun_eq_iff admissible_def)

lemma index_ok_insert:
  assumes "index_ok dg R T L A" "x \<in> admissible dg R T L" "T' Giant_Ids = T Giant_Ids"
    "dom (T' Eav) = insert (eav_of dg T L x) (dom (T Eav))" "dom (T' Ave) = insert (ave_of dg T L x) (dom (T Ave))"
    "dom (T' Vae) = (if is_ref (snd (snd x)) then insert (vae_of L x) (dom (T Vae)) else dom (T Vae))"
  shows "index_ok dg R T' L (insert x A)"
  using assms(1,2,4-6) unfolding index_ok_def keys_cong [of T' T, OF assms(3)] refs_def by auto

lemma image_minus: "(\<And>y. y \<in> A \<Longrightarrow> f y = f x \<Longrightarrow> y = x) \<Longrightarrow> f ` A - {f x} = f ` (A - {x})"
  by auto

lemma index_ok_delete:
  assumes "sound st" "giants_ok (st_digest st) R (tabs st d)" "inj_on L (dom L)"
    and ok: "index_ok (st_digest st) R (tabs st d) L A" "x \<in> admissible (st_digest st) R (tabs st d) L"
    and T': "T' Giant_Ids = tabs st d Giant_Ids"
    "dom (T' Eav) = dom (tabs st d Eav) - {eav_of (st_digest st) (tabs st d) L x}"
    "dom (T' Ave) = dom (tabs st d Ave) - {ave_of (st_digest st) (tabs st d) L x}"
    "dom (T' Vae) = (if is_ref (snd (snd x)) then dom (tabs st d Vae) - {vae_of L x} else dom (tabs st d Vae))"
  shows "index_ok (st_digest st) R T' L (A - {x})"
proof -
  have A: "A \<subseteq> admissible (st_digest st) R (tabs st d) L" using ok(1) by (simp add: index_ok_def)
  note inj = keys_inject [OF assms(1-3) _ ok(2)]
  have "eav_of (st_digest st) (tabs st d) L ` A - {eav_of (st_digest st) (tabs st d) L x} =
      eav_of (st_digest st) (tabs st d) L ` (A - {x})"
    by (rule image_minus) (use inj(1) A in blast)
  moreover have "ave_of (st_digest st) (tabs st d) L ` A - {ave_of (st_digest st) (tabs st d) L x} =
      ave_of (st_digest st) (tabs st d) L ` (A - {x})"
    by (rule image_minus) (use inj(2) A in blast)
  moreover have "dom (T' Vae) = vae_of L ` refs (A - {x})"
  proof (cases "is_ref (snd (snd x))")
    case True
    have "vae_of L ` refs A - {vae_of L x} = vae_of L ` (refs A - {x})"
      by (rule image_minus) (use inj(3) A True in \<open>auto simp: refs_def\<close>)
    moreover have "refs A - {x} = refs (A - {x})" by (auto simp: refs_def)
    ultimately show ?thesis using True ok(1) T'(4) by (simp add: index_ok_def)
  next
    case False
    then have "refs (A - {x}) = refs A" by (auto simp: refs_def)
    with False ok(1) T'(4) show ?thesis by (simp add: index_ok_def)
  qed
  ultimately show ?thesis
    using A ok(1) T'(2,3) unfolding index_ok_def keys_cong [of T' "tabs st d", OF T'(1)] by auto
qed

section \<open>What a store represents\<close>

definition meta_ok :: "tables \<Rightarrow> bool" where
  "meta_ok T \<longleftrightarrow> (\<forall>k b. T Meta k = Some b \<longrightarrow> length b = 8)"

text \<open>The caches: attribute ids are below the counter and lead back to their names.\<close>

definition caches_ok :: "tables \<Rightarrow> (str \<times> u32 \<times> attr_props) list \<Rightarrow> (u32 \<times> str) list \<Rightarrow> bool" where
  "caches_ok T attrs names \<longleftrightarrow>
     (\<forall>n aid p. map_of attrs n = Some (aid, p) \<longrightarrow>
        map_of names aid = Some n \<and> unat aid \<le> unat (counter T meta_next_aid))"

text \<open>The schema table holds exactly the cached attributes.\<close>

definition schema_entry :: "u32 \<times> attr_props \<Rightarrow> byte list" where
  "schema_entry = (\<lambda>(aid, p). be_u32 aid @ [flag_byte p])"

definition schema_ok :: "tables \<Rightarrow> (str \<times> u32 \<times> attr_props) list \<Rightarrow> bool" where
  "schema_ok T attrs \<longleftrightarrow>
     (\<forall>k. T Schema k = Option.bind (from_utf8 k) (\<lambda>n. map_option schema_entry (map_of attrs n)))"

definition represents :: "'d storage \<Rightarrow> byte list set \<Rightarrow> 'd store \<Rightarrow> triple set \<Rightarrow> bool" where
  "represents st R s A \<longleftrightarrow>
     (let T = tabs st (sr_db s)
      in giants_ok (st_digest st) R T \<and> meta_ok T \<and> caches_ok T (sr_attrs s) (sr_names s) \<and>
         schema_ok T (sr_attrs s) \<and> index_ok (st_digest st) R T (lookup_aid s) A)"

lemma representsD:
  assumes "represents st R s A"
  shows "giants_ok (st_digest st) R (tabs st (sr_db s))" "meta_ok (tabs st (sr_db s))"
    "caches_ok (tabs st (sr_db s)) (sr_attrs s) (sr_names s)" "schema_ok (tabs st (sr_db s)) (sr_attrs s)"
    "index_ok (st_digest st) R (tabs st (sr_db s)) (lookup_aid s) A" "inj_on (lookup_aid s) (dom (lookup_aid s))"
proof -
  show "inj_on (lookup_aid s) (dom (lookup_aid s))"
  proof (rule inj_onI)
    fix n n'
    assume n: "n \<in> dom (lookup_aid s)" "n' \<in> dom (lookup_aid s)" "lookup_aid s n = lookup_aid s n'"
    then obtain aid p p' where "map_of (sr_attrs s) n = Some (aid, p)" "map_of (sr_attrs s) n' = Some (aid, p')"
      by (auto simp: lookup_aid_def)
    with assms have "map_of (sr_names s) aid = Some n" "map_of (sr_names s) aid = Some n'"
      by (auto simp: represents_def Let_def caches_ok_def)
    then show "n = n'" by simp
  qed
qed (use assms in \<open>simp_all add: represents_def Let_def\<close>)

lemma names_back: "represents st R s A \<Longrightarrow> map_of (sr_attrs s) n = Some (aid, p) \<Longrightarrow> map_of (sr_names s) aid = Some n"
  using representsD(3) by (fastforce simp: caches_ok_def)

lemma key_fits_index:
  assumes "giants_ok dg R T" "value_ok R v" "venc dg T v = Some c"
  shows "key_fits (eav_key e a c)" "key_fits (ave_key a c e)" "key_fits (vae_key t a e)"
  using venc_fits [OF assms] by (simp_all add: key_fits_def eav_key_def ave_key_def vae_key_def)

lemma key_fits_meta [simp]:
  "key_fits meta_max_eid" "key_fits meta_next_aid" "key_fits meta_next_giant" "key_fits (be_u64 i)"
  by (simp_all add: key_fits_def meta_max_eid_def meta_next_aid_def meta_next_giant_def)

lemma key_fits_digest: "sound st \<Longrightarrow> key_fits (st_digest st raw)"
  by (simp add: sound_def reliable_def)

section \<open>Counters and attributes\<close>

lemma counter_update:
  "counter (T(Meta := (T Meta)(key \<mapsto> be_u64 n))) k = (if k = key then n else counter T k)"
  "t \<noteq> Meta \<Longrightarrow> counter (T(t := m)) k = counter T k"
  by (simp_all add: counter_def counter_or_zero_def)

lemma meta_keys_distinct [simp]:
  "meta_next_aid \<noteq> meta_next_giant" "meta_next_giant \<noteq> meta_next_aid" "meta_max_eid \<noteq> meta_next_aid"
  "meta_max_eid \<noteq> meta_next_giant" "meta_next_aid \<noteq> meta_max_eid" "meta_next_giant \<noteq> meta_max_eid"
  by (simp_all add: meta_max_eid_def meta_next_aid_def meta_next_giant_def)

lemma bump_ok:
  assumes "sound st" "meta_ok (tabs st (sr_db s))" "key_fits key"
  defines "n \<equiv> counter (tabs st (sr_db s)) key + 1"
  shows "bump_counter st key s = (Inr n, s\<lparr>sr_db := put_in st Meta key (be_u64 n) (sr_db s)\<rparr>)"
proof -
  have "tread (\<lambda>db. ro_get st db Meta key) s = (Inr (tabs st (sr_db s) Meta key), s)"
    by (simp add: tread_def reads_ok [OF assms(1)])
  then show ?thesis
    using assms(2) tput_ok [OF assms(1,3)]
    by (auto simp: bump_counter_def tbind_def n_def counter_def counter_or_zero_def meta_ok_def Let_def split: option.split)
qed

text \<open>A counter that grows keeps everything else.\<close>

lemma represents_meta:
  assumes "sound st" "represents st R s A" "key_fits key"
    "counter (tabs st (sr_db s)) key \<le> n \<or> key = meta_max_eid"
  shows "represents st R (s\<lparr>sr_db := put_in st Meta key (be_u64 n) (sr_db s)\<rparr>) A"
proof -
  let ?T = "tabs st (sr_db s)" and ?s = "s\<lparr>sr_db := put_in st Meta key (be_u64 n) (sr_db s)\<rparr>"
  define T' where "T' = ?T(Meta := (?T Meta)(key \<mapsto> be_u64 n))"
  have T': "tabs st (sr_db ?s) = T'" by (simp add: tabs_put [OF assms(1,3)] T'_def)
  have lookup: "lookup_aid ?s = lookup_aid s" by (simp add: lookup_aid_def fun_eq_iff)
  have grow: "counter ?T k \<le> counter T' k" if "k \<noteq> meta_max_eid" for k
    using assms(4) that by (auto simp: T'_def counter_update)
  note r = representsD [OF assms(2)]
  have "giants_ok (st_digest st) R T'"
    using r(1) grow [of meta_next_giant] unfolding giants_ok_def T'_def by (simp, meson order_trans)
  moreover have "meta_ok T'" using r(2) by (auto simp: meta_ok_def T'_def)
  moreover have "caches_ok T' (sr_attrs s) (sr_names s)"
    using r(3) grow [of meta_next_aid] unfolding caches_ok_def by (meson meta_keys_distinct order_trans word_le_nat_alt)
  moreover have "schema_ok T' (sr_attrs s)" using r(4) by (simp add: schema_ok_def T'_def)
  moreover have "index_ok (st_digest st) R T' (lookup_aid s) A"
    by (rule index_ok_mono [OF r(5)]) (simp_all add: T'_def venc_cong [of "?T(Meta := (?T Meta)(key \<mapsto> be_u64 n))" ?T])
  ultimately show ?thesis unfolding represents_def T' lookup Let_def by simp
qed

lemma from_utf8_iff: "list_all is_scalar n \<Longrightarrow> from_utf8 k = Some n \<longleftrightarrow> k = utf8_bytes n"
  using from_utf8_bytes [of n] from_utf8_sound(1) [of k n] by auto

lemma record_attr_ok:
  assumes "sound st" "represents st R s A" "list_all is_scalar a" "key_fits (utf8_bytes a)"
    "unat aid \<le> unat (counter (tabs st (sr_db s)) meta_next_aid)"
    and known: "\<And>n p. map_of (sr_attrs s) n = Some (aid, p) \<Longrightarrow> n = a" "\<And>b q. map_of (sr_attrs s) a = Some (b, q) \<Longrightarrow> b = aid"
  shows "\<exists>s'. record_attr st a aid p s = (Inr (aid, p), s') \<and> represents st R s' A \<and>
    map_of (sr_attrs s') = (map_of (sr_attrs s))(a \<mapsto> (aid, p)) \<and>
    counter (tabs st (sr_db s')) = counter (tabs st (sr_db s))"
proof -
  let ?T = "tabs st (sr_db s)"
  define s' where "s' = s\<lparr>sr_db := put_in st Schema (utf8_bytes a) (be_u32 aid @ [flag_byte p]) (sr_db s),
    sr_attrs := AList.update a (aid, p) (sr_attrs s), sr_names := AList.update aid a (sr_names s)\<rparr>"
  define T' where "T' = ?T(Schema := (?T Schema)(utf8_bytes a \<mapsto> be_u32 aid @ [flag_byte p]))"
  have T': "tabs st (sr_db s') = T'" by (simp add: tabs_put [OF assms(1,4)] T'_def s'_def)
  have attrs: "map_of (sr_attrs s') = (map_of (sr_attrs s))(a \<mapsto> (aid, p))" by (simp add: s'_def update_conv')
  have counters: "counter T' = counter ?T" by (simp add: T'_def counter_update fun_eq_iff)
  note r = representsD [OF assms(2)]
  have "giants_ok (st_digest st) R T'" using r(1) counters by (simp add: giants_ok_def T'_def)
  moreover have "meta_ok T'" using r(2) by (simp add: meta_ok_def T'_def)
  moreover have "caches_ok T' (sr_attrs s') (sr_names s')"
    using r(3) assms(5) known(1) unfolding caches_ok_def counters by (auto simp: s'_def update_conv' split: if_splits)
  moreover have "schema_ok T' (sr_attrs s')"
    unfolding schema_ok_def
  proof
    fix k
    show "T' Schema k = Option.bind (from_utf8 k) (\<lambda>n. map_option schema_entry (map_of (sr_attrs s') n))"
      using r(4) from_utf8_iff [OF assms(3), of k]
      by (cases "from_utf8 k") (auto simp: attrs T'_def schema_ok_def schema_entry_def)
  qed
  moreover have "index_ok (st_digest st) R T' (lookup_aid s') A"
    using known(2)
    by (intro index_ok_mono [OF r(5)])
      (auto simp: T'_def lookup_aid_def attrs venc_cong [of "?T(Schema := (?T Schema)(utf8_bytes a \<mapsto> be_u32 aid @ [flag_byte p]))" ?T])
  ultimately have "represents st R s' A" by (simp add: represents_def T' Let_def)
  moreover have "record_attr st a aid p s = (Inr (aid, p), s')"
    by (simp add: record_attr_def tbind_def tput_ok [OF assms(1,4)] s'_def)
  ultimately show ?thesis using attrs counters T' by auto
qed

definition is_many :: "'d store \<Rightarrow> str \<Rightarrow> bool" where
  "is_many s n \<longleftrightarrow> (case get_attr_props s n of Some p \<Rightarrow> cardinality_many p | None \<Rightarrow> False)"

abbreviation aids :: "'d storage \<Rightarrow> 'd store \<Rightarrow> nat" where
  "aids st s \<equiv> unat (counter (tabs st (sr_db s)) meta_next_aid)"

abbreviation giant_ids :: "'d storage \<Rightarrow> 'd store \<Rightarrow> nat" where
  "giant_ids st s \<equiv> unat (counter (tabs st (sr_db s)) meta_next_giant)"

lemma unat_succ: "unat (c :: u64) + 1 < 2 ^ 64 \<Longrightarrow> unat (c + 1) = unat c + 1"
  by (simp add: unat_plus_if' )

lemma intern_attr_ok:
  assumes "sound st" "represents st R s A" "list_all is_scalar a" "key_fits (utf8_bytes a)" "aids st s + 1 < 2 ^ 32"
  shows "\<exists>aid p s'. intern_attr st a None s = (Inr (aid, p), s') \<and> represents st R s' A \<and>
    map_of (sr_attrs s') a = Some (aid, p) \<and> cardinality_many p = is_many s a \<and> is_many s' = is_many s \<and>
    aids st s' \<le> aids st s + 1 \<and> giant_ids st s' = giant_ids st s"
proof (cases "map_of (sr_attrs s) a")
  case (Some ap)
  then show ?thesis
    using assms(2) by (cases ap) (simp add: intern_attr_def is_many_def get_attr_props_def)
next
  case None
  let ?c = "counter (tabs st (sr_db s)) meta_next_aid"
  define s1 where "s1 = s\<lparr>sr_db := put_in st Meta meta_next_aid (be_u64 (?c + 1)) (sr_db s)\<rparr>"
  have c: "unat (?c + 1) = unat ?c + 1" using assms(5) by (intro unat_succ) simp
  have bump: "bump_counter st meta_next_aid s = (Inr (?c + 1), s1)"
    using bump_ok [OF assms(1) representsD(2) [OF assms(2)], of meta_next_aid] by (simp add: s1_def)
  have r1: "represents st R s1 A"
    unfolding s1_def using c by (intro represents_meta [OF assms(1,2)]) (simp_all add: word_le_nat_alt)
  have counters: "counter (tabs st (sr_db s1)) = (counter (tabs st (sr_db s)))(meta_next_aid := ?c + 1)"
    by (simp add: s1_def tabs_put [OF assms(1)] counter_update fun_eq_iff)
  have aid: "unat (ucast (?c + 1) :: u32) = unat ?c + 1"
    using assms(5) c by (simp add: unsigned_ucast_eq take_bit_eq_mod)
  have fresh: "b \<noteq> ucast (?c + 1)" if "map_of (sr_attrs s1) n = Some (b, q)" for n b q
    using that representsD(3) [OF assms(2)] aid by (fastforce simp: caches_ok_def s1_def)
  have le: "unat (ucast (?c + 1) :: u32) \<le> unat (counter (tabs st (sr_db s1)) meta_next_aid)"
    using aid c by (simp add: counters)
  have new: "map_of (sr_attrs s1) a = None" using None by (simp add: s1_def)
  have "\<exists>s'. record_attr st a (ucast (?c + 1)) default_props s1 = (Inr (ucast (?c + 1), default_props), s') \<and>
    represents st R s' A \<and> map_of (sr_attrs s') = (map_of (sr_attrs s1))(a \<mapsto> (ucast (?c + 1), default_props)) \<and>
    counter (tabs st (sr_db s')) = counter (tabs st (sr_db s1))"
    by (rule record_attr_ok [OF assms(1) r1 assms(3,4) le]) (use fresh new in auto)
  then obtain s' where s': "record_attr st a (ucast (?c + 1)) default_props s1 = (Inr (ucast (?c + 1), default_props), s')"
    "represents st R s' A" "map_of (sr_attrs s') = (map_of (sr_attrs s1))(a \<mapsto> (ucast (?c + 1), default_props))"
    "counter (tabs st (sr_db s')) = counter (tabs st (sr_db s1))" by blast
  have "intern_attr st a None s = (Inr (ucast (?c + 1), default_props), s')"
    using None by (simp add: intern_attr_def tbind_def bump s'(1))
  moreover have "is_many s' = is_many s" "is_many s a = False"
    using None s'(3) by (auto simp: is_many_def get_attr_props_def s1_def default_props_def fun_eq_iff)
  moreover have "cardinality_many default_props = False" by (simp add: default_props_def)
  ultimately show ?thesis using s' counters c by auto
qed

section \<open>Values\<close>

lemma giants_ok_new:
  fixes tag :: byte
  assumes "giants_ok dg R T" "raw \<in> R" "T Giant_Ids (dg raw) = None" "unat (counter T meta_next_giant) + 1 < 2 ^ 64"
  defines "i \<equiv> counter T meta_next_giant + 1"
  defines "T' \<equiv> T(Meta := (T Meta)(meta_next_giant \<mapsto> be_u64 i), Giants := (T Giants)(be_u64 i \<mapsto> tag # raw),
    Giant_Ids := (T Giant_Ids)(dg raw \<mapsto> be_u64 i))"
  shows "giants_ok dg R T'"
proof -
  have i: "unat i = unat (counter T meta_next_giant) + 1" unfolding i_def by (rule unat_succ [OF assms(4)])
  then have "0 < i" by (auto simp: word_gt_0 dest: arg_cong [of _ _ unat])
  have counter: "counter T' meta_next_giant = i" by (simp add: T'_def counter_def counter_or_zero_def)
  have old: "j \<noteq> i" if "T Giants (be_u64 j) \<noteq> None" for j
  proof -
    from that assms(1) obtain k where "be_u64 j = be_u64 k" "k \<le> counter T meta_next_giant"
      unfolding giants_ok_def by blast
    with i show ?thesis by (auto simp: word_le_nat_alt)
  qed
  have "\<exists>raw' j tag'. raw' \<in> R \<and> h = dg raw' \<and> b = be_u64 j \<and> 0 < j \<and> T' Giants b = Some (tag' # raw')"
    if "T' Giant_Ids h = Some b" for h b
  proof (cases "h = dg raw")
    case True
    with that assms(2) \<open>0 < i\<close> show ?thesis by (auto simp: T'_def)
  next
    case False
    with that have "T Giant_Ids h = Some b" by (simp add: T'_def)
    with assms(1) obtain raw' j tag' where g: "raw' \<in> R" "h = dg raw'" "b = be_u64 j" "0 < j" "T Giants b = Some (tag' # raw')"
      unfolding giants_ok_def by blast
    with old [of j] have "T' Giants b = Some (tag' # raw')" by (simp add: T'_def)
    with g show ?thesis by blast
  qed
  moreover have "\<exists>j. b = be_u64 j \<and> j \<le> counter T' meta_next_giant" if "T' Giants b \<noteq> None" for b
  proof (cases "b = be_u64 i")
    case False
    with that have "T Giants b \<noteq> None" by (simp add: T'_def)
    with assms(1) obtain k where "b = be_u64 k" "k \<le> counter T meta_next_giant" unfolding giants_ok_def by blast
    with i counter show ?thesis by (auto simp: word_le_nat_alt)
  qed (simp add: counter)
  ultimately show ?thesis using assms(1) unfolding giants_ok_def by blast
qed

text \<open>Changes that keep the indexes and the attributes keep the representation.\<close>

lemma represents_frame:
  assumes "represents st R s A" "sr_attrs s' = sr_attrs s" "sr_names s' = sr_names s"
    "giants_ok (st_digest st) R (tabs st (sr_db s'))" "meta_ok (tabs st (sr_db s'))"
    "counter (tabs st (sr_db s')) meta_next_aid = counter (tabs st (sr_db s)) meta_next_aid"
    "tabs st (sr_db s') Schema = tabs st (sr_db s) Schema"
    "index_ok (st_digest st) R (tabs st (sr_db s')) (lookup_aid s) A'"
  shows "represents st R s' A'"
proof -
  have "lookup_aid s' = lookup_aid s" using assms(2) by (simp add: lookup_aid_def fun_eq_iff)
  with assms representsD [OF assms(1)] show ?thesis
    by (simp add: represents_def Let_def caches_ok_def schema_ok_def)
qed

lemma intern_giant_ok:
  assumes "sound st" "represents st R s A" "raw \<in> R" "giant_ids st s + 1 < 2 ^ 64"
  shows "\<exists>i s'. intern_giant st tag raw s = (Inr i, s') \<and> represents st R s' A \<and>
    tabs st (sr_db s') Giant_Ids (st_digest st raw) = Some (be_u64 i) \<and> sr_attrs s' = sr_attrs s \<and>
    aids st s' = aids st s \<and> giant_ids st s' \<le> giant_ids st s + 1"
proof (cases "tabs st (sr_db s) Giant_Ids (st_digest st raw)")
  case (Some b)
  from giants_okD [OF representsD(1) [OF assms(2)] Some assms(3)] obtain i tag' where "b = be_u64 i" by blast
  with Some assms(2) show ?thesis
    by (simp add: intern_giant_def tbind_def tread_def reads_ok [OF assms(1)] giant_id_of_def)
next
  case None
  let ?T = "tabs st (sr_db s)"
  define i where "i = counter ?T meta_next_giant + 1"
  define s' where "s' = s\<lparr>sr_db := put_in st Giant_Ids (st_digest st raw) (be_u64 i)
    (put_in st Giants (be_u64 i) (tag # raw) (put_in st Meta meta_next_giant (be_u64 i) (sr_db s)))\<rparr>"
  note fits = key_fits_digest [OF assms(1), of raw]
  have run: "intern_giant st tag raw s = (Inr i, s')"
    using bump_ok [OF assms(1) representsD(2) [OF assms(2)], of meta_next_giant] None fits
    by (simp add: intern_giant_def tbind_def tread_def reads_ok [OF assms(1)] tput_ok [OF assms(1)] i_def s'_def)
  have T': "tabs st (sr_db s') = ?T(Meta := (?T Meta)(meta_next_giant \<mapsto> be_u64 i), Giants := (?T Giants)(be_u64 i \<mapsto> tag # raw),
      Giant_Ids := (?T Giant_Ids)(st_digest st raw \<mapsto> be_u64 i))"
    by (simp add: s'_def tabs_put [OF assms(1)] fits)
  have counters: "counter (tabs st (sr_db s')) k = (if k = meta_next_giant then i else counter ?T k)" for k
    unfolding T' by (simp add: counter_def counter_or_zero_def)
  have giants: "giants_ok (st_digest st) R (tabs st (sr_db s'))"
    unfolding T' i_def by (rule giants_ok_new [OF representsD(1) [OF assms(2)] assms(3) None]) (use assms(4) in simp)
  have "venc (st_digest st) (tabs st (sr_db s')) v = Some c" if "venc (st_digest st) ?T v = Some c" for v c
    using that None unfolding T' venc_def by (cases "is_giant v"; cases "giant_raw v") auto
  then have idx: "index_ok (st_digest st) R (tabs st (sr_db s')) (lookup_aid s) A"
    by (intro index_ok_mono [OF representsD(5) [OF assms(2)]]) (simp_all add: T')
  have caches: "sr_attrs s' = sr_attrs s" "sr_names s' = sr_names s" by (simp_all add: s'_def)
  have meta: "meta_ok (tabs st (sr_db s'))"
    using representsD(2) [OF assms(2)] unfolding T' by (auto simp: meta_ok_def)
  have schema: "tabs st (sr_db s') Schema = ?T Schema" unfolding T' by simp
  have "represents st R s' A"
    by (rule represents_frame [OF assms(2) caches giants meta _ schema idx]) (simp add: counters)
  moreover have "unat i = giant_ids st s + 1" unfolding i_def by (rule unat_succ) (use assms(4) in simp)
  moreover have "tabs st (sr_db s') Giant_Ids (st_digest st raw) = Some (be_u64 i)" unfolding T' by simp
  ultimately show ?thesis using run caches(1) by (auto simp: counters)
qed

lemma encode_for_key_ok:
  assumes "sound st" "represents st R s A" "value_ok R v" "giant_ids st s + 1 < 2 ^ 64"
  shows "\<exists>c s'. encode_value_for_key st v s = (Inr c, s') \<and> represents st R s' A \<and>
    venc (st_digest st) (tabs st (sr_db s')) v = Some c \<and> sr_attrs s' = sr_attrs s \<and>
    aids st s' = aids st s \<and> giant_ids st s' \<le> giant_ids st s + 1"
proof (cases "is_giant v")
  case True
  with assms(3) obtain tag raw where raw: "giant_raw v = Some (tag, raw)" "raw \<in> R" by (auto simp: value_ok_def)
  from intern_giant_ok [OF assms(1,2) raw(2) assms(4), of tag] obtain i s' where
    s': "intern_giant st tag raw s = (Inr i, s')" "represents st R s' A"
    "tabs st (sr_db s') Giant_Ids (st_digest st raw) = Some (be_u64 i)" "sr_attrs s' = sr_attrs s"
    "aids st s' = aids st s" "giant_ids st s' \<le> giant_ids st s + 1" by blast
  have "encode_value_for_key st v s = (Inr (giant_key tag raw i), s')"
    using True raw(1) s'(1) by (simp add: encode_value_for_key_def is_giant_def encoded_def tbind_def)
  moreover have "venc (st_digest st) (tabs st (sr_db s')) v = Some (giant_key tag raw i)"
    using True raw(1) s'(3) by (simp add: venc_def giant_key_def)
  ultimately show ?thesis using s' by blast
next
  case False
  then have "encode_value_for_key st v s = (Inr (encoded v), s)" "venc (st_digest st) (tabs st (sr_db s)) v = Some (encoded v)"
    by (simp_all add: encode_value_for_key_def is_giant_def encoded_def venc_def)
  with assms(2) show ?thesis by auto
qed

section \<open>Datoms\<close>

lemma represents_index:
  assumes "represents st R s A"
    and others: "\<And>t. t \<noteq> Eav \<Longrightarrow> t \<noteq> Ave \<Longrightarrow> t \<noteq> Vae \<Longrightarrow> tabs st d' t = tabs st (sr_db s) t"
    and idx: "index_ok (st_digest st) R (tabs st d') (lookup_aid s) A'"
  shows "represents st R (s\<lparr>sr_db := d'\<rparr>) A'" "counter (tabs st d') = counter (tabs st (sr_db s))"
proof -
  show counters: "counter (tabs st d') = counter (tabs st (sr_db s))"
    by (simp add: counter_def others fun_eq_iff)
  have "giants_ok (st_digest st) R (tabs st d')" "meta_ok (tabs st d')"
    using representsD(1,2) [OF assms(1)] counters others by (simp_all add: giants_ok_def meta_ok_def)
  then show "represents st R (s\<lparr>sr_db := d'\<rparr>) A'"
    by (intro represents_frame [OF assms(1)]) (simp_all add: counters others idx)
qed

text \<open>Where a known attribute and an encoded value put a datom.\<close>

lemma known_datom:
  assumes "map_of (sr_attrs s) a = Some (aid, p)" "value_ok R v" "venc dg T v = Some c"
  shows "(e, a, v) \<in> admissible dg R T (lookup_aid s)" "eav_of dg T (lookup_aid s) (e, a, v) = eav_key e aid c"
    "ave_of dg T (lookup_aid s) (e, a, v) = ave_key aid c e" "vae_of (lookup_aid s) (e, a, SV_Ref t) = vae_key t aid e"
  using assms by (simp_all add: admissible_def lookup_aid_def)

lemma insert_datom_ok:
  assumes "sound st" "represents st R s A" "map_of (sr_attrs s) a = Some (aid, p)" "value_ok R v"
    "venc (st_digest st) (tabs st (sr_db s)) v = Some c"
  shows "\<exists>d'. insert_datom st e aid c v s = (Inr (), s\<lparr>sr_db := d'\<rparr>) \<and> represents st R (s\<lparr>sr_db := d'\<rparr>) (insert (e, a, v) A) \<and>
    counter (tabs st d') = counter (tabs st (sr_db s))"
proof -
  let ?T = "tabs st (sr_db s)"
  note fits = key_fits_index [OF representsD(1) [OF assms(2)] assms(4,5)]
  note key = known_datom [OF assms(3,4,5), of e]
  define d1 where "d1 = put_in st Ave (ave_key aid c e) [] (put_in st Eav (eav_key e aid c) [] (sr_db s))"
  define d' where "d' = (if is_ref v then put_in st Vae (vae_key (ref_target v) aid e) [] d1 else d1)"
  have run: "insert_datom st e aid c v s = (Inr (), s\<lparr>sr_db := d'\<rparr>)"
    by (cases v) (simp_all add: insert_datom_def tbind_def tput_ok [OF assms(1)] fits d1_def d'_def)
  have T1: "tabs st d1 = ?T(Eav := (?T Eav)(eav_key e aid c \<mapsto> []), Ave := (?T Ave)(ave_key aid c e \<mapsto> []))"
    by (simp add: d1_def tabs_put [OF assms(1)] fits)
  have T': "tabs st d' t = (if t = Vae \<and> is_ref v then (?T Vae)(vae_key (ref_target v) aid e \<mapsto> []) else tabs st d1 t)" for t
    using T1 by (simp add: d'_def tabs_put [OF assms(1)] fits)
  have "index_ok (st_digest st) R (tabs st d') (lookup_aid s) (insert (e, a, v) A)"
    by (rule index_ok_insert [OF representsD(5) [OF assms(2)] key(1)])
      (use key in \<open>cases v; simp add: T' T1\<close>)+
  from represents_index [OF assms(2) _ this] run show ?thesis by (auto simp: T' T1)
qed

lemma delete_ok:
  fixes e :: u64
  assumes "sound st" "represents st R s A" "map_of (sr_attrs s) a = Some (aid, p)" "value_ok R v"
    "venc (st_digest st) (tabs st (sr_db s)) v = Some c"
  defines "d1 \<equiv> del_in st Ave (ave_key aid c e) (del_in st Eav (eav_key e aid c) (sr_db s))"
  defines "d' \<equiv> if is_ref v then del_in st Vae (vae_key (ref_target v) aid e) d1 else d1"
  shows "represents st R (s\<lparr>sr_db := d'\<rparr>) (A - {(e, a, v)})" "counter (tabs st d') = counter (tabs st (sr_db s))"
    "tabs st d' Giant_Ids = tabs st (sr_db s) Giant_Ids"
proof -
  let ?T = "tabs st (sr_db s)"
  note fits = key_fits_index [OF representsD(1) [OF assms(2)] assms(4,5)]
  note key = known_datom [OF assms(3,4,5), of e]
  have T1: "tabs st d1 = ?T(Eav := (?T Eav)(eav_key e aid c := None), Ave := (?T Ave)(ave_key aid c e := None))"
    by (simp add: d1_def tabs_del [OF assms(1)] fits)
  have T': "tabs st d' t = (if t = Vae \<and> is_ref v then (?T Vae)(vae_key (ref_target v) aid e := None) else tabs st d1 t)" for t
    using T1 by (simp add: d'_def tabs_del [OF assms(1)] fits)
  have "index_ok (st_digest st) R (tabs st d') (lookup_aid s) (A - {(e, a, v)})"
    by (rule index_ok_delete [OF assms(1) representsD(1,6,5) [OF assms(2)] key(1)])
      (use key in \<open>cases v; simp add: T' T1\<close>)+
  note rep = represents_index [OF assms(2) _ this]
  show "represents st R (s\<lparr>sr_db := d'\<rparr>) (A - {(e, a, v)})" "counter (tabs st d') = counter (tabs st (sr_db s))"
    using rep by (auto simp: T' T1)
  show "tabs st d' Giant_Ids = tabs st (sr_db s) Giant_Ids" by (simp add: T' T1)
qed

lemma delete_datom_encoded_ok:
  assumes "sound st" "represents st R s A" "map_of (sr_attrs s) a = Some (aid, p)" "value_ok R v"
    "venc (st_digest st) (tabs st (sr_db s)) v = Some c"
  shows "\<exists>d'. delete_datom_encoded st e aid c v s = (Inr (), s\<lparr>sr_db := d'\<rparr>) \<and>
    represents st R (s\<lparr>sr_db := d'\<rparr>) (A - {(e, a, v)}) \<and> counter (tabs st d') = counter (tabs st (sr_db s))"
proof -
  note fits = key_fits_index [OF representsD(1) [OF assms(2)] assms(4,5)]
  have "delete_datom_encoded st e aid c v s = (Inr (), s\<lparr>sr_db := if is_ref v
      then del_in st Vae (vae_key (ref_target v) aid e) (del_in st Ave (ave_key aid c e) (del_in st Eav (eav_key e aid c) (sr_db s)))
      else del_in st Ave (ave_key aid c e) (del_in st Eav (eav_key e aid c) (sr_db s))\<rparr>)"
    by (cases v) (simp_all add: delete_datom_encoded_def tbind_def tdel_ok [OF assms(1)] fits)
  with delete_ok [OF assms, where e = e] show ?thesis by blast
qed

text \<open>Deletion by the bytes of a key recognises references by their tag.\<close>

lemma venc_ref:
  assumes "giants_ok dg R T" "value_ok R v" "venc dg T v = Some c"
  shows "take 1 c = [tag_ref] \<longleftrightarrow> is_ref v"
    "is_ref v \<Longrightarrow> codec_result c = Inr (D_Value (SV_Ref (ref_target v)), length c)"
proof -
  have giant: "take 1 c \<noteq> [tag_ref]" "\<not> is_ref v" if g: "is_giant v"
  proof -
    from giant_vencE [OF assms g] obtain tag raw i where c: "giant_raw v = Some (tag, raw)" "c = giant_key tag raw i" .
    from c(1) show "take 1 c \<noteq> [tag_ref]" "\<not> is_ref v"
      by (cases rule: giant_raw_cases; simp add: c(2) giant_key_def tag_defs)+
  qed
  have inline: "c = encoded v" if "\<not> is_giant v" using that assms(3) by (simp add: venc_def)
  show "take 1 c = [tag_ref] \<longleftrightarrow> is_ref v"
    using giant inline by (cases "is_giant v") (auto, (cases v; simp add: tag_defs)+)
  show "codec_result c = Inr (D_Value (SV_Ref (ref_target v)), length c)" if "is_ref v"
  proof -
    have "c = encoded v" using that giant(2) inline by blast
    with that codec_result_encoded [of v "[]"] show ?thesis by (cases v) simp_all
  qed
qed

lemma delete_datom_ok:
  assumes "sound st" "represents st R s A" "map_of (sr_attrs s) a = Some (aid, p)" "value_ok R v"
    "venc (st_digest st) (tabs st (sr_db s)) v = Some c"
  shows "\<exists>d'. delete_datom st e aid c s = (Inr (), s\<lparr>sr_db := d'\<rparr>) \<and>
    represents st R (s\<lparr>sr_db := d'\<rparr>) (A - {(e, a, v)}) \<and> counter (tabs st d') = counter (tabs st (sr_db s)) \<and>
    tabs st d' Giant_Ids = tabs st (sr_db s) Giant_Ids"
proof -
  note g = representsD(1) [OF assms(2)]
  note fits = key_fits_index [OF g assms(4,5)]
  have "delete_datom st e aid c s = (Inr (), s\<lparr>sr_db := if is_ref v
      then del_in st Vae (vae_key (ref_target v) aid e) (del_in st Ave (ave_key aid c e) (del_in st Eav (eav_key e aid c) (sr_db s)))
      else del_in st Ave (ave_key aid c e) (del_in st Eav (eav_key e aid c) (sr_db s))\<rparr>)"
    using venc_ref [OF g assms(4,5)] by (simp add: delete_datom_def tbind_def tdel_ok [OF assms(1)] fits)
  with delete_ok [OF assms, where e = e] show ?thesis by blast
qed

text \<open>The keys with a prefix are one run of the sorted keys.\<close>

lemma prefix_le: "prefix p k \<Longrightarrow> p \<le> (k :: byte list)"
proof (induction p arbitrary: k)
  case (Cons a p)
  then show ?case by (cases k) auto
qed simp

lemma prefix_before:
  assumes "p \<le> (k :: byte list)" "\<not> prefix p k" "prefix p k'"
  shows "k' < k"
proof -
  have "p < k" using assms(1,2) by (metis order.strict_iff_order prefix_order.refl)
  with less_cases [of p k] assms(2) have "splits_below p k" by (auto simp: strict_prefix_def)
  then have "splits_below k' k" using assms(3) splits_below_append [of p k _ "[]"] by (auto simp: prefix_def)
  then show ?thesis by (rule splits_below_less)
qed

lemma takeWhile_run:
  "sorted_wrt (<) ks \<Longrightarrow> \<forall>k \<in> set ks. p \<le> k \<Longrightarrow> takeWhile (prefix p) ks = filter (prefix p) ks" for ks :: "byte list list"
proof (induction ks)
  case (Cons k ks)
  show ?case
  proof (cases "prefix p k")
    case False
    have "\<not> prefix p k'" if "k' \<in> set ks" for k'
      using prefix_before [of p k k'] False Cons.prems that by fastforce
    with False show ?thesis by (simp add: filter_empty_conv)
  qed (use Cons in simp)
qed simp

lemma keys_with_prefix:
  "sorted_wrt (<) ks \<Longrightarrow> takeWhile (prefix p) (dropWhile (\<lambda>k. k < p) ks) = filter (prefix p) ks" for ks :: "byte list list"
proof (induction ks)
  case (Cons k ks)
  show ?case
  proof (cases "k < p")
    case True
    then have "\<not> prefix p k" using prefix_le [of p k] by auto
    with True Cons show ?thesis by simp
  next
    case False
    with Cons.prems have "\<forall>k' \<in> set (k # ks). p \<le> k'" by fastforce
    with takeWhile_run [OF Cons.prems this] False show ?thesis by simp
  qed
qed simp

lemma prefix_keys_ok:
  assumes "sound st"
  shows "takeWhile (prefix p) (keys_from p (st_entries st d t)) = filter (prefix p) (map fst (st_entries st d t))"
    "set (map fst (st_entries st d t)) = dom (tabs st d t)"
  using keys_with_prefix [OF tabs_sorted [OF assms, of d t], of p]
  by (simp_all add: keys_from_def tabs_def dom_map_of_conv_image_fst)

lemma drop_prefixed: "length p = n \<Longrightarrow> c \<in> set (map (drop n) (filter (prefix p) ks)) \<longleftrightarrow> p @ c \<in> set ks"
  by (auto simp: prefix_def intro!: image_eqI [of _ _ "p @ c"])

lemma entity_attr_values_ok:
  assumes "sound st" "represents st R s A" "map_of (sr_attrs s) a = Some (aid, p)"
  shows "\<exists>cs. entity_attr_values st e aid (sr_db s) = Inr cs \<and>
    set cs = {c. \<exists>v. (e, a, v) \<in> A \<and> venc (st_digest st) (tabs st (sr_db s)) v = Some c}"
proof -
  let ?T = "tabs st (sr_db s)" and ?dg = "st_digest st"
  let ?p = "be_u64 e @ be_u32 aid"
  let ?cs = "map (drop 12) (filter (prefix ?p) (map fst (st_entries st (sr_db s) Eav)))"
  note idx = representsD(5) [OF assms(2)]
  have "entity_attr_values st e aid (sr_db s) = Inr ?cs"
    using prefix_keys_ok(1) [OF assms(1), of ?p "sr_db s" Eav]
    by (simp add: entity_attr_values_def reads_ok [OF assms(1)] Let_def)
  moreover have "c \<in> set ?cs \<longleftrightarrow> (\<exists>v. (e, a, v) \<in> A \<and> venc ?dg ?T v = Some c)" for c
  proof -
    have "c \<in> set ?cs \<longleftrightarrow> ?p @ c \<in> dom (?T Eav)"
      using drop_prefixed [of ?p 12 c "map fst (st_entries st (sr_db s) Eav)"] prefix_keys_ok(2) [OF assms(1)] by simp
    also have "\<dots> \<longleftrightarrow> (\<exists>x \<in> A. ?p @ c = eav_of ?dg ?T (lookup_aid s) x)"
      using idx by (auto simp: index_ok_def)
    also have "\<dots> \<longleftrightarrow> (\<exists>v. (e, a, v) \<in> A \<and> venc ?dg ?T v = Some c)"
    proof
      assume "\<exists>x \<in> A. ?p @ c = eav_of ?dg ?T (lookup_aid s) x"
      then obtain e' n v where x: "(e', n, v) \<in> A" "?p @ c = eav_of ?dg ?T (lookup_aid s) (e', n, v)" by auto
      with idx obtain aid' p' c' where n: "map_of (sr_attrs s) n = Some (aid', p')" "value_ok R v" "venc ?dg ?T v = Some c'"
        by (auto simp: index_ok_def admissible_def lookup_aid_def)
      with x(2) known_datom(2) [OF n, of e'] have "e' = e" "aid' = aid" "c' = c" by (simp_all add: eav_key_def)
      moreover have "n = a" using names_back [OF assms(2) n(1)] names_back [OF assms(2,3)] \<open>aid' = aid\<close> by simp
      ultimately show "\<exists>v. (e, a, v) \<in> A \<and> venc ?dg ?T v = Some c" using x(1) n(3) by blast
    next
      assume "\<exists>v. (e, a, v) \<in> A \<and> venc ?dg ?T v = Some c"
      then obtain v where v: "(e, a, v) \<in> A" "venc ?dg ?T v = Some c" by blast
      with assms(3) have "?p @ c = eav_of ?dg ?T (lookup_aid s) (e, a, v)" by (simp add: eav_key_def lookup_aid_def)
      with v(1) show "\<exists>x \<in> A. ?p @ c = eav_of ?dg ?T (lookup_aid s) x" by blast
    qed
    finally show ?thesis .
  qed
  ultimately show ?thesis by blast
qed

lemma delete_all_ok:
  assumes "sound st" "represents st R s A" "map_of (sr_attrs s) a = Some (aid, p)"
    "\<forall>c \<in> set cs. \<exists>v. value_ok R v \<and> venc (st_digest st) (tabs st (sr_db s)) v = Some c"
  shows "\<exists>d'. delete_all st e aid cs s = (Inr (), s\<lparr>sr_db := d'\<rparr>) \<and>
    represents st R (s\<lparr>sr_db := d'\<rparr>)
      (A - {(e, a, v) | v. venc (st_digest st) (tabs st (sr_db s)) v \<in> Some ` set cs \<and> value_ok R v}) \<and>
    counter (tabs st d') = counter (tabs st (sr_db s))"
  using assms(2-4)
proof (induction cs arbitrary: s A)
  case Nil
  then show ?case by (auto intro!: exI [of _ "sr_db s"])
next
  case (Cons c cs)
  from Cons.prems(3) obtain v where v: "value_ok R v" "venc (st_digest st) (tabs st (sr_db s)) v = Some c" by auto
  from delete_datom_ok [OF assms(1) Cons.prems(1,2) v, of e] obtain d1 where
    d1: "delete_datom st e aid c s = (Inr (), s\<lparr>sr_db := d1\<rparr>)" "represents st R (s\<lparr>sr_db := d1\<rparr>) (A - {(e, a, v)})"
    "counter (tabs st d1) = counter (tabs st (sr_db s))" "tabs st d1 Giant_Ids = tabs st (sr_db s) Giant_Ids" by blast
  have same: "venc (st_digest st) (tabs st d1) = venc (st_digest st) (tabs st (sr_db s))"
    by (rule venc_cong) (rule d1(4))
  have known: "map_of (sr_attrs (s\<lparr>sr_db := d1\<rparr>)) a = Some (aid, p)" using Cons.prems(2) by simp
  have rest: "\<forall>c \<in> set cs. \<exists>v. value_ok R v \<and> venc (st_digest st) (tabs st (sr_db (s\<lparr>sr_db := d1\<rparr>))) v = Some c"
    using Cons.prems(3) by (simp add: same)
  have sets: "A - {(e, a, v)} - {(e, a, w) | w. venc (st_digest st) (tabs st (sr_db s)) w \<in> Some ` set cs \<and> value_ok R w} =
      A - {(e, a, w) | w. venc (st_digest st) (tabs st (sr_db s)) w \<in> Some ` set (c # cs) \<and> value_ok R w}"
  proof -
    have uniq: "w = v" if "value_ok R w" "venc (st_digest st) (tabs st (sr_db s)) w = Some c" for w
      using venc_split(1) [OF assms(1) representsD(1) [OF Cons.prems(1)] that v, of "[]" "[]"] by simp
    have "venc (st_digest st) (tabs st (sr_db s)) w \<in> Some ` set (c # cs) \<and> value_ok R w \<longleftrightarrow>
        w = v \<or> venc (st_digest st) (tabs st (sr_db s)) w \<in> Some ` set cs \<and> value_ok R w" for w
    proof -
      have "venc (st_digest st) (tabs st (sr_db s)) w = Some c \<and> value_ok R w \<longleftrightarrow> w = v" using uniq [of w] v by blast
      then show ?thesis unfolding list.set image_insert insert_iff by blast
    qed
    then show ?thesis by (simp only:) blast
  qed
  from Cons.IH [OF d1(2) known rest] d1(1,3) show ?case
    by (auto simp: tbind_def same sets)
qed

section \<open>Transactions\<close>

text \<open>What an operation means for the set of datoms.\<close>

fun spec_op :: "(str \<Rightarrow> bool) \<Rightarrow> op \<Rightarrow> triple set \<Rightarrow> triple set" where
  "spec_op many (Add e a v) A = insert (e, a, v) (if many a then A else {x \<in> A. \<not> (fst x = e \<and> fst (snd x) = a)})"
| "spec_op many (Retract e a v) A = A - {(e, a, v)}"

text \<open>Operations the store accepts: names that are keys, and values that fit or have a giant.\<close>

fun op_ok :: "byte list set \<Rightarrow> op \<Rightarrow> bool" where
  "op_ok R (Add e a v) \<longleftrightarrow> list_all is_scalar a \<and> key_fits (utf8_bytes a) \<and> value_ok R v"
| "op_ok R (Retract e a v) \<longleftrightarrow> list_all is_scalar a \<and> key_fits (utf8_bytes a) \<and> value_ok R v"

fun op_eid :: "op \<Rightarrow> u64 \<Rightarrow> u64" where
  "op_eid (Add e a v) m = max m e"
| "op_eid (Retract e a v) m = m"

lemma is_many_cong: "sr_attrs s' = sr_attrs s \<Longrightarrow> is_many s' = is_many s"
  by (simp add: is_many_def get_attr_props_def fun_eq_iff)

lemma replace_old_ok:
  assumes "sound st" "represents st R s A" "map_of (sr_attrs s) a = Some (aid, p)"
  shows "\<exists>d'. tbind (tread (entity_attr_values st e aid)) (delete_all st e aid) s = (Inr (), s\<lparr>sr_db := d'\<rparr>) \<and>
    represents st R (s\<lparr>sr_db := d'\<rparr>) {x \<in> A. \<not> (fst x = e \<and> fst (snd x) = a)} \<and>
    counter (tabs st d') = counter (tabs st (sr_db s))"
proof -
  let ?V = "venc (st_digest st) (tabs st (sr_db s))"
  from entity_attr_values_ok [OF assms, of e] obtain cs where
    cs: "entity_attr_values st e aid (sr_db s) = Inr cs" "set cs = {c. \<exists>v. (e, a, v) \<in> A \<and> ?V v = Some c}" by blast
  have A: "value_ok R v \<and> ?V v \<noteq> None" if "(e', n, v) \<in> A" for e' n v
    using that representsD(5) [OF assms(2)] by (auto simp: index_ok_def admissible_def)
  then have "\<forall>c \<in> set cs. \<exists>v. value_ok R v \<and> ?V v = Some c" unfolding cs(2) by blast
  from delete_all_ok [OF assms this, of e] obtain d' where
    d': "delete_all st e aid cs s = (Inr (), s\<lparr>sr_db := d'\<rparr>)"
    "represents st R (s\<lparr>sr_db := d'\<rparr>) (A - {(e, a, v) | v. ?V v \<in> Some ` set cs \<and> value_ok R v})"
    "counter (tabs st d') = counter (tabs st (sr_db s))" by blast
  have "A - {(e, a, v) | v. ?V v \<in> Some ` set cs \<and> value_ok R v} = {x \<in> A. \<not> (fst x = e \<and> fst (snd x) = a)}"
  proof -
    have "?V v \<in> Some ` set cs \<and> value_ok R v" if "(e, a, v) \<in> A" for v using A [OF that] cs(2) that by force
    then show ?thesis by auto
  qed
  with d' cs(1) show ?thesis by (auto simp: tbind_def tread_def)
qed

text \<open>What is known once the attribute of an operation is interned.\<close>

definition interned :: "'d storage \<Rightarrow> byte list set \<Rightarrow> 'd store \<Rightarrow> triple set \<Rightarrow> str \<Rightarrow> u32 \<Rightarrow> attr_props \<Rightarrow> bool" where
  "interned st R s A a aid p \<longleftrightarrow> represents st R s A \<and> map_of (sr_attrs s) a = Some (aid, p) \<and> cardinality_many p = is_many s a"

lemma add_ok:
  assumes "sound st" "interned st R s A a aid p" "value_ok R v" "giant_ids st s + 1 < 2 ^ 64"
  shows "\<exists>s'. tbind (if cardinality_many p then tret () else tbind (tread (entity_attr_values st e aid)) (delete_all st e aid))
      (\<lambda>_. tbind (encode_value_for_key st v) (\<lambda>venc. tbind (insert_datom st e aid venc v) (\<lambda>_. tret (max m e)))) s =
      (Inr (max m e), s') \<and> represents st R s' (spec_op (is_many s) (Add e a v) A) \<and> sr_attrs s' = sr_attrs s \<and>
    aids st s' = aids st s \<and> giant_ids st s' \<le> giant_ids st s + 1"
proof -
  define B where "B = (if is_many s a then A else {x \<in> A. \<not> (fst x = e \<and> fst (snd x) = a)})"
  have s: "represents st R s A" "map_of (sr_attrs s) a = Some (aid, p)" "cardinality_many p = is_many s a"
    using assms(2) by (simp_all add: interned_def)
  let ?old = "if cardinality_many p then tret () else tbind (tread (entity_attr_values st e aid)) (delete_all st e aid)"
  have "\<exists>d'. ?old s = (Inr (), s\<lparr>sr_db := d'\<rparr>) \<and> represents st R (s\<lparr>sr_db := d'\<rparr>) B \<and> counter (tabs st d') = counter (tabs st (sr_db s))"
    using replace_old_ok [OF assms(1) s(1,2), of e] s by (auto simp: B_def intro!: exI [of _ "sr_db s"])
  then obtain d2 where d2: "?old s = (Inr (), s\<lparr>sr_db := d2\<rparr>)" "represents st R (s\<lparr>sr_db := d2\<rparr>) B"
    "counter (tabs st d2) = counter (tabs st (sr_db s))" by blast
  have room: "giant_ids st (s\<lparr>sr_db := d2\<rparr>) + 1 < 2 ^ 64" using d2(3) assms(4) by simp
  from encode_for_key_ok [OF assms(1) d2(2) assms(3) room] obtain c s3 where
    s3: "encode_value_for_key st v (s\<lparr>sr_db := d2\<rparr>) = (Inr c, s3)" "represents st R s3 B"
    "venc (st_digest st) (tabs st (sr_db s3)) v = Some c" "sr_attrs s3 = sr_attrs (s\<lparr>sr_db := d2\<rparr>)"
    "aids st s3 = aids st (s\<lparr>sr_db := d2\<rparr>)" "giant_ids st s3 \<le> giant_ids st (s\<lparr>sr_db := d2\<rparr>) + 1" by blast
  have "map_of (sr_attrs s3) a = Some (aid, p)" using s3(4) s(2) by simp
  from insert_datom_ok [OF assms(1) s3(2) this assms(3) s3(3), of e] obtain d4 where
    d4: "insert_datom st e aid c v s3 = (Inr (), s3\<lparr>sr_db := d4\<rparr>)" "represents st R (s3\<lparr>sr_db := d4\<rparr>) (insert (e, a, v) B)"
    "counter (tabs st d4) = counter (tabs st (sr_db s3))" by blast
  show ?thesis
    using d2(1,3) s3(4-6) d4(2,3) by (intro exI [of _ "s3\<lparr>sr_db := d4\<rparr>"]) (simp add: tbind_def s3(1) d4(1) B_def)
qed

lemma retract_ok:
  assumes "sound st" "interned st R s A a aid p" "value_ok R v" "giant_ids st s + 1 < 2 ^ 64"
  shows "\<exists>s'. tbind (encode_value_for_key st v) (\<lambda>venc. tbind (delete_datom_encoded st e aid venc v) (\<lambda>_. tret m)) s =
      (Inr m, s') \<and> represents st R s' (spec_op (is_many s) (Retract e a v) A) \<and> sr_attrs s' = sr_attrs s \<and>
    aids st s' = aids st s \<and> giant_ids st s' \<le> giant_ids st s + 1"
proof -
  have s: "represents st R s A" "map_of (sr_attrs s) a = Some (aid, p)" using assms(2) by (simp_all add: interned_def)
  from encode_for_key_ok [OF assms(1) s(1) assms(3,4)] obtain c s3 where
    s3: "encode_value_for_key st v s = (Inr c, s3)" "represents st R s3 A"
    "venc (st_digest st) (tabs st (sr_db s3)) v = Some c" "sr_attrs s3 = sr_attrs s"
    "aids st s3 = aids st s" "giant_ids st s3 \<le> giant_ids st s + 1" by blast
  have "map_of (sr_attrs s3) a = Some (aid, p)" using s3(4) s(2) by simp
  from delete_datom_encoded_ok [OF assms(1) s3(2) this assms(3) s3(3), of e] obtain d4 where
    d4: "delete_datom_encoded st e aid c v s3 = (Inr (), s3\<lparr>sr_db := d4\<rparr>)" "represents st R (s3\<lparr>sr_db := d4\<rparr>) (A - {(e, a, v)})"
    "counter (tabs st d4) = counter (tabs st (sr_db s3))" by blast
  show ?thesis
    using s3(4-6) d4(2,3) by (intro exI [of _ "s3\<lparr>sr_db := d4\<rparr>"]) (simp add: tbind_def s3(1) d4(1))
qed

lemma apply_op_ok:
  assumes "sound st" "represents st R s A" "op_ok R oper" "aids st s + 1 < 2 ^ 32" "giant_ids st s + 1 < 2 ^ 64"
  shows "\<exists>s'. apply_op st oper m s = (Inr (op_eid oper m), s') \<and> represents st R s' (spec_op (is_many s) oper A) \<and>
    is_many s' = is_many s \<and> aids st s' \<le> aids st s + 1 \<and> giant_ids st s' \<le> giant_ids st s + 1"
proof -
  obtain e a v where op: "oper = Add e a v \<or> oper = Retract e a v" by (cases oper) auto
  then have ok: "list_all is_scalar a" "key_fits (utf8_bytes a)" "value_ok R v" using assms(3) by auto
  from intern_attr_ok [OF assms(1,2) ok(1,2) assms(4)] obtain aid p s1 where
    s1: "intern_attr st a None s = (Inr (aid, p), s1)" "represents st R s1 A" "map_of (sr_attrs s1) a = Some (aid, p)"
    "cardinality_many p = is_many s a" "is_many s1 = is_many s" "aids st s1 \<le> aids st s + 1"
    "giant_ids st s1 = giant_ids st s" by blast
  have int: "interned st R s1 A a aid p" using s1 by (simp add: interned_def)
  have room: "giant_ids st s1 + 1 < 2 ^ 64" using s1(7) assms(5) by simp
  have many: "sr_attrs s' = sr_attrs s1 \<Longrightarrow> is_many s' = is_many s" for s' using is_many_cong [of s' s1] s1(5) by simp
  from op show ?thesis
  proof
    assume "oper = Add e a v"
    with add_ok [OF assms(1) int ok(3) room, of e m] many s1(1,5-7) show ?thesis
      by (fastforce simp: apply_op_def tbind_def [of "intern_attr st a None"])
  next
    assume "oper = Retract e a v"
    with retract_ok [OF assms(1) int ok(3) room, of e m] many s1(1,5-7) show ?thesis
      by (fastforce simp: apply_op_def tbind_def [of "intern_attr st a None"])
  qed
qed

lemma apply_ops_ok:
  assumes "sound st"
  shows "represents st R s A \<Longrightarrow> list_all (op_ok R) ops \<Longrightarrow> aids st s + length ops < 2 ^ 32 \<Longrightarrow>
    giant_ids st s + length ops < 2 ^ 64 \<Longrightarrow>
    \<exists>s'. apply_ops st ops m s = (Inr (fold op_eid ops m), s') \<and> represents st R s' (fold (spec_op (is_many s)) ops A)"
proof (induction ops arbitrary: s A m)
  case (Cons oper ops)
  from apply_op_ok [OF assms Cons.prems(1), of oper m] Cons.prems obtain s1 where
    s1: "apply_op st oper m s = (Inr (op_eid oper m), s1)" "represents st R s1 (spec_op (is_many s) oper A)"
    "is_many s1 = is_many s" "aids st s1 \<le> aids st s + 1" "giant_ids st s1 \<le> giant_ids st s + 1" by auto
  from Cons.IH [OF s1(2), of "op_eid oper m"] Cons.prems s1 show ?case by (simp add: tbind_def)
qed simp

lemma commit_ok:
  assumes "sound st"
  obtains d' where "st_commit st d = Inr d'" "tabs st d' = tabs st d"
proof -
  from assms obtain d' where d': "st_commit st d = Inr d'" unfolding sound_def reliable_def by blast
  with assms have "st_entries st d' = st_entries st d" unfolding sound_def storage_laws_def by blast
  then have "tabs st d' = tabs st d" by (simp add: tabs_def fun_eq_iff)
  with d' that show thesis by blast
qed

lemma represents_cong: "represents st R s A \<Longrightarrow> tabs st d' = tabs st (sr_db s) \<Longrightarrow> represents st R (s\<lparr>sr_db := d'\<rparr>) A"
  using represents_index(1) [of st R s A d' A] representsD(5) by fastforce

lemma begin_ok: "sound st \<Longrightarrow> st_begin st d = None"
  by (simp add: sound_def reliable_def)

lemma in_write_txn_ok:
  assumes "sound st" "m s = (Inr a, s')"
  obtains d' where "in_write_txn st m s = (Inr a, s'\<lparr>sr_db := d'\<rparr>)" "tabs st d' = tabs st (sr_db s')"
proof -
  obtain d' where "st_commit st (sr_db s') = Inr d'" "tabs st d' = tabs st (sr_db s')" by (rule commit_ok [OF assms(1)])
  with assms begin_ok [OF assms(1)] that show thesis by (simp add: in_write_txn_def)
qed

lemma transact_ok:
  assumes "sound st" "represents st R s A" "list_all (op_ok R) ops"
    "aids st s + length ops < 2 ^ 32" "giant_ids st s + length ops < 2 ^ 64"
  shows "\<exists>s'. transact st ops s = (Inr (), s') \<and> represents st R s' (fold (spec_op (is_many s)) ops A) \<and>
    counter (tabs st (sr_db s')) meta_max_eid = fold op_eid ops (counter (tabs st (sr_db s)) meta_max_eid)"
proof -
  define m where "m = counter (tabs st (sr_db s)) meta_max_eid"
  from apply_ops_ok [OF assms, of m] obtain s1 where
    s1: "apply_ops st ops m s = (Inr (fold op_eid ops m), s1)" "represents st R s1 (fold (spec_op (is_many s)) ops A)" by blast
  define s2 where "s2 = s1\<lparr>sr_db := put_in st Meta meta_max_eid (be_u64 (fold op_eid ops m)) (sr_db s1)\<rparr>"
  let ?body = "tbind (tread (\<lambda>db. ro_get st db Meta meta_max_eid)) (\<lambda>b.
      tbind (apply_ops st ops (counter_or_zero b)) (\<lambda>max_eid. tput st Meta meta_max_eid (be_u64 max_eid)))"
  have body: "?body s = (Inr (), s2)"
    using s1(1) by (simp add: tbind_def tread_def reads_ok [OF assms(1)] m_def counter_def tput_ok [OF assms(1)] s2_def)
  obtain d' where d': "transact st ops s = (Inr (), s2\<lparr>sr_db := d'\<rparr>)" "tabs st d' = tabs st (sr_db s2)"
    unfolding transact_def by (rule in_write_txn_ok [OF assms(1), of ?body s "()" s2, OF body])
  have "represents st R s2 (fold (spec_op (is_many s)) ops A)"
    unfolding s2_def by (rule represents_meta [OF assms(1) s1(2)]) simp_all
  from represents_cong [OF this d'(2)] d' show ?thesis
    by (intro exI [of _ "s2\<lparr>sr_db := d'\<rparr>"]) (simp add: m_def s2_def tabs_put [OF assms(1)] counter_update)
qed

text \<open>
  C2.  A transaction on a store whose database does not fail returns, and has exactly the effect of
  its operations, in order, on the set of datoms: adding to a single-valued attribute replaces
  the old value, adding to a many-valued one keeps it, retracting removes the one datom.  All three
  indexes, the giants, the schema table and the caches stay consistent, and the largest entity
  id is kept up to date.
\<close>

theorem transact_refines:
  assumes "sound st" "represents st R s A" "list_all (op_ok R) ops"
    "aids st s + length ops < 2 ^ 32" "giant_ids st s + length ops < 2 ^ 64"
  shows "\<exists>s'. transact st ops s = (Inr (), s') \<and> represents st R s' (fold (spec_op (is_many s)) ops A) \<and>
    counter (tabs st (sr_db s')) meta_max_eid = fold op_eid ops (counter (tabs st (sr_db s)) meta_max_eid)"
  by (rule transact_ok [OF assms])

text \<open>A database in memory.\<close>

definition memory_db :: "(dbi \<Rightarrow> entries) storage" where
  "memory_db =
     (let es = (\<lambda>d t. if sorted_wrt (<) (map fst (d t)) then d t else [])
      in \<lparr>st_begin = (\<lambda>d. None), st_fault = (\<lambda>d t. None), st_entries = es,
          st_put = (\<lambda>d t k v. Inr (d(t := put_sorted k v (es d t)))),
          st_del = (\<lambda>d t k. Inr (d(t := filter (\<lambda>e. fst e \<noteq> k) (es d t)))),
          st_commit = Inr, st_digest = (\<lambda>raw. 0 # take 32 raw)\<rparr>)"

lemma memory_db_sound: "sound memory_db"
proof -
  have "sorted_wrt (<) (map fst (filter P al))" if "sorted_wrt (<) (map fst al)" for P and al :: entries
    using that by (simp add: sorted_wrt_map sorted_wrt_filter)
  then have "storage_laws memory_db"
    unfolding storage_laws_def memory_db_def Let_def by (simp add: put_sorted_sorted)
  moreover have "reliable memory_db"
    unfolding reliable_def memory_db_def Let_def by (simp add: key_fits_def min_def)
  ultimately show ?thesis by (simp add: sound_def)
qed

definition empty_store :: "(dbi \<Rightarrow> entries) store" where
  "empty_store = \<lparr>sr_db = \<lambda>_. [], sr_attrs = [], sr_names = []\<rparr>"

lemma empty_tabs: "tabs memory_db (\<lambda>_. []) t = (\<lambda>k. None)"
  by (simp add: tabs_def memory_db_def Let_def fun_eq_iff)

lemma empty_represents: "inj_on (st_digest memory_db) R \<Longrightarrow> represents memory_db R empty_store {}"
  by (simp add: represents_def Let_def empty_store_def giants_ok_def meta_ok_def caches_ok_def schema_ok_def index_ok_def
      refs_def empty_tabs split: bind_split)

text \<open>The store after a first transaction.\<close>

abbreviation sample_ops :: "op list" where
  "sample_ops \<equiv> [Add 1 (lit ''x'') (SV_Long 5), Add 2 (lit ''x'') (SV_Ref 1), Add 1 (lit ''x'') (SV_Long 6)]"

lemma sample_ops_ok:
  "list_all (op_ok {}) sample_ops" "is_many empty_store = (\<lambda>n. False)"
  "counter (tabs memory_db (sr_db empty_store)) k = 0"
  "fold (spec_op (\<lambda>n. False)) sample_ops {} = {(1, lit ''x'', SV_Long 6), (2, lit ''x'', SV_Ref 1)}"
  "fold op_eid sample_ops 0 = 2"
proof -
  show "list_all (op_ok {}) sample_ops"
    by (simp add: is_scalar_def key_fits_def utf8_bytes_def utf8_units_def value_ok_def is_giant_def giant_threshold_def)
  show "is_many empty_store = (\<lambda>n. False)"
    by (simp add: is_many_def get_attr_props_def empty_store_def fun_eq_iff)
  show "counter (tabs memory_db (sr_db empty_store)) k = 0"
    by (simp add: counter_def counter_or_zero_def empty_store_def empty_tabs)
  show "fold (spec_op (\<lambda>n. False)) sample_ops {} = {(1, lit ''x'', SV_Long 6), (2, lit ''x'', SV_Ref 1)}"
    by auto
  show "fold op_eid sample_ops 0 = 2"
    by simp
qed

theorem transact_refines_witness:
  "\<exists>s'. transact memory_db sample_ops empty_store = (Inr (), s') \<and>
    represents memory_db {} s' {(1, lit ''x'', SV_Long 6), (2, lit ''x'', SV_Ref 1)} \<and>
    counter (tabs memory_db (sr_db s')) meta_max_eid = 2"
  using transact_refines [OF memory_db_sound empty_represents sample_ops_ok(1), unfolded sample_ops_ok(2-4)]
  by (simp add: sample_ops_ok(5) [unfolded fold_simps])

lemma sample_store:
  obtains s where "transact memory_db sample_ops empty_store = (Inr (), s)"
    "represents memory_db {} s {(1, lit ''x'', SV_Long 6), (2, lit ''x'', SV_Ref 1)}"
  using transact_ok [OF memory_db_sound empty_represents sample_ops_ok(1), unfolded sample_ops_ok(2-4)]
  by auto

end
