(* ===== verification/Datalog_Query_Spec.thy ===== *)
theory Datalog_Query_Spec
  imports Datalog_Store_Spec
begin

text \<open>
  Searches return exactly the matching datoms, counts agree with searches, ranges with their
  bounds; and what an aborted transaction leaves behind.
\<close>

section \<open>Decoding the keys of an index\<close>

fun datom_of :: "triple \<Rightarrow> datom" where
  "datom_of (e, n, v) = \<lparr>d_e = e, d_a = n, d_v = v\<rparr>"

lemma datom_of_inject: "datom_of x = datom_of y \<longleftrightarrow> x = y"
  by (cases x; cases y) auto

lemma collect_ok:
  assumes "distinct ks" "\<And>k. k \<in> set ks \<Longrightarrow> \<exists>x \<in> A. key x = k \<and> f k = Inr (datom_of x)" "inj_on key A"
  shows "\<exists>ds. collect f ks = Inr ds \<and> distinct ds \<and> set ds = datom_of ` {x \<in> A. key x \<in> set ks} \<and> length ds = length ks"
proof -
  from assms(2) obtain g where g: "\<And>k. k \<in> set ks \<Longrightarrow> g k \<in> A \<and> key (g k) = k \<and> f k = Inr (datom_of (g k))" by metis
  have run: "collect f ks' = Inr (map (\<lambda>k. datom_of (g k)) ks')" if "set ks' \<subseteq> set ks" for ks'
    using that g by (induction ks') auto
  have "inj_on (\<lambda>k. datom_of (g k)) (set ks)"
    using g by (intro inj_onI) (metis datom_of_inject)
  then have "distinct (map (\<lambda>k. datom_of (g k)) ks)" using assms(1) by (simp add: distinct_map)
  moreover have image: "g ` set ks = {x \<in> A. key x \<in> set ks}"
  proof (intro equalityI subsetI)
    fix x
    assume x: "x \<in> {x \<in> A. key x \<in> set ks}"
    then have "g (key x) \<in> A" "key (g (key x)) = key x" using g by auto
    with x assms(3) have "g (key x) = x" by (auto dest: inj_onD)
    with x show "x \<in> g ` set ks" by (metis (mono_tags, lifting) image_eqI mem_Collect_eq)
  qed (use g in auto)
  have "set (map (\<lambda>k. datom_of (g k)) ks) = datom_of ` (g ` set ks)" by (simp add: image_image)
  then have "set (map (\<lambda>k. datom_of (g k)) ks) = datom_of ` {x \<in> A. key x \<in> set ks}" by (simp only: image)
  ultimately show ?thesis using run [of ks] by (metis length_map order_refl)
qed

text \<open>The keys of a represented datom decode to it.\<close>

lemma datom_keys:
  assumes "represents st R s A" "(e, n, v) \<in> A"
  obtains aid p c where "map_of (sr_attrs s) n = Some (aid, p)" "value_ok R v"
    "venc (st_digest st) (tabs st (sr_db s)) v = Some c" "attr_name s aid = Inr n"
    "eav_of (st_digest st) (tabs st (sr_db s)) (lookup_aid s) (e, n, v) = eav_key e aid c"
    "ave_of (st_digest st) (tabs st (sr_db s)) (lookup_aid s) (e, n, v) = ave_key aid c e"
    "vae_of (lookup_aid s) (e, n, v) = vae_key (ref_target v) aid e"
proof -
  from assms representsD(5) [OF assms(1)] obtain aid p c where k: "map_of (sr_attrs s) n = Some (aid, p)" "value_ok R v"
    "venc (st_digest st) (tabs st (sr_db s)) v = Some c"
    by (auto simp: index_ok_def admissible_def lookup_aid_def)
  with names_back [OF assms(1) k(1)] show thesis by (intro that [of aid p c]) (simp_all add: attr_name_def lookup_aid_def)
qed

lemma decode_keys:
  assumes "sound st" "represents st R s A" "x \<in> A"
  shows "decode_eav st s (eav_of (st_digest st) (tabs st (sr_db s)) (lookup_aid s) x) = Inr (datom_of x)"
    "decode_ave st s (ave_of (st_digest st) (tabs st (sr_db s)) (lookup_aid s) x) = Inr (datom_of x)"
    "is_ref (snd (snd x)) \<Longrightarrow> decode_vae s (ref_target (snd (snd x))) (vae_of (lookup_aid s) x) = Inr (datom_of x)"
proof -
  obtain e n v where x: "x = (e, n, v)" by (cases x)
  with assms(3) have "(e, n, v) \<in> A" by simp
  from datom_keys [OF assms(2) this] obtain aid p c where k: "value_ok R v"
    "venc (st_digest st) (tabs st (sr_db s)) v = Some c" "attr_name s aid = Inr n"
    "eav_of (st_digest st) (tabs st (sr_db s)) (lookup_aid s) (e, n, v) = eav_key e aid c"
    "ave_of (st_digest st) (tabs st (sr_db s)) (lookup_aid s) (e, n, v) = ave_key aid c e"
    "vae_of (lookup_aid s) (e, n, v) = vae_key (ref_target v) aid e" .
  note dec = decode_venc [OF assms(1) representsD(1) [OF assms(2)] k(1,2)]
  show "decode_eav st s (eav_of (st_digest st) (tabs st (sr_db s)) (lookup_aid s) x) = Inr (datom_of x)"
    unfolding x k(4) using dec [of "[]"] by (simp add: k(3) decode_eav_def eav_key_def key_part_def)
  show "decode_ave st s (ave_of (st_digest st) (tabs st (sr_db s)) (lookup_aid s) x) = Inr (datom_of x)"
    unfolding x k(5) using dec [of "be_u64 e"] by (simp add: k(3) decode_ave_def ave_key_def key_part_def)
  show "decode_vae s (ref_target (snd (snd x))) (vae_of (lookup_aid s) x) = Inr (datom_of x)" if "is_ref (snd (snd x))"
    using that unfolding x k(6) by (cases v) (simp_all add: k(3) decode_vae_def vae_key_def key_part_def)
qed

section \<open>Searching\<close>

lemma prefix_append_iff: "length p = length q \<Longrightarrow> prefix (p @ r) (q @ t) \<longleftrightarrow> p = q \<and> prefix r t"
  by (auto simp: prefix_def append_eq_append_conv)

text \<open>The bytes a search looks for lead to the value itself and to no other.\<close>

lemma readonly_ok:
  assumes "sound st" "represents st R s A" "value_ok R u"
  shows "\<exists>c. encode_value_readonly st (sr_db s) u = Inr c \<and>
    (\<forall>v c' r. value_ok R v \<longrightarrow> venc (st_digest st) (tabs st (sr_db s)) v = Some c' \<longrightarrow> (prefix c (c' @ r) \<longleftrightarrow> v = u))"
proof (cases "venc (st_digest st) (tabs st (sr_db s)) u")
  case (Some c)
  note g = representsD(1) [OF assms(2)]
  have "encode_value_readonly st (sr_db s) u = Inr c"
  proof (cases "is_giant u")
    case True
    from giant_vencE [OF g assms(3) Some True] obtain tag raw i where gk: "giant_raw u = Some (tag, raw)" "c = giant_key tag raw i" .
    with Some True have "tabs st (sr_db s) Giant_Ids (st_digest st raw) = Some (be_u64 i)"
      by (auto simp: venc_def giant_key_def)
    with True gk show ?thesis
      by (simp add: encode_value_readonly_def is_giant_def encoded_def Let_def reads_ok [OF assms(1)] giant_id_of_def)
  next
    case False
    with Some show ?thesis by (simp add: venc_def encode_value_readonly_def is_giant_def encoded_def Let_def)
  qed
  moreover have "prefix c (c' @ r) \<longleftrightarrow> v = u"
    if "value_ok R v" "venc (st_digest st) (tabs st (sr_db s)) v = Some c'" for v c' r
    using venc_split(1) [OF assms(1) g that assms(3) Some, of r] Some that by (auto simp: prefix_def)
  ultimately show ?thesis by blast
next
  case None
  note g = representsD(1) [OF assms(2)]
  from None have giant: "is_giant u" by (auto simp: venc_def split: if_splits)
  with assms(3) obtain tag raw where raw: "giant_raw u = Some (tag, raw)" by (auto simp: value_ok_def)
  with None giant have "tabs st (sr_db s) Giant_Ids (st_digest st raw) = None" by (simp add: venc_def)
  with giant raw have enc: "encode_value_readonly st (sr_db s) u = Inr (giant_key tag raw 0)"
    by (simp add: encode_value_readonly_def is_giant_def encoded_def Let_def reads_ok [OF assms(1)])
  have len: "length (giant_key tag raw 0) = 73" using giant_length [OF giant raw] by (simp add: giant_key_def giant_prefix_def)
  have "\<not> prefix (giant_key tag raw 0) (c' @ r)" "v \<noteq> u"
    if v: "value_ok R v" "venc (st_digest st) (tabs st (sr_db s)) v = Some c'" for v c' r
  proof -
    show "v \<noteq> u" using v None by auto
    show "\<not> prefix (giant_key tag raw 0) (c' @ r)"
    proof (cases "is_giant v")
      case True
      from giant_vencE [OF g v True] obtain tag' raw' i where "c' = giant_key tag' raw' i" "0 < i" "length c' = 73" by blast
      with len show ?thesis using prefix_append_iff [of "giant_key tag raw 0" c' "[]" r] by (auto simp: giant_key_def)
    next
      case False
      then have "c' = value_tag v # tl (encoded v)" using v(2) encoded_tag [of v] by (simp add: venc_def)
      moreover have "value_tag v \<noteq> tag" using raw by (cases rule: giant_raw_cases) (cases v; simp add: tag_defs)+
      ultimately show ?thesis by (auto simp: giant_key_def)
    qed
  qed
  with enc show ?thesis by blast
qed

text \<open>A scan returns the datoms whose keys have the prefix.\<close>

definition found :: "datom list \<Rightarrow> triple set \<Rightarrow> bool" where
  "found ds X \<longleftrightarrow> distinct ds \<and> set ds = datom_of ` X"

lemma index_keys:
  assumes "sound st" "represents st R s A"
  shows "inj_on (eav_of (st_digest st) (tabs st (sr_db s)) (lookup_aid s)) A"
    "inj_on (ave_of (st_digest st) (tabs st (sr_db s)) (lookup_aid s)) A" "inj_on (vae_of (lookup_aid s)) (refs A)"
proof -
  have A: "A \<subseteq> admissible (st_digest st) R (tabs st (sr_db s)) (lookup_aid s)"
    using representsD(5) [OF assms(2)] by (simp add: index_ok_def)
  note inj = keys_inject [OF assms(1) representsD(1,6) [OF assms(2)]]
  show "inj_on (eav_of (st_digest st) (tabs st (sr_db s)) (lookup_aid s)) A"
    by (rule inj_onI) (use inj(1) A in blast)
  show "inj_on (ave_of (st_digest st) (tabs st (sr_db s)) (lookup_aid s)) A"
    by (rule inj_onI) (use inj(2) A in blast)
  have "x \<in> refs A \<Longrightarrow> x \<in> A \<and> is_ref (snd (snd x))" for x by (simp add: refs_def)
  then show "inj_on (vae_of (lookup_aid s)) (refs A)"
    by (intro inj_onI) (use inj(3) A in blast)
qed

lemma scan_ok:
  assumes "sound st" "dom (tabs st d t) = key ` X" "inj_on key X" "\<And>x. x \<in> X \<Longrightarrow> prefix p (key x) \<Longrightarrow> f (key x) = Inr (datom_of x)"
  shows "\<exists>ds. rbind (prefix_keys st d t p) (collect f) = Inr ds \<and> found ds {x \<in> X. prefix p (key x)} \<and>
    length ds = length (filter (prefix p) (map fst (st_entries st d t)))"
proof -
  let ?ks = "filter (prefix p) (map fst (st_entries st d t))"
  have keys: "set ?ks = {k \<in> key ` X. prefix p k}" using prefix_keys_ok(2) [OF assms(1), of d t] assms(2) by auto
  have "distinct ?ks" using tabs_sorted [OF assms(1), of d t] strict_sorted_iff distinct_filter by blast
  then obtain ds where "collect f ?ks = Inr ds" "distinct ds" "set ds = datom_of ` {x \<in> X. key x \<in> set ?ks}" "length ds = length ?ks"
    using collect_ok [of ?ks X key f] keys assms(3,4) by fastforce
  moreover have "{x \<in> X. key x \<in> set ?ks} = {x \<in> X. prefix p (key x)}" using keys by auto
  ultimately show ?thesis
    using prefix_keys_ok(1) [OF assms(1), of p d t] by (auto simp: prefix_keys_def reads_ok [OF assms(1)] found_def)
qed

lemma scans_ok:
  assumes "sound st" "represents st R s A"
  shows "\<exists>ds. scan_eav st s p = Inr ds \<and>
      found ds {x \<in> A. prefix p (eav_of (st_digest st) (tabs st (sr_db s)) (lookup_aid s) x)} \<and>
      length ds = length (filter (prefix p) (map fst (st_entries st (sr_db s) Eav)))"
    "\<exists>ds. scan_ave st s p = Inr ds \<and>
      found ds {x \<in> A. prefix p (ave_of (st_digest st) (tabs st (sr_db s)) (lookup_aid s) x)} \<and>
      length ds = length (filter (prefix p) (map fst (st_entries st (sr_db s) Ave)))"
    "\<exists>ds. scan_vae st s t = Inr ds \<and> found ds {x \<in> A. snd (snd x) = SV_Ref t} \<and>
      length ds = length (filter (prefix (be_u64 t)) (map fst (st_entries st (sr_db s) Vae)))"
proof -
  note idx = representsD(5) [OF assms(2), unfolded index_ok_def]
  show "\<exists>ds. scan_eav st s p = Inr ds \<and>
      found ds {x \<in> A. prefix p (eav_of (st_digest st) (tabs st (sr_db s)) (lookup_aid s) x)} \<and>
      length ds = length (filter (prefix p) (map fst (st_entries st (sr_db s) Eav)))"
    unfolding scan_eav_def
    by (rule scan_ok [OF assms(1) _ index_keys(1) [OF assms]]) (use idx decode_keys(1) [OF assms] in auto)
  show "\<exists>ds. scan_ave st s p = Inr ds \<and>
      found ds {x \<in> A. prefix p (ave_of (st_digest st) (tabs st (sr_db s)) (lookup_aid s) x)} \<and>
      length ds = length (filter (prefix p) (map fst (st_entries st (sr_db s) Ave)))"
    unfolding scan_ave_def
    by (rule scan_ok [OF assms(1) _ index_keys(2) [OF assms]]) (use idx decode_keys(2) [OF assms] in auto)
  have target: "is_ref (snd (snd x)) \<and> prefix (be_u64 t) (vae_of (lookup_aid s) x) \<longleftrightarrow> snd (snd x) = SV_Ref t" for x
    using prefix_append_iff [of "be_u64 t" "be_u64 (ref_target (snd (snd x)))" "[]"]
    by (cases x; cases "snd (snd x)") (auto simp: vae_key_def)
  then have "{x \<in> refs A. prefix (be_u64 t) (vae_of (lookup_aid s) x)} = {x \<in> A. snd (snd x) = SV_Ref t}"
    unfolding refs_def by blast
  moreover have "decode_vae s t (vae_of (lookup_aid s) x) = Inr (datom_of x)"
    if "x \<in> refs A" "prefix (be_u64 t) (vae_of (lookup_aid s) x)" for x
    using that target [of x] decode_keys(3) [OF assms, of x] by (auto simp: refs_def)
  ultimately show "\<exists>ds. scan_vae st s t = Inr ds \<and> found ds {x \<in> A. snd (snd x) = SV_Ref t} \<and>
      length ds = length (filter (prefix (be_u64 t)) (map fst (st_entries st (sr_db s) Vae)))"
    unfolding scan_vae_def using scan_ok [OF assms(1) _ index_keys(3) [OF assms], of "sr_db s" Vae "be_u64 t" "decode_vae s t"] idx
    by simp
qed

text \<open>What a pattern asks for: values are compared by their bytes with an attribute, by \<open>==\<close> without.\<close>

fun matches :: "u64 option \<Rightarrow> str option \<Rightarrow> store_value option \<Rightarrow> triple \<Rightarrow> bool" where
  "matches e a v (e', n, w) \<longleftrightarrow>
     (e = None \<or> e = Some e') \<and> (a = None \<or> a = Some n) \<and>
     (case v of None \<Rightarrow> True | Some u \<Rightarrow> if a = None then value_eq w u else w = u)"

lemma retain_found: "found ds X \<Longrightarrow> found (retain_value v ds) {x \<in> X. case v of None \<Rightarrow> True | Some u \<Rightarrow> value_eq (snd (snd x)) u}"
proof -
  have d: "d_v (datom_of x) = snd (snd x)" for x by (cases x) simp
  assume "found ds X"
  then show ?thesis by (cases v) (auto simp: found_def retain_value_def d)
qed

lemma value_eq_ref: "value_eq w (SV_Ref t) \<longleftrightarrow> w = SV_Ref t"
  by (cases w) auto

lemma prefix_eav:
  assumes "represents st R s A" "x \<in> A"
  shows "prefix (be_u64 e) (eav_of (st_digest st) (tabs st (sr_db s)) (lookup_aid s) x) \<longleftrightarrow> fst x = e"
    "map_of (sr_attrs s) a = Some (aid, p) \<Longrightarrow>
     prefix (be_u64 e @ be_u32 aid @ c) (eav_of (st_digest st) (tabs st (sr_db s)) (lookup_aid s) x) \<longleftrightarrow>
       fst x = e \<and> fst (snd x) = a \<and> prefix c (the (venc (st_digest st) (tabs st (sr_db s)) (snd (snd x))))"
    "map_of (sr_attrs s) a = Some (aid, p) \<Longrightarrow>
     prefix (be_u32 aid @ c) (ave_of (st_digest st) (tabs st (sr_db s)) (lookup_aid s) x) \<longleftrightarrow>
       fst (snd x) = a \<and> prefix c (the (venc (st_digest st) (tabs st (sr_db s)) (snd (snd x))) @ be_u64 (fst x))"
proof -
  obtain e' n v where x: "x = (e', n, v)" by (cases x)
  with assms(2) have "(e', n, v) \<in> A" by simp
  from datom_keys [OF assms(1) this] obtain aid' p' c' where k: "map_of (sr_attrs s) n = Some (aid', p')"
    "venc (st_digest st) (tabs st (sr_db s)) v = Some c'"
    "eav_of (st_digest st) (tabs st (sr_db s)) (lookup_aid s) (e', n, v) = eav_key e' aid' c'"
    "ave_of (st_digest st) (tabs st (sr_db s)) (lookup_aid s) (e', n, v) = ave_key aid' c' e'" .
  have same: "aid = aid' \<longleftrightarrow> n = a" if "map_of (sr_attrs s) a = Some (aid, p)"
    using names_back [OF assms(1) that] names_back [OF assms(1) k(1)] that k(1) by auto
  show "prefix (be_u64 e) (eav_of (st_digest st) (tabs st (sr_db s)) (lookup_aid s) x) \<longleftrightarrow> fst x = e"
    using prefix_append_iff [of "be_u64 e" "be_u64 e'" "[]"] unfolding x k(3) by (auto simp: eav_key_def)
  show "prefix (be_u64 e @ be_u32 aid @ c) (eav_of (st_digest st) (tabs st (sr_db s)) (lookup_aid s) x) \<longleftrightarrow>
       fst x = e \<and> fst (snd x) = a \<and> prefix c (the (venc (st_digest st) (tabs st (sr_db s)) (snd (snd x))))"
    if "map_of (sr_attrs s) a = Some (aid, p)"
    unfolding x k(3) using same [OF that] k(2) by (auto simp: eav_key_def prefix_append_iff)
  show "prefix (be_u32 aid @ c) (ave_of (st_digest st) (tabs st (sr_db s)) (lookup_aid s) x) \<longleftrightarrow>
       fst (snd x) = a \<and> prefix c (the (venc (st_digest st) (tabs st (sr_db s)) (snd (snd x))) @ be_u64 (fst x))"
    if "map_of (sr_attrs s) a = Some (aid, p)"
    unfolding x k(4) using same [OF that] k(2) by (auto simp: ave_key_def prefix_append_iff)
qed

text \<open>The bytes of the searched value, as \<open>search\<close> and \<open>count\<close> append them to a prefix.\<close>

lemma value_prefix:
  assumes "sound st" "represents st R s A" "case v of None \<Rightarrow> True | Some u \<Rightarrow> value_ok R u"
  obtains c where
    "(case v of None \<Rightarrow> Inr None | Some w \<Rightarrow> rbind (encode_value_readonly st (sr_db s) w) (\<lambda>c. Inr (Some c))) =
       Inr (map_option (\<lambda>_. c) v)"
    "\<And>p. with_value st (sr_db s) p v = Inr (p @ (case v of None \<Rightarrow> [] | Some _ \<Rightarrow> c))"
    "\<And>x r. x \<in> A \<Longrightarrow> prefix (case v of None \<Rightarrow> [] | Some _ \<Rightarrow> c) (the (venc (st_digest st) (tabs st (sr_db s)) (snd (snd x))) @ r) \<longleftrightarrow>
       (case v of None \<Rightarrow> True | Some u \<Rightarrow> snd (snd x) = u)"
proof (cases v)
  case None
  then show thesis by (intro that [of "[]"]) (simp_all add: with_value_def)
next
  case (Some u)
  with assms(3) readonly_ok [OF assms(1,2), of u] obtain c where c: "encode_value_readonly st (sr_db s) u = Inr c"
    "\<And>w c' r. value_ok R w \<Longrightarrow> venc (st_digest st) (tabs st (sr_db s)) w = Some c' \<Longrightarrow> prefix c (c' @ r) \<longleftrightarrow> w = u"
    by auto
  have "prefix c (the (venc (st_digest st) (tabs st (sr_db s)) w) @ r) \<longleftrightarrow> w = u" if A: "(e, n, w) \<in> A" for e n w r
  proof -
    from datom_keys [OF assms(2) A] obtain c' where "value_ok R w" "venc (st_digest st) (tabs st (sr_db s)) w = Some c'" by blast
    with c(2) show ?thesis by simp
  qed
  with c(1) Some show thesis by (intro that [of c]) (auto simp: with_value_def)
qed

text \<open>With an attribute: the datoms under the searched prefix are the matching ones.\<close>

lemma attribute_prefixes:
  assumes "sound st" "represents st R s A" "map_of (sr_attrs s) a = Some (aid, p)" "x \<in> A"
    "\<And>x r. x \<in> A \<Longrightarrow> prefix c (the (venc (st_digest st) (tabs st (sr_db s)) (snd (snd x))) @ r) \<longleftrightarrow>
       (case v of None \<Rightarrow> True | Some u \<Rightarrow> snd (snd x) = u)"
  shows "prefix (be_u64 e @ be_u32 aid @ c) (eav_of (st_digest st) (tabs st (sr_db s)) (lookup_aid s) x) \<longleftrightarrow>
      matches (Some e) (Some a) v x"
    "prefix (be_u32 aid @ c) (ave_of (st_digest st) (tabs st (sr_db s)) (lookup_aid s) x) \<longleftrightarrow> matches None (Some a) v x"
proof -
  have c: "prefix c (the (venc (st_digest st) (tabs st (sr_db s)) (snd (snd x)))) \<longleftrightarrow>
      (case v of None \<Rightarrow> True | Some u \<Rightarrow> snd (snd x) = u)"
    using assms(5) [OF assms(4), of "[]"] by simp
  show "prefix (be_u64 e @ be_u32 aid @ c) (eav_of (st_digest st) (tabs st (sr_db s)) (lookup_aid s) x) \<longleftrightarrow>
      matches (Some e) (Some a) v x"
    unfolding prefix_eav(2) [OF assms(2,4,3)] c by (cases x; cases v) auto
  show "prefix (be_u32 aid @ c) (ave_of (st_digest st) (tabs st (sr_db s)) (lookup_aid s) x) \<longleftrightarrow> matches None (Some a) v x"
    unfolding prefix_eav(3) [OF assms(2,4,3)] assms(5) [OF assms(4)] by (cases x; cases v) auto
qed

lemma attribute_run:
  assumes "sound st" "represents st R s A" "case v of None \<Rightarrow> True | Some u \<Rightarrow> value_ok R u"
    "map_of (sr_attrs s) a = Some (aid, p)"
  obtains c where
    "search st s e (Some a) v =
       (case e of Some i \<Rightarrow> scan_eav st s (be_u64 i @ be_u32 aid @ c) | None \<Rightarrow> scan_ave st s (be_u32 aid @ c))"
    "count_datoms st s e (Some a) v =
       (case e of Some i \<Rightarrow> count_prefix st (sr_db s) Eav (be_u64 i @ be_u32 aid @ c)
                | None \<Rightarrow> count_prefix st (sr_db s) Ave (be_u32 aid @ c))"
    "\<And>x r. x \<in> A \<Longrightarrow> prefix c (the (venc (st_digest st) (tabs st (sr_db s)) (snd (snd x))) @ r) \<longleftrightarrow>
       (case v of None \<Rightarrow> True | Some u \<Rightarrow> snd (snd x) = u)"
proof -
  obtain c where
    run: "(case v of None \<Rightarrow> Inr None | Some w \<Rightarrow> rbind (encode_value_readonly st (sr_db s) w) (\<lambda>c. Inr (Some c))) =
       Inr (map_option (\<lambda>_. c) v)"
    and key: "\<And>p. with_value st (sr_db s) p v = Inr (p @ (case v of None \<Rightarrow> [] | Some _ \<Rightarrow> c))"
    and c: "\<And>x r. x \<in> A \<Longrightarrow> prefix (case v of None \<Rightarrow> [] | Some _ \<Rightarrow> c)
        (the (venc (st_digest st) (tabs st (sr_db s)) (snd (snd x))) @ r) \<longleftrightarrow>
       (case v of None \<Rightarrow> True | Some u \<Rightarrow> snd (snd x) = u)"
    using value_prefix [OF assms(1-3)] by metis
  let ?c = "case v of None \<Rightarrow> [] | Some _ \<Rightarrow> c"
  have cs: "(case map_option (\<lambda>_. c) v of None \<Rightarrow> [] | Some c \<Rightarrow> c) = ?c" by (cases v) simp_all
  have "search st s e (Some a) v =
      (case e of Some i \<Rightarrow> scan_eav st s (be_u64 i @ be_u32 aid @ ?c) | None \<Rightarrow> scan_ave st s (be_u32 aid @ ?c))"
    using run by (simp add: search_def reads_ok [OF assms(1)] lookup_aid_def assms(4) search_scan_def cs split: option.splits)
  moreover have "count_datoms st s e (Some a) v =
       (case e of Some i \<Rightarrow> count_prefix st (sr_db s) Eav (be_u64 i @ be_u32 aid @ ?c)
                | None \<Rightarrow> count_prefix st (sr_db s) Ave (be_u32 aid @ ?c))"
    using key by (simp add: count_datoms_def reads_ok [OF assms(1)] lookup_aid_def assms(4) split: option.splits)
  ultimately show thesis using c by (rule that)
qed

lemma search_attribute:
  assumes "sound st" "represents st R s A" "case v of None \<Rightarrow> True | Some u \<Rightarrow> value_ok R u"
    "map_of (sr_attrs s) a = Some (aid, p)"
  shows "\<exists>ds. search st s e (Some a) v = Inr ds \<and> found ds {x \<in> A. matches e (Some a) v x}"
proof -
  obtain c where
    search: "search st s e (Some a) v =
       (case e of Some i \<Rightarrow> scan_eav st s (be_u64 i @ be_u32 aid @ c) | None \<Rightarrow> scan_ave st s (be_u32 aid @ c))"
    and c: "\<And>x r. x \<in> A \<Longrightarrow> prefix c (the (venc (st_digest st) (tabs st (sr_db s)) (snd (snd x))) @ r) \<longleftrightarrow>
       (case v of None \<Rightarrow> True | Some u \<Rightarrow> snd (snd x) = u)"
    using attribute_run [OF assms] by metis
  show ?thesis
  proof (cases e)
    case None
    have "{x \<in> A. prefix (be_u32 aid @ c) (ave_of (st_digest st) (tabs st (sr_db s)) (lookup_aid s) x)} =
        {x \<in> A. matches None (Some a) v x}"
      using attribute_prefixes(2) [OF assms(1,2,4) _ c] by blast
    with scans_ok(2) [OF assms(1,2), of "be_u32 aid @ c"] None search show ?thesis by auto
  next
    case (Some i)
    have "{x \<in> A. prefix (be_u64 i @ be_u32 aid @ c) (eav_of (st_digest st) (tabs st (sr_db s)) (lookup_aid s) x)} =
        {x \<in> A. matches (Some i) (Some a) v x}"
      using attribute_prefixes(1) [OF assms(1,2,4) _ c] by blast
    with scans_ok(1) [OF assms(1,2), of "be_u64 i @ be_u32 aid @ c"] Some search show ?thesis by auto
  qed
qed

lemma no_attribute_run:
  assumes "sound st" "represents st R s A" "case v of None \<Rightarrow> True | Some u \<Rightarrow> value_ok R u"
  shows "search st s e None v =
    (case e of
       Some i \<Rightarrow> rbind (scan_eav st s (be_u64 i)) (\<lambda>out. Inr (retain_value v out))
     | None \<Rightarrow>
         (case v of
            Some (SV_Ref target) \<Rightarrow> scan_vae st s target
          | _ \<Rightarrow> rbind (scan_eav st s []) (\<lambda>out. Inr (retain_value v out))))"
proof -
  obtain c where
    "(case v of None \<Rightarrow> Inr None | Some w \<Rightarrow> rbind (encode_value_readonly st (sr_db s) w) (\<lambda>c. Inr (Some c))) =
       Inr (map_option (\<lambda>_. c) v)"
    using value_prefix [OF assms] by metis
  then show ?thesis
    by (simp add: search_def reads_ok [OF assms(1)] search_scan_def split: option.splits)
qed

lemma search_no_attribute:
  assumes "sound st" "represents st R s A" "case v of None \<Rightarrow> True | Some u \<Rightarrow> value_ok R u"
  shows "\<exists>ds. search st s e None v = Inr ds \<and> found ds {x \<in> A. matches e None v x}"
proof -
  note search = no_attribute_run [OF assms]
  consider (entity) i where "e = Some i" | (target) t where "e = None" "v = Some (SV_Ref t)"
    | (all) "e = None" "\<And>t. v \<noteq> Some (SV_Ref t)" by (cases e) auto
  then show ?thesis
  proof cases
    case entity
    from scans_ok(1) [OF assms(1,2), of "be_u64 i"] obtain ds where ds: "scan_eav st s (be_u64 i) = Inr ds"
      "found ds {x \<in> A. prefix (be_u64 i) (eav_of (st_digest st) (tabs st (sr_db s)) (lookup_aid s) x)}" by blast
    have "{x \<in> {x \<in> A. prefix (be_u64 i) (eav_of (st_digest st) (tabs st (sr_db s)) (lookup_aid s) x)}.
        case v of None \<Rightarrow> True | Some u \<Rightarrow> value_eq (snd (snd x)) u} = {x \<in> A. matches e None v x}"
      using prefix_eav(1) [OF assms(2)] entity by (auto split: option.splits)
    with retain_found [OF ds(2), of v] ds(1) search entity show ?thesis by simp
  next
    case target
    have "{x \<in> A. snd (snd x) = SV_Ref t} = {x \<in> A. matches e None v x}"
      using target by (auto simp: value_eq_ref)
    with scans_ok(3) [OF assms(1,2), of t] search target show ?thesis by auto
  next
    case all
    from scans_ok(1) [OF assms(1,2), of "[]"] obtain ds where ds: "scan_eav st s [] = Inr ds" "found ds A" by auto
    have "{x \<in> A. case v of None \<Rightarrow> True | Some u \<Rightarrow> value_eq (snd (snd x)) u} = {x \<in> A. matches e None v x}"
      using all(1) by (auto split: option.splits)
    with retain_found [OF ds(2), of v] ds(1) search all show ?thesis
      by (auto split: option.splits store_value.splits)
  qed
qed

text \<open>
  C3. A search answers with exactly the stored datoms that match its pattern, each once, whatever
  index the pattern selects: any combination of entity, attribute and value.
\<close>

theorem search_exact:
  assumes "sound st" "represents st R s A" "case v of None \<Rightarrow> True | Some u \<Rightarrow> value_ok R u"
  shows "\<exists>ds. search st s e a v = Inr ds \<and> found ds {x \<in> A. matches e a v x}"
proof (cases a)
  case None
  with search_no_attribute [OF assms] show ?thesis by simp
next
  case (Some n)
  show ?thesis
  proof (cases "map_of (sr_attrs s) n")
    case None
    have "n' \<noteq> n" if "(e', n', w) \<in> A" for e' n' w
      using datom_keys [OF assms(2) that] None by (metis option.distinct(1))
    then have "\<not> matches e a v x" if "x \<in> A" for x
      using that Some by (cases x) auto
    then show ?thesis
      using None Some by (auto simp: search_def reads_ok [OF assms(1)] lookup_aid_def found_def)
  next
    case k: (Some k)
    with search_attribute [OF assms, where a = n and aid = "fst k" and p = "snd k"] Some show ?thesis by simp
  qed
qed

section \<open>Counting by ranks\<close>

lemma prefix_successor_simps:
  "prefix_successor [] = None"
  "prefix_successor (p @ [b]) = (if b = 0xFF then prefix_successor p else Some (p @ [b + 1]))"
  by (simp_all add: prefix_successor_def)

lemma append_cancel: "p @ t \<le> p @ u \<longleftrightarrow> t \<le> (u :: byte list)" "p @ t < p @ u \<longleftrightarrow> t < u"
  by (induction p) simp_all

lemma singleton_order: "[b] \<le> t \<longleftrightarrow> (\<exists>c r. t = c # r \<and> b \<le> c)" "t < [b] \<longleftrightarrow> (\<forall>c r. t = c # r \<longrightarrow> c < b)" for b :: byte
  by (cases t; auto)+

lemma byte_bounds:
  fixes a b :: byte
  shows "0xFF \<le> b \<longleftrightarrow> b = 0xFF" "b \<noteq> 0xFF \<Longrightarrow> a < b + 1 \<longleftrightarrow> a \<le> b"
proof -
  have top: "uint b \<le> 255" "b = 0xFF \<longleftrightarrow> uint b = 255"
    using uint_lt2p [of b] by (auto simp: word_uint_eq_iff)
  then show "0xFF \<le> b \<longleftrightarrow> b = 0xFF" by (auto simp: word_le_def)
  show "a < b + 1 \<longleftrightarrow> a \<le> b" if "b \<noteq> 0xFF"
    using that top by (auto simp: word_le_def word_less_def uint_word_ariths)
qed

lemma prefix_range:
  "prefix p k \<longleftrightarrow> p \<le> k \<and> (case prefix_successor p of None \<Rightarrow> True | Some q \<Rightarrow> k < q)" for k :: "byte list"
proof (induction p rule: rev_induct)
  case Nil
  then show ?case by (simp add: prefix_successor_simps)
next
  case (snoc b p)
  have below: "p \<le> k" if "p @ [b] \<le> k"
    using that prefix_le [of p "p @ [b]"] by auto
  show ?case
  proof (cases "b = 0xFF")
    case True
    have "prefix (p @ [b]) k \<longleftrightarrow> p @ [b] \<le> k \<and> prefix p k"
      using True byte_bounds(1) by (auto simp: prefix_def append_cancel singleton_order)
    with snoc below True show ?thesis by (auto simp: prefix_successor_simps)
  next
    case False
    have inner: "prefix [b] t \<longleftrightarrow> [b] \<le> t \<and> t < [b + 1]" for t
    proof (cases t)
      case (Cons c r)
      have "t < [b + 1] \<longleftrightarrow> c \<le> b" using Cons byte_bounds(2) [OF False, of c] by simp
      moreover have "[b] \<le> t \<longleftrightarrow> b \<le> c" using Cons le_less [of b c] by simp
      ultimately show ?thesis using Cons by auto
    qed simp
    have outer: "prefix p k" if "p @ [b] \<le> k" "k < p @ [b + 1]"
      using that prefix_before [of p k "p @ [b + 1]"] below by (meson order.asym prefixI)
    have "prefix (p @ [b]) k \<longleftrightarrow> (\<exists>t. k = p @ t \<and> prefix [b] t)"
      by (auto simp: prefix_def)
    also have "\<dots> \<longleftrightarrow> p @ [b] \<le> k \<and> k < p @ [b + 1]"
      unfolding inner using outer by (metis append_cancel prefixE)
    finally show ?thesis using False by (simp add: prefix_successor_simps)
  qed
qed


lemma takeWhile_below: "sorted_wrt (<) ks \<Longrightarrow> takeWhile (\<lambda>k. k < h) ks = filter (\<lambda>k. k < h) ks" for h :: "'k :: linorder"
proof (induction ks)
  case (Cons k ks)
  have "filter (\<lambda>i. i < h) ks = []" if "\<not> k < h"
    using Cons.prems that by (auto simp: filter_empty_conv)
  with Cons show ?case by simp
qed simp

lemma dropWhile_below: "sorted_wrt (<) ks \<Longrightarrow> dropWhile (\<lambda>k. k < h) ks = filter (\<lambda>k. h \<le> k) ks" for h :: "'k :: linorder"
proof (induction ks)
  case (Cons k ks)
  have "filter (\<lambda>i. h \<le> i) ks = ks" if "h \<le> k"
    using Cons.prems that by (auto simp: filter_id_conv)
  with Cons show ?case by (auto simp: not_less)
qed simp

text \<open>The difference of two ranks is the number of keys between them.\<close>

definition in_range :: "byte list \<Rightarrow> byte list option \<Rightarrow> byte list \<Rightarrow> bool" where
  "in_range lo hi k \<longleftrightarrow> lo \<le> k \<and> (case hi of None \<Rightarrow> True | Some h \<Rightarrow> k < h)"

lemma length_between:
  "lo \<le> h \<Longrightarrow> length (filter (\<lambda>k. k < h) ks) = length (filter (\<lambda>k. k < lo) ks) + length (filter (\<lambda>k. lo \<le> k \<and> k < h) ks)"
  for lo h :: "'k :: linorder"
  by (induction ks) (auto simp: not_less)

lemma length_above: "length ks = length (filter (\<lambda>k. k < lo) ks) + length (filter (\<lambda>k. lo \<le> k) ks)" for lo :: "'k :: linorder"
  using sum_length_filter_compl [of "\<lambda>k. k < lo" ks] by (simp add: not_less)

lemma saturating_sub_nat: "a + b < 2 ^ 64 \<Longrightarrow> saturating_sub (of_nat (a + b)) (of_nat a) = of_nat b"
proof -
  assume "a + b < 2 ^ 64"
  then have "(of_nat a :: u64) \<le> of_nat (a + b)" by (simp add: word_le_nat_alt unat_of_nat del: of_nat_add)
  then show ?thesis by (simp add: saturating_sub_def)
qed

lemma count_below_ok:
  assumes "sound st"
  shows "ro_count_below st d t k = Inr (of_nat (length (filter (\<lambda>i. i < k) (map fst (st_entries st d t)))))"
proof -
  define ks where "ks = map fst (st_entries st d t)"
  have below: "filter (\<lambda>i. i < k) ks = takeWhile (\<lambda>i. i < k) ks"
    using takeWhile_below [OF tabs_sorted [OF assms, of d t]] by (simp add: ks_def)
  show ?thesis
  proof (cases "dropWhile (\<lambda>i. i < k) ks")
    case Nil
    then have "takeWhile (\<lambda>i. i < k) ks = ks" by (simp add: dropWhile_eq_Nil_conv takeWhile_eq_all_conv)
    moreover have "keys_from k (st_entries st d t) = []" using Nil by (simp only: keys_from_def ks_def)
    moreover have "length (st_entries st d t) = length ks" by (simp add: ks_def)
    ultimately show ?thesis
      using below by (simp add: ro_count_below_def reads_ok [OF assms] ro_count_all_def flip: ks_def)
  next
    case (Cons f r)
    let ?tw = "takeWhile (\<lambda>i. i < k) ks"
    have ks: "ks = ?tw @ f # r" using Cons takeWhile_dropWhile_id [of "\<lambda>i. i < k" ks] by simp
    have "\<not> f < k" using Cons by (metis dropWhile_eq_Cons_conv)
    then have "\<forall>j \<in> set ?tw. j \<noteq> f" using set_takeWhileD [of _ "\<lambda>i. i < k" ks] by blast
    then have "takeWhile (\<lambda>j. j \<noteq> f) (?tw @ f # r) = ?tw" by simp
    then have "takeWhile (\<lambda>j. j \<noteq> f) ks = ?tw" using ks by simp
    moreover have "f \<in> set ks" by (subst ks) simp
    then have "f \<in> fst ` set (st_entries st d t)" by (simp add: ks_def)
    ultimately show ?thesis
      using Cons below by (simp add: ro_count_below_def ro_key_rank_def reads_ok [OF assms] keys_from_def flip: ks_def)
  qed
qed

lemma rank_difference:
  assumes "sound st" "length (st_entries st d t) < 2 ^ 64" "case hi of None \<Rightarrow> True | Some h \<Rightarrow> lo \<le> h"
  shows "rbind (ro_count_below st d t lo) (\<lambda>start.
      rbind (case hi of Some h \<Rightarrow> ro_count_below st d t h | None \<Rightarrow> ro_count_all st d t) (\<lambda>end'.
      Inr (saturating_sub end' start))) = Inr (of_nat (length (filter (in_range lo hi) (map fst (st_entries st d t)))))"
proof -
  define ks where "ks = map fst (st_entries st d t)"
  have below: "ro_count_below st d t k = Inr (of_nat (length (filter (\<lambda>i. i < k) ks)))" for k
    using count_below_ok [OF assms(1)] by (simp add: ks_def)
  have all: "length ks < 2 ^ 64" using assms(2) by (simp add: ks_def)
  have small: "length (filter P ks) < 2 ^ 64" for P
    using all length_filter_le [of P ks] by linarith
  show ?thesis
  proof (cases hi)
    case None
    then have "in_range lo hi = (\<lambda>k. lo \<le> k)" by (simp add: in_range_def fun_eq_iff)
    moreover have "length (st_entries st d t) = length ks" by (simp add: ks_def)
    ultimately show ?thesis
      using None length_above [of ks lo] saturating_sub_nat small all
      by (simp add: below ro_count_all_def reads_ok [OF assms(1)] flip: ks_def)
  next
    case (Some h)
    then have "in_range lo hi = (\<lambda>k. lo \<le> k \<and> k < h)" by (simp add: in_range_def fun_eq_iff)
    moreover have "saturating_sub (of_nat (length (filter (\<lambda>k. k < h) ks))) (of_nat (length (filter (\<lambda>k. k < lo) ks))) =
        of_nat (length (filter (\<lambda>k. lo \<le> k \<and> k < h) ks))"
      using length_between [of lo h ks] small [of "\<lambda>k. k < h"] assms(3) Some saturating_sub_nat by simp
    ultimately show ?thesis using Some by (simp add: below flip: ks_def)
  qed
qed

lemma count_prefix_ok:
  assumes "sound st" "length (st_entries st d t) < 2 ^ 64"
  shows "count_prefix st d t p = Inr (of_nat (length (filter (prefix p) (map fst (st_entries st d t)))))"
proof -
  have "in_range p (prefix_successor p) = prefix p"
    by (simp add: in_range_def prefix_range fun_eq_iff)
  moreover have "case prefix_successor p of None \<Rightarrow> True | Some h \<Rightarrow> p \<le> h"
    using prefix_range [of p p] by (auto split: option.splits)
  ultimately show ?thesis
    using rank_difference [OF assms, where hi = "prefix_successor p" and lo = p] by (simp add: count_prefix_def)
qed


lemma index_lengths:
  assumes "sound st" "represents st R s A"
  shows "length (st_entries st (sr_db s) Eav) = card A" "length (st_entries st (sr_db s) Ave) = card A"
    "length (st_entries st (sr_db s) Vae) \<le> card A"
proof -
  note idx = representsD(5) [OF assms(2), unfolded index_ok_def]
  have len: "length (st_entries st d t) = card (dom (tabs st d t))" "finite (dom (tabs st d t))" for d t
    using tabs_sorted [OF assms(1), of d t] prefix_keys_ok(2) [OF assms(1), of d t]
    by (metis distinct_card length_map strict_sorted_iff) (simp add: tabs_def finite_dom_map_of)
  show eav: "length (st_entries st (sr_db s) Eav) = card A"
    using len(1) idx card_image [OF index_keys(1) [OF assms]] by simp
  show "length (st_entries st (sr_db s) Ave) = card A"
    using len(1) idx card_image [OF index_keys(2) [OF assms]] by simp
  have "finite A" using len(2) [of "sr_db s" Eav] idx finite_imageD [OF _ index_keys(1) [OF assms]] by simp
  moreover have "length (st_entries st (sr_db s) Vae) = card (refs A)"
    using len(1) idx card_image [OF index_keys(3) [OF assms]] by simp
  ultimately show "length (st_entries st (sr_db s) Vae) \<le> card A"
    using card_mono [of A "refs A"] by (auto simp: refs_def)
qed

lemma retain_none: "retain_value None ds = ds"
  by (simp add: retain_value_def)

lemma count_prefix_represents:
  assumes "sound st" "represents st R s A" "card A < 2 ^ 64" "t \<in> {Eav, Ave, Vae}"
  shows "count_prefix st (sr_db s) t p = Inr (of_nat (length (filter (prefix p) (map fst (st_entries st (sr_db s) t)))))"
  using count_prefix_ok [OF assms(1)] index_lengths [OF assms(1,2)] assms(3,4) by auto

lemma count_attribute:
  assumes "sound st" "represents st R s A" "case v of None \<Rightarrow> True | Some u \<Rightarrow> value_ok R u" "card A < 2 ^ 64"
  shows "\<exists>ds. search st s e (Some n) v = Inr ds \<and> count_datoms st s e (Some n) v = Inr (of_nat (length ds))"
proof (cases "map_of (sr_attrs s) n")
  case None
  then show ?thesis by (simp add: search_def count_datoms_def reads_ok [OF assms(1)] lookup_aid_def)
next
  case (Some k)
  obtain c where
    "search st s e (Some n) v =
       (case e of Some i \<Rightarrow> scan_eav st s (be_u64 i @ be_u32 (fst k) @ c) | None \<Rightarrow> scan_ave st s (be_u32 (fst k) @ c))"
    "count_datoms st s e (Some n) v =
       (case e of Some i \<Rightarrow> count_prefix st (sr_db s) Eav (be_u64 i @ be_u32 (fst k) @ c)
                | None \<Rightarrow> count_prefix st (sr_db s) Ave (be_u32 (fst k) @ c))"
    using attribute_run [OF assms(1-3), where a = n and aid = "fst k" and p = "snd k"] Some by (metis prod.collapse)
  with scans_ok(1,2) [OF assms(1,2)] show ?thesis
    by (cases e) (fastforce simp: count_prefix_represents [OF assms(1,2,4)])+
qed

lemma count_no_attribute:
  assumes "sound st" "represents st R s A" "case v of None \<Rightarrow> True | Some u \<Rightarrow> value_ok R u" "card A < 2 ^ 64"
  shows "\<exists>ds. search st s e None v = Inr ds \<and> count_datoms st s e None v = Inr (of_nat (length ds))"
proof -
  note search = no_attribute_run [OF assms(1-3)] and count = count_prefix_represents [OF assms(1,2,4)]
  consider (entity) i where "e = Some i" "v = None" | (target) t where "e = None" "v = Some (SV_Ref t)"
    | (all) "e = None" "v = None" | (other) "count_datoms st s e None v = rbind (search st s e None v) (\<lambda>ds. Inr (of_nat (length ds)))"
    by (cases e; cases v; cases "the v") (auto simp: count_datoms_def reads_ok [OF assms(1)] split: store_value.splits)
  then show ?thesis
  proof cases
    case entity
    with search scans_ok(1) [OF assms(1,2), of "be_u64 i"] show ?thesis
      by (auto simp: count_datoms_def reads_ok [OF assms(1)] count retain_none)
  next
    case target
    with search scans_ok(3) [OF assms(1,2), of t] show ?thesis
      by (auto simp: count_datoms_def reads_ok [OF assms(1)] count)
  next
    case all
    with search scans_ok(1) [OF assms(1,2), of "[]"] show ?thesis
      by (auto simp: count_datoms_def reads_ok [OF assms(1)] ro_count_all_def retain_none)
  next
    case other
    with search_no_attribute [OF assms(1-3), of e] show ?thesis by auto
  qed
qed

text \<open>
  C15. Counting agrees with searching: for every pattern the count, computed from ranks without a
  scan, is the number of datoms that the search for the same pattern returns.
\<close>

theorem counts_agree:
  assumes "sound st" "represents st R s A" "case v of None \<Rightarrow> True | Some u \<Rightarrow> value_ok R u"
    "card A < 2 ^ 64"
  shows "\<exists>ds. search st s e a v = Inr ds \<and> count_datoms st s e a v = Inr (of_nat (length ds))"
  using count_attribute [OF assms] count_no_attribute [OF assms] by (cases a) blast+

theorem search_exact_witness:
  "\<exists>s ds. transact memory_db sample_ops empty_store = (Inr (), s) \<and>
     search memory_db s (Some 1) (Some (lit ''x'')) (Some (SV_Long 6)) = Inr ds \<and> found ds {(1, lit ''x'', SV_Long 6)}"
proof -
  obtain s where s: "transact memory_db sample_ops empty_store = (Inr (), s)"
    "represents memory_db {} s {(1, lit ''x'', SV_Long 6), (2, lit ''x'', SV_Ref 1)}" by (rule sample_store)
  have "value_ok {} (SV_Long 6)" by (simp add: value_ok_def is_giant_def giant_threshold_def)
  with search_exact [OF memory_db_sound s(2), of "Some (SV_Long 6)" "Some 1" "Some (lit ''x'')"]
  obtain ds where ds: "search memory_db s (Some 1) (Some (lit ''x'')) (Some (SV_Long 6)) = Inr ds"
    "found ds {y \<in> {(1, lit ''x'', SV_Long 6), (2, lit ''x'', SV_Ref 1)}. matches (Some 1) (Some (lit ''x'')) (Some (SV_Long 6)) y}"
    by auto
  have "{y \<in> {(1, lit ''x'', SV_Long 6), (2, lit ''x'', SV_Ref 1)}.
      matches (Some 1) (Some (lit ''x'')) (Some (SV_Long 6)) y} = {(1, lit ''x'', SV_Long 6)}" by auto
  with ds(2) have "found ds {(1, lit ''x'', SV_Long 6)}" by (simp only:)
  with s(1) ds(1) show ?thesis by blast
qed

theorem counts_agree_witness:
  "\<exists>s ds. transact memory_db sample_ops empty_store = (Inr (), s) \<and>
     search memory_db s None None (Some (SV_Ref 1)) = Inr ds \<and>
     count_datoms memory_db s None None (Some (SV_Ref 1)) = Inr (of_nat (length ds))"
proof -
  obtain s where s: "transact memory_db sample_ops empty_store = (Inr (), s)"
    "represents memory_db {} s {(1, lit ''x'', SV_Long 6), (2, lit ''x'', SV_Ref 1)}" by (rule sample_store)
  have "value_ok {} (SV_Ref 1)" by (simp add: value_ok_def is_giant_def giant_threshold_def)
  with counts_agree [OF memory_db_sound s(2), of "Some (SV_Ref 1)" None None] s(1) show ?thesis by auto
qed

section \<open>Ranges\<close>

lemma collect_map: "(\<And>k. k \<in> set ks \<Longrightarrow> f k = Inr (g k)) \<Longrightarrow> collect f ks = Inr (map g ks)"
  by (induction ks) auto

lemma decode_entry_ok:
  assumes "sound st" "represents st R s A" "k \<in> set (map fst (st_entries st (sr_db s) (index_dbi i)))"
  shows "\<exists>d. decode_index_entry st s i k = Inr d"
proof -
  note idx = representsD(5) [OF assms(2), unfolded index_ok_def]
  have k: "k \<in> dom (tabs st (sr_db s) (index_dbi i))" using assms(3) prefix_keys_ok(2) [OF assms(1)] by simp
  show ?thesis
  proof (cases i)
    case Index_Vae
    with k idx obtain x where x: "x \<in> A" "is_ref (snd (snd x))" "k = vae_of (lookup_aid s) x" by (auto simp: refs_def)
    then have "key_part 0 8 m k = Inr (be_u64 (ref_target (snd (snd x))))" for m
      by (cases x; cases "snd (snd x)") (auto simp: vae_key_def key_part_def)
    with Index_Vae x decode_keys(3) [OF assms(1,2) x(1,2)] show ?thesis by simp
  qed (use k idx decode_keys(1,2) [OF assms(1,2)] in auto)
qed

lemma in_range_simps: "in_range lo None = (\<lambda>k. lo \<le> k)" "in_range lo (Some h) = (\<lambda>k. lo \<le> k \<and> k < h)"
  by (auto simp: in_range_def fun_eq_iff)

lemma range_keys_ok:
  assumes "sound st"
  shows "range_keys (st_entries st d t) lo hi = filter (in_range lo hi) (map fst (st_entries st d t))"
    "range_keys_down (st_entries st d t) lo hi = rev (filter (in_range lo hi) (map fst (st_entries st d t)))"
proof -
  define ks where "ks = map fst (st_entries st d t)"
  have ks: "sorted_wrt (<) ks" using tabs_sorted [OF assms] by (simp add: ks_def)
  have above: "sorted_wrt (<) (filter (\<lambda>k. lo \<le> k) ks)" using ks by (rule sorted_wrt_filter)
  show "range_keys (st_entries st d t) lo hi = filter (in_range lo hi) (map fst (st_entries st d t))"
    using takeWhile_below [OF above] dropWhile_below [OF ks, of lo]
    by (simp add: range_keys_def keys_from_def in_range_simps flip: ks_def split: option.splits)
  have down: "takeWhile (\<lambda>k. lo \<le> k) (rev xs) = rev (filter (\<lambda>k. lo \<le> k) xs)" if "sorted_wrt (<) xs" for xs
    using that
  proof (induction xs rule: rev_induct)
    case (snoc x xs)
    then have "filter (\<lambda>k. lo \<le> k) xs = []" if "\<not> lo \<le> x"
      using that by (fastforce simp: filter_empty_conv sorted_wrt_append)
    with snoc show ?case by (simp add: sorted_wrt_append)
  qed simp
  show "range_keys_down (st_entries st d t) lo hi = rev (filter (in_range lo hi) (map fst (st_entries st d t)))"
  proof (cases hi)
    case None
    with down [OF ks] show ?thesis by (simp add: range_keys_down_def in_range_simps flip: ks_def)
  next
    case (Some h)
    with takeWhile_below [OF ks, of h] down [OF sorted_wrt_filter [OF ks], of "\<lambda>k. k < h"] show ?thesis
      by (simp add: range_keys_down_def keys_below_def in_range_simps conj_commute flip: ks_def)
  qed
qed

lemma resolved_order: "resolve_range st s i low high = Inr (Some (lo, Some h)) \<Longrightarrow> lo \<le> h"
  by (auto simp: resolve_range_def rbind_def Let_def split: sum.splits option.splits if_splits)

text \<open>
  C19. The slices and counts of a range agree: walking down returns what walking up returns in
  reverse, a limit cuts the walk off, and the count computed from ranks is the number of datoms.
\<close>

theorem slice_count_agree:
  assumes "sound st" "represents st R s A" "card A < 2 ^ 64" "resolve_range st s i low high = Inr r"
  shows "\<exists>ds. (\<forall>reverse limit. slice st s i low high limit reverse =
      Inr ((case limit of None \<Rightarrow> \<lambda>x. x | Some n \<Rightarrow> take n) (if reverse then rev ds else ds))) \<and>
    count_range st s i low high = Inr (of_nat (length ds))"
proof (cases r)
  case None
  with assms(4) show ?thesis
    by (intro exI [of _ "[]"]) (simp add: slice_def count_range_def reads_ok [OF assms(1)] split: option.splits)
next
  case (Some lh)
  obtain lo hi where lh: "lh = (lo, hi)" by (cases lh)
  let ?ks = "filter (in_range lo hi) (map fst (st_entries st (sr_db s) (index_dbi i)))"
  define g where "g k = projr (decode_index_entry st s i k)" for k
  have g: "decode_index_entry st s i k = Inr (g k)" if "k \<in> set (map fst (st_entries st (sr_db s) (index_dbi i)))" for k
    using decode_entry_ok [OF assms(1,2) that] by (auto simp: g_def)
  have run: "collect (decode_index_entry st s i) ks = Inr (map g ks)" if "set ks \<subseteq> set ?ks" for ks
    using that g by (intro collect_map) auto
  have "slice st s i low high limit reverse =
      Inr ((case limit of None \<Rightarrow> \<lambda>x. x | Some n \<Rightarrow> take n) (if reverse then rev (map g ?ks) else map g ?ks))" for reverse limit
  proof -
    let ?cut = "case limit of None \<Rightarrow> \<lambda>x. x | Some n \<Rightarrow> take n"
    have part: "set (?cut ks) \<subseteq> set ks" for ks by (auto split: option.splits dest: in_set_takeD)
    have "slice st s i low high limit reverse = collect (decode_index_entry st s i) (?cut (if reverse then rev ?ks else ?ks))"
      using assms(4) Some lh
      by (auto simp: slice_def reads_ok [OF assms(1)] range_keys_ok [OF assms(1)] Let_def split: option.splits)
    also have "\<dots> = Inr (map g (?cut (if reverse then rev ?ks else ?ks)))"
      using part [of ?ks] part [of "rev ?ks"] by (intro run) simp
    finally show ?thesis by (auto simp: rev_map take_map split: option.splits)
  qed
  moreover have "count_range st s i low high = Inr (of_nat (length (map g ?ks)))"
  proof -
    have "ro_count_below st (sr_db s) (index_dbi i) [] = Inr 0"
      by (simp add: count_below_ok [OF assms(1)])
    moreover have "length (st_entries st (sr_db s) (index_dbi i)) < 2 ^ 64"
      using index_lengths [OF assms(1,2)] assms(3) by (cases i) auto
    moreover have "case hi of None \<Rightarrow> True | Some h \<Rightarrow> lo \<le> h"
      using assms(4) Some lh resolved_order by (auto split: option.splits)
    ultimately show ?thesis
      using rank_difference [OF assms(1), of "sr_db s" "index_dbi i" lo hi] assms(4) Some lh
      by (auto simp: count_range_def reads_ok [OF assms(1)])
  qed
  ultimately show ?thesis by blast
qed

theorem slice_count_agree_witness:
  "\<exists>s ds. transact memory_db sample_ops empty_store = (Inr (), s) \<and>
     slice memory_db s Index_Eav \<lparr>b_e = Some 1, b_a = None, b_v = None, b_closed = False\<rparr>
       \<lparr>b_e = None, b_a = None, b_v = None, b_closed = True\<rparr> None True = Inr (rev ds) \<and>
     count_range memory_db s Index_Eav \<lparr>b_e = Some 1, b_a = None, b_v = None, b_closed = False\<rparr>
       \<lparr>b_e = None, b_a = None, b_v = None, b_closed = True\<rparr> = Inr (of_nat (length ds))"
proof -
  obtain s where s: "transact memory_db sample_ops empty_store = (Inr (), s)"
    "represents memory_db {} s {(1, lit ''x'', SV_Long 6), (2, lit ''x'', SV_Ref 1)}" by (rule sample_store)
  let ?low = "\<lparr>b_e = Some 1, b_a = None, b_v = None, b_closed = False\<rparr>" and
    ?high = "\<lparr>b_e = None, b_a = None, b_v = None, b_closed = True\<rparr>"
  have "\<exists>r. resolve_range memory_db s Index_Eav ?low ?high = Inr r"
    by (simp add: resolve_range_def Let_def high_key_def split: option.split)
  then obtain r where "resolve_range memory_db s Index_Eav ?low ?high = Inr r" by blast
  from slice_count_agree [OF memory_db_sound s(2) _ this] s(1) show ?thesis by fastforce
qed

section \<open>An aborted transaction\<close>

lemma intern_attr_fresh:
  assumes "sound st" "meta_ok (tabs st (sr_db s))" "map_of (sr_attrs s) n = None" "key_fits (utf8_bytes n)"
  shows "\<exists>d. intern_attr st n p s =
    (let aid = ucast (counter (tabs st (sr_db s)) meta_next_aid + 1); q = (case p of None \<Rightarrow> default_props | Some p \<Rightarrow> p)
     in (Inr (aid, q), s\<lparr>sr_db := d, sr_attrs := AList.update n (aid, q) (sr_attrs s), sr_names := AList.update aid n (sr_names s)\<rparr>))"
  using bump_ok [OF assms(1,2), of meta_next_aid] assms(3,4)
  by (auto simp: intern_attr_def tbind_def record_attr_def tput_ok [OF assms(1)] Let_def)

text \<open>
  C27. A transaction that fails after it interned an attribute leaves the attribute's id in the
  caches although its database is rolled back: the next attribute is given the same id, and from
  then on a search for one name is a search for the other.
\<close>

theorem aborted_intern_shares_id:
  assumes "sound st" "represents st R s A" "aids st s + 1 < 2 ^ 32" "is_giant v" "giant_raw v = None"
    "map_of (sr_attrs s) a = None" "list_all is_scalar a" "key_fits (utf8_bytes a)"
    "map_of (sr_attrs s) b = None" "key_fits (utf8_bytes b)" "a \<noteq> b"
  shows "\<exists>s1 s2. transact st [Add e a v] s = (Inl (SE_Codec ''only strings and bytes can be giant''), s1) \<and>
    sr_db s1 = sr_db s \<and> set_attr st b p s1 = (Inr (), s2) \<and>
    lookup_aid s2 a \<noteq> None \<and> lookup_aid s2 a = lookup_aid s2 b \<and>
    (\<forall>e' w. search st s2 e' (Some a) w = search st s2 e' (Some b) w)"
proof -
  let ?aid = "ucast (counter (tabs st (sr_db s)) meta_next_aid + 1) :: u32"
  have meta: "meta_ok (tabs st (sr_db s))" by (rule representsD(2) [OF assms(2)])
  from intern_attr_fresh [OF assms(1) meta assms(6,8), of None] obtain d where
    i: "intern_attr st a None s = (Inr (?aid, default_props), s\<lparr>sr_db := d,
      sr_attrs := AList.update a (?aid, default_props) (sr_attrs s), sr_names := AList.update ?aid a (sr_names s)\<rparr>)"
    (is "_ = (_, ?s0)") by (auto simp: Let_def)
  with intern_attr_ok [OF assms(1,2,7,8,3)] have s0: "represents st R ?s0 A" "map_of (sr_attrs ?s0) a = Some (?aid, default_props)"
    by (auto simp: update_conv')
  from replace_old_ok [OF assms(1) s0, of e] obtain d' where
    r: "tbind (tread (entity_attr_values st e ?aid)) (delete_all st e ?aid) ?s0 = (Inr (), ?s0\<lparr>sr_db := d'\<rparr>)" by blast
  define s1 where "s1 = ?s0\<lparr>sr_db := sr_db s\<rparr>"
  have fail: "transact st [Add e a v] s = (Inl (SE_Codec ''only strings and bytes can be giant''), s1)"
    using assms(4,5) i r
    by (simp add: transact_def in_write_txn_def begin_ok [OF assms(1)] tbind_def tread_def reads_ok [OF assms(1)]
        apply_op_def default_props_def encode_value_for_key_def Let_def is_giant_def encoded_def tfail_def s1_def)
  have same: "sr_db s1 = sr_db s" by (simp add: s1_def)
  from intern_attr_fresh [OF assms(1), of s1 b "Some p"] meta assms(9-11) obtain d2 where
    "intern_attr st b (Some p) s1 = (Inr (?aid, p), s1\<lparr>sr_db := d2, sr_attrs := AList.update b (?aid, p) (sr_attrs s1),
      sr_names := AList.update ?aid b (sr_names s1)\<rparr>)"
    (is "_ = (_, ?s2)") by (auto simp: same Let_def s1_def update_conv')
  then have "tbind (intern_attr st b (Some p)) (\<lambda>_. tret ()) s1 = (Inr (), ?s2)" by (simp add: tbind_def)
  from in_write_txn_ok [OF assms(1), of "tbind (intern_attr st b (Some p)) (\<lambda>_. tret ())", OF this] obtain d3 where d3: "set_attr st b p s1 = (Inr (), ?s2\<lparr>sr_db := d3\<rparr>)"
    unfolding set_attr_def by blast
  have "lookup_aid (?s2\<lparr>sr_db := d3\<rparr>) a = Some ?aid" "lookup_aid (?s2\<lparr>sr_db := d3\<rparr>) b = Some ?aid"
    using assms(11) by (simp_all add: lookup_aid_def update_conv' s1_def)
  with fail same d3 show ?thesis
    by (intro exI [of _ s1] exI [of _ "?s2\<lparr>sr_db := d3\<rparr>"]) (simp add: search_def)
qed

theorem aborted_intern_shares_id_witness:
  "\<exists>s1 s2. transact memory_db [Add 1 (lit ''a'') (SV_Vec (replicate 50 (SV_Long 0)))] empty_store =
      (Inl (SE_Codec ''only strings and bytes can be giant''), s1) \<and>
    sr_db s1 = sr_db empty_store \<and> set_attr memory_db (lit ''b'') default_props s1 = (Inr (), s2) \<and>
    lookup_aid s2 (lit ''a'') \<noteq> None \<and> lookup_aid s2 (lit ''a'') = lookup_aid s2 (lit ''b'') \<and>
    (\<forall>e' w. search memory_db s2 e' (Some (lit ''a'')) w = search memory_db s2 e' (Some (lit ''b'')) w)"
proof -
  let ?v = "SV_Vec (replicate 50 (SV_Long 0))"
  have "length (fold encode_inline (replicate n (SV_Long 0)) out) = length out + 9 * n" for n out
    by (induction n arbitrary: out) (simp_all add: order_i64_def)
  then have giant: "is_giant ?v" by (simp add: is_giant_def encoded_def giant_threshold_def)
  show ?thesis
    by (rule aborted_intern_shares_id [OF memory_db_sound empty_represents [of "{}"] _ giant])
      (simp_all add: giant_raw_def empty_store_def empty_tabs counter_def counter_or_zero_def is_scalar_def key_fits_def
        utf8_bytes_def utf8_units_def)
qed

end
