(* ===== verification/Framing.thy ===== *)
theory Framing
  imports Datom_Codec
begin

text \<open>
  The framers of \<^verbatim>\<open>crates/cljrs-net/src/frame.rs\<close>, which cut the byte chunks of a connection into
  messages: lines, delimited frames and length-prefixed frames, the encoders of the write side and
  the task that pumps an input channel through a framer.  Of the runtime's values only those that
  occur here are kept.  \<open>usize\<close> has 64 bits.
\<close>

unbundle bit_operations_syntax

section \<open>Values\<close>

datatype frame_value =
    FV_Nil
  | FV_Long i64
  | FV_Keyword str
  | FV_Str str
  | FV_Bytes "byte list"
  | FV_Error str
  | FV_Other str

definition fv_type_name :: "frame_value \<Rightarrow> str" where
  "fv_type_name v =
     (case v of
        FV_Nil \<Rightarrow> lit ''nil'' | FV_Long _ \<Rightarrow> lit ''long'' | FV_Keyword _ \<Rightarrow> lit ''keyword'' | FV_Str _ \<Rightarrow> lit ''string''
      | FV_Bytes _ \<Rightarrow> lit ''byte-array'' | FV_Error _ \<Rightarrow> lit ''error'' | FV_Other t \<Rightarrow> t)"

text \<open>
  \<open>String::from_utf8_lossy\<close>: a sequence that is not well-formed becomes one replacement character
  for its longest prefix that a well-formed sequence could start with.
\<close>

definition second_unit_ok :: "nat \<Rightarrow> nat \<Rightarrow> bool" where
  "second_unit_ok u v \<longleftrightarrow>
     (if u = 0xE0 then 0xA0 \<le> v \<and> v \<le> 0xBF
      else if u = 0xED then 0x80 \<le> v \<and> v \<le> 0x9F
      else if u = 0xF0 then 0x90 \<le> v \<and> v \<le> 0xBF
      else if u = 0xF4 then 0x80 \<le> v \<and> v \<le> 0x8F
      else 0x80 \<le> v \<and> v \<le> 0xBF)"

fun invalid_length :: "nat list \<Rightarrow> nat" where
  "invalid_length (u # v # w # us) =
     (if 0xE0 \<le> u \<and> u \<le> 0xF4 \<and> second_unit_ok u v
      then if 0xF0 \<le> u \<and> 0x80 \<le> w \<and> w \<le> 0xBF then 3 else 2
      else 1)"
| "invalid_length [u, v] = (if 0xE0 \<le> u \<and> u \<le> 0xF4 \<and> second_unit_ok u v then 2 else 1)"
| "invalid_length us = 1"

lemma invalid_length_pos: "0 < invalid_length us"
  by (cases us rule: invalid_length.cases) auto

fun utf8_lossy :: "nat list \<Rightarrow> str" where
  "utf8_lossy [] = []"
| "utf8_lossy (u # us) =
     (case utf8_first (u # us) of
        Some c \<Rightarrow> c # utf8_lossy (drop (utf8_width u - 1) us)
      | None \<Rightarrow> 0xFFFD # utf8_lossy (drop (invalid_length (u # us) - 1) us))"

definition from_utf8_lossy :: "byte list \<Rightarrow> str" where
  "from_utf8_lossy bs = utf8_lossy (byte_text bs)"

section \<open>Framers that split at a byte\<close>

text \<open>\<open>iter().position(..)\<close>\<close>

fun position :: "('a \<Rightarrow> bool) \<Rightarrow> 'a list \<Rightarrow> nat option" where
  "position p [] = None"
| "position p (x # xs) = (if p x then Some 0 else map_option Suc (position p xs))"

lemma position_length: "position p xs = Some i \<Longrightarrow> i < length xs"
  by (induction xs arbitrary: i) (auto split: if_splits)

definition strip_cr :: "byte list \<Rightarrow> byte list" where
  "strip_cr line = (if line \<noteq> [] \<and> last line = 13 then butlast line else line)"

definition line_frame :: "byte list \<Rightarrow> frame_value" where
  "line_frame line = FV_Str (from_utf8_lossy (strip_cr line))"

text \<open>The loop of both \<open>feed\<close> methods: the frames before each delimiter, and the rest.\<close>

function (sequential) split_loop :: "byte \<Rightarrow> (byte list \<Rightarrow> frame_value) \<Rightarrow> byte list \<Rightarrow> frame_value list \<times> byte list" where
  "split_loop delim mk buf =
     (case position (\<lambda>b. b = delim) buf of
        None \<Rightarrow> ([], buf)
      | Some pos \<Rightarrow>
          (case split_loop delim mk (drop (pos + 1) buf) of
             (frames, rest) \<Rightarrow> (mk (take pos buf) # frames, rest)))"
  by pat_completeness auto
termination
  by (relation "measure (\<lambda>(delim, mk, buf). length buf)") (auto dest: position_length)

declare split_loop.simps [simp del]

definition lines_feed :: "byte list \<Rightarrow> byte list \<Rightarrow> frame_value list \<times> byte list" where
  "lines_feed buf bytes = split_loop 10 line_frame (buf @ bytes)"

definition lines_finish :: "byte list \<Rightarrow> frame_value option" where
  "lines_finish buf = (if buf = [] then None else Some (line_frame buf))"

definition delimiter_feed :: "byte \<Rightarrow> byte list \<Rightarrow> byte list \<Rightarrow> frame_value list \<times> byte list" where
  "delimiter_feed delim buf bytes = split_loop delim FV_Bytes (buf @ bytes)"

definition delimiter_finish :: "byte list \<Rightarrow> frame_value option" where
  "delimiter_finish buf = (if buf = [] then None else Some (FV_Bytes buf))"

section \<open>Length-prefixed frames\<close>

datatype lp_state = LP_Header | LP_Body nat | LP_Errored

record lp_framer =
  lp_prefix_len :: nat
  lp_big_endian :: bool
  lp_max_frame :: nat
  lp_buf :: "byte list"
  lp_at :: lp_state

definition lp_new :: "nat \<Rightarrow> bool \<Rightarrow> nat \<Rightarrow> lp_framer" where
  "lp_new prefix_len big_endian max_frame =
     \<lparr>lp_prefix_len = prefix_len, lp_big_endian = big_endian, lp_max_frame = max_frame, lp_buf = [], lp_at = LP_Header\<rparr>"

definition shift_in :: "u64 \<Rightarrow> byte \<Rightarrow> u64" where
  "shift_in n b = push_bit 8 n OR ucast b"

definition parse_length :: "bool \<Rightarrow> byte list \<Rightarrow> nat" where
  "parse_length big_endian header =
     unat (if big_endian then foldl shift_in 0 header else foldl shift_in 0 (rev header))"

definition oversized :: "nat \<Rightarrow> nat \<Rightarrow> frame_value" where
  "oversized body_len max_frame =
     FV_Error (lit ''length-prefixed frame of '' @ nat_text body_len @ lit '' bytes exceeds max-frame limit ('' @
       nat_text max_frame @ lit '' bytes)'')"

text \<open>The loop of \<open>feed\<close>; \<open>None\<close> is a loop that does not end.\<close>

partial_function (option) lp_loop :: "lp_framer \<Rightarrow> (frame_value list \<times> lp_framer) option" where
  "lp_loop f =
     (case lp_at f of
        LP_Header \<Rightarrow>
          if length (lp_buf f) < lp_prefix_len f then Some ([], f)
          else
            (let body_len = parse_length (lp_big_endian f) (take (lp_prefix_len f) (lp_buf f))
             in if lp_max_frame f < body_len
                then Some ([oversized body_len (lp_max_frame f)], f\<lparr>lp_buf := [], lp_at := LP_Errored\<rparr>)
                else lp_loop (f\<lparr>lp_buf := drop (lp_prefix_len f) (lp_buf f), lp_at := LP_Body body_len\<rparr>))
      | LP_Body body_len \<Rightarrow>
          if length (lp_buf f) < body_len then Some ([], f)
          else
            Option.bind (lp_loop (f\<lparr>lp_buf := drop body_len (lp_buf f), lp_at := LP_Header\<rparr>)) (\<lambda>(frames, g).
              Some (FV_Bytes (take body_len (lp_buf f)) # frames, g))
      | LP_Errored \<Rightarrow> Some ([], f))"

definition lp_feed :: "lp_framer \<Rightarrow> byte list \<Rightarrow> (frame_value list \<times> lp_framer) option" where
  "lp_feed f bytes = (if lp_at f = LP_Errored then Some ([], f) else lp_loop (f\<lparr>lp_buf := lp_buf f @ bytes\<rparr>))"

definition default_max_frame :: nat where "default_max_frame = 16 * 1024 * 1024"

text \<open>The options are a map value; it is given by its lookup function.\<close>

definition parse_prefix_opts :: "(str \<Rightarrow> frame_value option) \<Rightarrow> nat \<times> bool \<times> nat" where
  "parse_prefix_opts opts =
     ((case opts (lit ''bytes'') of Some (FV_Long n) \<Rightarrow> if 0 < sint n \<and> sint n \<le> 8 then nat (sint n) else 4 | _ \<Rightarrow> 4),
      (case opts (lit ''endian'') of Some v \<Rightarrow> v \<noteq> FV_Keyword (lit ''little'') | None \<Rightarrow> True),
      (case opts (lit ''max-frame'') of Some (FV_Long n) \<Rightarrow> if 0 < sint n then nat (sint n) else default_max_frame
                                      | _ \<Rightarrow> default_max_frame))"

section \<open>Encoders\<close>

definition encode_line :: "str \<Rightarrow> byte list" where
  "encode_line s = utf8_bytes s @ [10]"

definition length_header :: "nat \<Rightarrow> bool \<Rightarrow> u64 \<Rightarrow> byte list" where
  "length_header prefix_len big_endian len =
     map (\<lambda>i. ucast (drop_bit (i * 8) len AND 0xFF)) (if big_endian then rev [0 ..< prefix_len] else [0 ..< prefix_len])"

definition encode_length_prefixed :: "byte list \<Rightarrow> nat \<Rightarrow> bool \<Rightarrow> byte list" where
  "encode_length_prefixed data prefix_len big_endian =
     length_header prefix_len big_endian (of_nat (length data)) @ data"

section \<open>Framer specifications and the pipe\<close>

datatype framer_kind = FK_Lines | FK_Delimiter byte | FK_Length_Prefixed nat bool nat

record framer_spec =
  fs_kind :: framer_kind
  fs_out_buf :: nat

datatype frame_error = Wrong_Type str str

definition builtin_lines :: framer_spec where
  "builtin_lines = \<lparr>fs_kind = FK_Lines, fs_out_buf = 8\<rparr>"

definition builtin_by_delimiter :: "frame_value option \<Rightarrow> frame_error + framer_spec" where
  "builtin_by_delimiter arg =
     (case arg of
        Some (FV_Long n) \<Rightarrow>
          if 0 \<le> sint n \<and> sint n \<le> 255 then Inr \<lparr>fs_kind = FK_Delimiter (ucast n), fs_out_buf = 8\<rparr>
          else Inl (Wrong_Type (lit ''byte (long 0-255)'') (lit ''long''))
      | other \<Rightarrow> Inl (Wrong_Type (lit ''byte (long 0-255)'') (case other of Some v \<Rightarrow> fv_type_name v | None \<Rightarrow> [])))"

definition builtin_length_prefixed :: "(str \<Rightarrow> frame_value option) \<Rightarrow> framer_spec" where
  "builtin_length_prefixed opts =
     (case parse_prefix_opts opts of
        (prefix_len, big_endian, max_frame) \<Rightarrow>
          \<lparr>fs_kind = FK_Length_Prefixed prefix_len big_endian max_frame, fs_out_buf = 8\<rparr>)"

datatype framer = Lines_Framer "byte list" | Delimiter_Framer byte "byte list" | Length_Prefixed_Framer lp_framer

fun framer_new :: "framer_kind \<Rightarrow> framer" where
  "framer_new FK_Lines = Lines_Framer []"
| "framer_new (FK_Delimiter d) = Delimiter_Framer d []"
| "framer_new (FK_Length_Prefixed n big max_frame) = Length_Prefixed_Framer (lp_new n big max_frame)"

fun framer_feed :: "framer \<Rightarrow> byte list \<Rightarrow> (frame_value list \<times> framer) option" where
  "framer_feed (Lines_Framer buf) bytes = (case lines_feed buf bytes of (fs, b) \<Rightarrow> Some (fs, Lines_Framer b))"
| "framer_feed (Delimiter_Framer d buf) bytes = (case delimiter_feed d buf bytes of (fs, b) \<Rightarrow> Some (fs, Delimiter_Framer d b))"
| "framer_feed (Length_Prefixed_Framer f) bytes = map_option (\<lambda>(fs, g). (fs, Length_Prefixed_Framer g)) (lp_feed f bytes)"

fun framer_finish :: "framer \<Rightarrow> frame_value option" where
  "framer_finish (Lines_Framer buf) = lines_finish buf"
| "framer_finish (Delimiter_Framer d buf) = delimiter_finish buf"
| "framer_finish (Length_Prefixed_Framer f) = None"

text \<open>
  The task: what it takes from its input channel is a list, and \<open>accept n\<close> says whether the output
  channel takes the \<open>n\<close>th value put on it.  The result is the values it delivered and whether it
  closed the output channel; without another input value the task waits, and \<open>None\<close> is a framer
  that does not return.
\<close>

fun put_all :: "(nat \<Rightarrow> bool) \<Rightarrow> nat \<Rightarrow> frame_value list \<Rightarrow> frame_value list \<times> bool" where
  "put_all accept n [] = ([], True)"
| "put_all accept n (v # vs) =
     (if accept n then (case put_all accept (Suc n) vs of (out, ok) \<Rightarrow> (v # out, ok)) else ([], False))"

fun framer_task :: "(nat \<Rightarrow> bool) \<Rightarrow> nat \<Rightarrow> framer \<Rightarrow> frame_value list \<Rightarrow> (frame_value list \<times> bool) option" where
  "framer_task accept n fr [] = Some ([], False)"
| "framer_task accept n fr (v # vs) =
     (case v of
        FV_Nil \<Rightarrow> Some (fst (put_all accept n (case framer_finish fr of None \<Rightarrow> [] | Some x \<Rightarrow> [x])), True)
      | FV_Error _ \<Rightarrow> Some (fst (put_all accept n [v]), True)
      | FV_Bytes bytes \<Rightarrow>
          (case framer_feed fr bytes of
             None \<Rightarrow> None
           | Some (frames, fr') \<Rightarrow>
               (case put_all accept n frames of
                  (out, False) \<Rightarrow> Some (out, True)
                | (out, True) \<Rightarrow>
                    map_option (\<lambda>(rest, closed). (out @ rest, closed)) (framer_task accept (n + length out) fr' vs)))
      | other \<Rightarrow>
          Some (fst (put_all accept n [FV_Error (lit ''frame: unexpected value on :in (expected byte-array, got '' @
            fv_type_name other @ lit '')'')]), True))"

end
