(* ===== verification/Framing_Spec.thy ===== *)
theory Framing_Spec
  imports Framing Datom_Codec_Spec
begin

text \<open>
  What the framers promise: the frames do not depend on how the bytes are cut into chunks, the
  decoders read what the encoders write, a length-prefixed framer holds a bounded number of bytes,
  and the pipe delivers the frames of the whole stream.
\<close>

section \<open>The contract of a framer\<close>

text \<open>
  A framer takes a chunk and returns the frames it completes.  Its provider promises that feeding
  two chunks one after the other is feeding them together, from every state a framer can be left in.
\<close>

locale stream_framer =
  fixes feed :: "'s \<Rightarrow> byte list \<Rightarrow> ('f list \<times> 's) option" and settled :: "'s \<Rightarrow> bool"
  assumes feed_total: "settled s \<Longrightarrow> \<exists>fs t. feed s bytes = Some (fs, t) \<and> settled t"
    and feed_Nil: "settled s \<Longrightarrow> feed s [] = Some ([], s)"
    and feed_append: "settled s \<Longrightarrow> feed s a = Some (fs, t) \<Longrightarrow>
      feed s (a @ b) = map_option (\<lambda>(gs, u). (fs @ gs, u)) (feed t b)"

fun feeds :: "('s \<Rightarrow> byte list \<Rightarrow> ('f list \<times> 's) option) \<Rightarrow> 's \<Rightarrow> byte list list \<Rightarrow> ('f list \<times> 's) option" where
  "feeds feed s [] = Some ([], s)"
| "feeds feed s (c # cs) =
     Option.bind (feed s c) (\<lambda>(fs, t). map_option (\<lambda>(gs, u). (fs @ gs, u)) (feeds feed t cs))"

context stream_framer begin

lemma feeds_concat: "settled s \<Longrightarrow> feeds feed s chunks = feed s (concat chunks)"
proof (induction chunks arbitrary: s)
  case (Cons c cs)
  from feed_total [OF Cons.prems] obtain fs t where c: "feed s c = Some (fs, t)" "settled t" by blast
  with Cons feed_append [OF Cons.prems c(1), of "concat cs"] show ?case by simp
qed (simp add: feed_Nil)

lemma feeds_total:
  assumes "settled s"
  obtains fs t where "feeds feed s chunks = Some (fs, t)" "settled t"
  using feeds_concat [OF assms] feed_total [OF assms] by metis

end

section \<open>Splitting at a byte\<close>

lemma position_None: "position p xs = None \<longleftrightarrow> (\<forall>x \<in> set xs. \<not> p x)"
  by (induction xs) auto

lemma position_append: "position p (xs @ ys) =
    (case position p xs of Some i \<Rightarrow> Some i | None \<Rightarrow> map_option (\<lambda>i. i + length xs) (position p ys))"
  by (induction xs) (auto simp: option.map_comp option.map_ident comp_def split: option.splits)

lemma split_loop_append:
  "split_loop d mk (buf @ ext) =
     (case split_loop d mk buf of (fs, rest) \<Rightarrow> (case split_loop d mk (rest @ ext) of (gs, r) \<Rightarrow> (fs @ gs, r)))"
proof (induction d mk buf rule: split_loop.induct)
  case (1 d mk buf)
  show ?case
  proof (cases "position (\<lambda>b. b = d) buf")
    case None
    then show ?thesis by (simp add: split_loop.simps [of d mk buf] split: prod.split)
  next
    case (Some i)
    then have "i < length buf" by (rule position_length)
    with Some "1.IH" [OF Some] show ?thesis
      by (simp add: split_loop.simps [of d mk buf] split_loop.simps [of d mk "buf @ ext"] position_append split: prod.split)
  qed
qed

lemma split_loop_rest: "split_loop d mk buf = (fs, rest) \<Longrightarrow> d \<notin> set rest"
proof (induction d mk buf arbitrary: fs rest rule: split_loop.induct)
  case (1 d mk buf)
  then show ?case
    by (subst (asm) (2) split_loop.simps) (auto simp: position_None split: option.splits prod.splits)
qed

lemma split_loop_keep: "d \<notin> set buf \<Longrightarrow> split_loop d mk buf = ([], buf)"
  using position_None [of "\<lambda>b. b = d" buf] by (auto simp: split_loop.simps [of d mk buf])

lemma split_loop_frame: "d \<notin> set x \<Longrightarrow> split_loop d mk (x @ d # ys) =
    (case split_loop d mk ys of (fs, rest) \<Rightarrow> (mk x # fs, rest))"
proof -
  assume x: "d \<notin> set x"
  then have "position (\<lambda>b. b = d) x = None" by (auto simp: position_None)
  then show ?thesis by (subst split_loop.simps) (simp add: position_append)
qed

interpretation splitter: stream_framer "\<lambda>buf bytes. Some (split_loop d mk (buf @ bytes))" "\<lambda>buf. d \<notin> set buf" for d mk
proof unfold_locales
  fix buf :: "byte list" and bytes
  show "\<exists>fs t. Some (split_loop d mk (buf @ bytes)) = Some (fs, t) \<and> d \<notin> set t"
    using split_loop_rest [of d mk "buf @ bytes"] by (cases "split_loop d mk (buf @ bytes)") simp
next
  fix buf :: "byte list"
  assume "d \<notin> set buf"
  then show "Some (split_loop d mk (buf @ [])) = Some ([], buf)" by (simp add: split_loop_keep)
next
  fix buf a b :: "byte list" and fs t
  assume "Some (split_loop d mk (buf @ a)) = Some (fs, t)"
  then show "Some (split_loop d mk (buf @ a @ b)) = map_option (\<lambda>(gs, u). (fs @ gs, u)) (Some (split_loop d mk (t @ b)))"
    using split_loop_append [of d mk "buf @ a" b] by (simp split: prod.split)
qed


section \<open>Length-prefixed frames\<close>

text \<open>A framer between two chunks: what it holds is an incomplete header or body.\<close>

definition lp_settled :: "lp_framer \<Rightarrow> bool" where
  "lp_settled f \<longleftrightarrow> 0 < lp_prefix_len f \<and>
     (case lp_at f of
        LP_Header \<Rightarrow> length (lp_buf f) < lp_prefix_len f
      | LP_Body n \<Rightarrow> length (lp_buf f) < n \<and> n \<le> lp_max_frame f
      | LP_Errored \<Rightarrow> lp_buf f = [])"

text \<open>A framer inside the loop, and the measure that the loop decreases.\<close>

definition lp_running :: "lp_framer \<Rightarrow> bool" where
  "lp_running f \<longleftrightarrow> 0 < lp_prefix_len f \<and>
     (case lp_at f of LP_Header \<Rightarrow> True | LP_Body n \<Rightarrow> n \<le> lp_max_frame f | LP_Errored \<Rightarrow> lp_buf f = [])"

definition lp_left :: "lp_framer \<Rightarrow> nat" where
  "lp_left f = 2 * length (lp_buf f) + (case lp_at f of LP_Body n \<Rightarrow> 1 | _ \<Rightarrow> 0)"

lemma lp_induct [consumes 1, case_names settled oversized header body]:
  assumes "lp_running f"
    and settled: "\<And>f. lp_settled f \<Longrightarrow> P f"
    and oversized: "\<And>f. lp_running f \<Longrightarrow> lp_at f = LP_Header \<Longrightarrow> lp_prefix_len f \<le> length (lp_buf f) \<Longrightarrow>
      lp_max_frame f < parse_length (lp_big_endian f) (take (lp_prefix_len f) (lp_buf f)) \<Longrightarrow> P f"
    and header: "\<And>f n. lp_running f \<Longrightarrow> lp_at f = LP_Header \<Longrightarrow> lp_prefix_len f \<le> length (lp_buf f) \<Longrightarrow>
      n = parse_length (lp_big_endian f) (take (lp_prefix_len f) (lp_buf f)) \<Longrightarrow> n \<le> lp_max_frame f \<Longrightarrow>
      P (f\<lparr>lp_buf := drop (lp_prefix_len f) (lp_buf f), lp_at := LP_Body n\<rparr>) \<Longrightarrow> P f"
    and body: "\<And>f n. lp_running f \<Longrightarrow> lp_at f = LP_Body n \<Longrightarrow> n \<le> length (lp_buf f) \<Longrightarrow>
      P (f\<lparr>lp_buf := drop n (lp_buf f), lp_at := LP_Header\<rparr>) \<Longrightarrow> P f"
  shows "P f"
  using assms(1)
proof (induction f rule: measure_induct_rule [of lp_left])
  case (less f)
  show ?case
  proof (cases "lp_at f")
    case LP_Header
    let ?n = "parse_length (lp_big_endian f) (take (lp_prefix_len f) (lp_buf f))"
    let ?g = "f\<lparr>lp_buf := drop (lp_prefix_len f) (lp_buf f), lp_at := LP_Body ?n\<rparr>"
    consider "length (lp_buf f) < lp_prefix_len f" | "lp_prefix_len f \<le> length (lp_buf f)" "lp_max_frame f < ?n"
      | "lp_prefix_len f \<le> length (lp_buf f)" "?n \<le> lp_max_frame f" by linarith
    then show ?thesis
    proof cases
      case 1
      with LP_Header less.prems show ?thesis by (intro settled) (simp add: lp_settled_def lp_running_def)
    next
      case 2
      with LP_Header less.prems show ?thesis by (intro oversized) simp_all
    next
      case 3
      have "lp_left ?g < lp_left f" "lp_running ?g"
        using 3 LP_Header less.prems by (simp_all add: lp_left_def lp_running_def)
      with 3 LP_Header less show ?thesis by (intro header [of f ?n]) simp_all
    qed
  next
    case (LP_Body n)
    let ?g = "f\<lparr>lp_buf := drop n (lp_buf f), lp_at := LP_Header\<rparr>"
    show ?thesis
    proof (cases "length (lp_buf f) < n")
      case True
      with LP_Body less.prems show ?thesis by (intro settled) (simp add: lp_settled_def lp_running_def)
    next
      case False
      then have "lp_left ?g < lp_left f" "lp_running ?g"
        using LP_Body less.prems by (simp_all add: lp_left_def lp_running_def)
      with False LP_Body less show ?thesis by (intro body [of f n]) simp_all
    qed
  next
    case LP_Errored
    with less.prems show ?thesis by (intro settled) (simp add: lp_settled_def lp_running_def)
  qed
qed

text \<open>One round of the loop, by the four cases.\<close>

lemma lp_loop_steps:
  "lp_settled f \<Longrightarrow> lp_loop f = Some ([], f)"
  "lp_at f = LP_Header \<Longrightarrow> lp_prefix_len f \<le> length (lp_buf f) \<Longrightarrow>
     n = parse_length (lp_big_endian f) (take (lp_prefix_len f) (lp_buf f)) \<Longrightarrow> lp_max_frame f < n \<Longrightarrow>
     lp_loop f = Some ([oversized n (lp_max_frame f)], f\<lparr>lp_buf := [], lp_at := LP_Errored\<rparr>)"
  "lp_at f = LP_Header \<Longrightarrow> lp_prefix_len f \<le> length (lp_buf f) \<Longrightarrow>
     n = parse_length (lp_big_endian f) (take (lp_prefix_len f) (lp_buf f)) \<Longrightarrow> n \<le> lp_max_frame f \<Longrightarrow>
     lp_loop f = lp_loop (f\<lparr>lp_buf := drop (lp_prefix_len f) (lp_buf f), lp_at := LP_Body n\<rparr>)"
  "lp_at f = LP_Body n \<Longrightarrow> n \<le> length (lp_buf f) \<Longrightarrow>
     lp_loop f = map_option (\<lambda>(frames, g). (FV_Bytes (take n (lp_buf f)) # frames, g))
       (lp_loop (f\<lparr>lp_buf := drop n (lp_buf f), lp_at := LP_Header\<rparr>))"
  by (subst lp_loop.simps; auto simp: lp_settled_def Let_def map_option_case split: lp_state.splits option.split bind_split)+

text \<open>The loop returns, and leaves nothing it could have returned.\<close>

lemma lp_loop_total: "lp_running f \<Longrightarrow> \<exists>fs g. lp_loop f = Some (fs, g) \<and> lp_settled g \<and> lp_prefix_len g = lp_prefix_len f"
proof (induction f rule: lp_induct)
  case (settled f)
  then show ?case by (simp add: lp_loop_steps(1))
next
  case (oversized f)
  then show ?case by (simp add: lp_loop_steps(2) [OF oversized(2,3) refl oversized(4)] lp_settled_def lp_running_def)
next
  case (header f n)
  then show ?case by (simp add: lp_loop_steps(3) [OF header(2-5)])
next
  case (body f n)
  then show ?case by (auto simp: lp_loop_steps(4) [OF body(2,3)])
qed


lemma lp_update_swap: "f\<lparr>lp_at := a, lp_buf := b\<rparr> = f\<lparr>lp_buf := b, lp_at := a\<rparr>"
  by (cases f) simp

lemma lp_loop_append:
  "lp_running f \<Longrightarrow> lp_at f \<noteq> LP_Errored \<Longrightarrow> lp_loop f = Some (fs, g) \<Longrightarrow>
     lp_loop (f\<lparr>lp_buf := lp_buf f @ ext\<rparr>) = map_option (\<lambda>(gs, u). (fs @ gs, u)) (lp_feed g ext)"
proof (induction f arbitrary: fs rule: lp_induct)
  case (settled f)
  then show ?case by (auto simp: lp_loop_steps(1) lp_feed_def map_option_case split: option.split)
next
  case (oversized f)
  have "lp_loop (f\<lparr>lp_buf := lp_buf f @ ext\<rparr>) = lp_loop f"
    using oversized(3,4) by (simp add: lp_loop_steps(2) [OF oversized(2,3) refl oversized(4)]
        lp_loop_steps(2) [of "f\<lparr>lp_buf := lp_buf f @ ext\<rparr>", OF _ _ refl] oversized(2))
  then show ?case
    using oversized(6) by (auto simp: lp_loop_steps(2) [OF oversized(2,3) refl oversized(4)] lp_feed_def)
next
  case (header f n)
  have "lp_loop (f\<lparr>lp_buf := lp_buf f @ ext\<rparr>) =
      lp_loop (f\<lparr>lp_buf := drop (lp_prefix_len f) (lp_buf f) @ ext, lp_at := LP_Body n\<rparr>)"
    using header(3-5) by (simp add: lp_loop_steps(3) [of "f\<lparr>lp_buf := lp_buf f @ ext\<rparr>" n] header(2))
  with header(6) [of fs] header(8) show ?case by (simp add: lp_loop_steps(3) [OF header(2-5)] lp_update_swap)
next
  case (body f n)
  from body(6) obtain gs where gs: "fs = FV_Bytes (take n (lp_buf f)) # gs"
    "lp_loop (f\<lparr>lp_buf := drop n (lp_buf f), lp_at := LP_Header\<rparr>) = Some (gs, g)"
    by (auto simp: lp_loop_steps(4) [OF body(2,3)])
  have "lp_loop (f\<lparr>lp_buf := lp_buf f @ ext\<rparr>) =
      map_option (\<lambda>(frames, u). (FV_Bytes (take n (lp_buf f)) # frames, u))
        (lp_loop (f\<lparr>lp_buf := drop n (lp_buf f) @ ext, lp_at := LP_Header\<rparr>))"
    using body(3) by (simp add: lp_loop_steps(4) [of "f\<lparr>lp_buf := lp_buf f @ ext\<rparr>" n] body(2))
  with body(4) [of gs] gs show ?case by (auto simp: lp_update_swap map_option_case split: option.splits)
qed

lemma settled_running: "lp_settled f \<Longrightarrow> lp_at f \<noteq> LP_Errored \<Longrightarrow> lp_running (f\<lparr>lp_buf := bytes\<rparr>)"
  by (auto simp: lp_settled_def lp_running_def split: lp_state.splits)

interpretation lp: stream_framer lp_feed lp_settled
proof unfold_locales
  fix f bytes
  assume "lp_settled f"
  then show "\<exists>fs g. lp_feed f bytes = Some (fs, g) \<and> lp_settled g"
    using lp_loop_total [OF settled_running] by (fastforce simp: lp_feed_def)
next
  fix f
  assume "lp_settled f"
  then show "lp_feed f [] = Some ([], f)" by (simp add: lp_feed_def lp_loop_steps(1))
next
  fix f a fs g b
  assume f: "lp_settled f" "lp_feed f a = Some (fs, g)"
  show "lp_feed f (a @ b) = map_option (\<lambda>(gs, u). (fs @ gs, u)) (lp_feed g b)"
  proof (cases "lp_at f = LP_Errored")
    case True
    with f show ?thesis by (auto simp: lp_feed_def)
  next
    case False
    with f lp_loop_append [OF settled_running [OF f(1) False, of "lp_buf f @ a"]] show ?thesis
      by (simp add: lp_feed_def)
  qed
qed

section \<open>Every framer\<close>

fun framer_settled :: "framer \<Rightarrow> bool" where
  "framer_settled (Lines_Framer buf) \<longleftrightarrow> 10 \<notin> set buf"
| "framer_settled (Delimiter_Framer d buf) \<longleftrightarrow> d \<notin> set buf"
| "framer_settled (Length_Prefixed_Framer f) \<longleftrightarrow> lp_settled f"

interpretation framers: stream_framer framer_feed framer_settled
proof unfold_locales
  fix fr bytes
  assume fr: "framer_settled fr"
  show "\<exists>fs t. framer_feed fr bytes = Some (fs, t) \<and> framer_settled t"
  proof (cases fr)
    case (Length_Prefixed_Framer f)
    with fr lp.feed_total [of f bytes] obtain fs g where "lp_feed f bytes = Some (fs, g)" "lp_settled g" by auto
    with Length_Prefixed_Framer show ?thesis by simp
  qed (use split_loop_rest in \<open>auto simp: lines_feed_def delimiter_feed_def split: prod.split\<close>)
next
  fix fr
  assume "framer_settled fr"
  then show "framer_feed fr [] = Some ([], fr)"
    using splitter.feed_Nil lp.feed_Nil by (cases fr) (simp_all add: lines_feed_def delimiter_feed_def)
next
  fix fr a fs t b
  assume fr: "framer_settled fr" "framer_feed fr a = Some (fs, t)"
  show "framer_feed fr (a @ b) = map_option (\<lambda>(gs, u). (fs @ gs, u)) (framer_feed t b)"
  proof (cases fr)
    case (Lines_Framer buf)
    with fr splitter.feed_append [of 10 buf line_frame a fs _ b] show ?thesis
      by (auto simp: lines_feed_def split: prod.splits)
  next
    case (Delimiter_Framer d buf)
    with fr splitter.feed_append [of d buf FV_Bytes a fs _ b] show ?thesis
      by (auto simp: delimiter_feed_def split: prod.splits)
  next
    case (Length_Prefixed_Framer f)
    with fr lp.feed_append [of f a fs _ b] show ?thesis
      by (auto simp: option.map_comp comp_def split: prod.splits intro!: option.map_cong)
  qed
qed

lemma framer_new_settled: "(case k of FK_Length_Prefixed n big max_frame \<Rightarrow> 0 < n | _ \<Rightarrow> True) \<Longrightarrow> framer_settled (framer_new k)"
  by (cases k) (simp_all add: lp_new_def lp_settled_def)


section \<open>Decoding what was encoded\<close>

lemma unat_shift_in: "unat n < 2 ^ 56 \<Longrightarrow> unat (shift_in n b) = unat n * 256 + unat b"
proof -
  assume n: "unat n < 2 ^ 56"
  have "shift_in n b = push_bit 8 n + ucast b"
    unfolding shift_in_def by (rule disjunctive_add [symmetric]) (auto simp: bit_simps dest: bit_imp_le_length)
  also have "\<dots> = of_nat (unat n * 256 + unat b)"
    by (simp add: push_bit_eq_mult)
  finally have "unat (shift_in n b) = (unat n * 256 + unat b) mod 2 ^ 64" by (simp only: unat_of_nat) simp
  then show ?thesis using n unat_byte_less [of b] by simp
qed

lemma parse_length_be: "length bs \<le> 8 \<Longrightarrow> unat (foldl shift_in 0 bs) = be_value bs"
proof (induction bs rule: rev_induct)
  case (snoc b bs)
  have "be_value bs < 256 ^ length bs" by (rule be_value_less)
  also have "(256 :: nat) ^ length bs \<le> 256 ^ 7" using snoc.prems by (intro power_increasing) auto
  finally have "unat (foldl shift_in 0 bs) < 2 ^ 56" using snoc by simp
  with snoc show ?case by (simp add: unat_shift_in be_value_def)
qed simp

lemma length_header_be: "length_header n True len = be_bytes n (unat len)" "length_header n False len = rev (be_bytes n (unat len))"
proof -
  have "ucast (drop_bit (i * 8) len AND 0xFF) = (of_nat (unat len div 256 ^ i) :: byte)" for i
  proof -
    have "(256 :: nat) ^ i = 2 ^ (i * 8)" by (simp add: power_mult mult.commute [of i])
    then have "(of_nat (unat len div 256 ^ i) :: byte) = of_nat (unat (drop_bit (i * 8) len))"
      unfolding unat_drop_bit_eq by (simp only: drop_bit_eq_div)
    also have "\<dots> = ucast (drop_bit (i * 8) len)" by simp
    also have "\<dots> = ucast (drop_bit (i * 8) len AND 0xFF)"
    proof -
      have mask: "(0xFF :: u64) = mask 8" by (simp add: mask_eq_exp_minus_1)
      show ?thesis unfolding mask by (rule bit_word_eqI) (auto simp: bit_simps)
    qed
    finally show ?thesis by simp
  qed
  then have rev: "map (\<lambda>i. ucast (drop_bit (i * 8) len AND 0xFF)) (rev [0 ..< n]) = be_bytes n (unat len)"
    by (induction n) simp_all
  then show "length_header n True len = be_bytes n (unat len)" by (simp add: length_header_def)
  show "length_header n False len = rev (be_bytes n (unat len))" by (simp add: length_header_def rev_map flip: rev)
qed

lemma parse_length_header:
  assumes "n \<le> 8" "len < 256 ^ n"
  shows "parse_length big (length_header n big (of_nat len)) = len"
proof -
  have "(256 :: nat) ^ n \<le> 256 ^ 8" using assms(1) by (intro power_increasing) auto
  then have "unat (of_nat len :: u64) = len" using assms(2) by (simp add: unat_of_nat)
  then show ?thesis
    using assms by (cases big) (simp_all add: parse_length_def length_header_be parse_length_be)
qed


lemma length_header_length: "length (length_header n big len) = n"
  by (simp add: length_header_def)

text \<open>A framer at the start of a header reads one encoded frame, then the rest.\<close>

lemma lp_feed_frame:
  assumes "f = lp_new n big max_frame" "0 < n" "n \<le> 8" "length data < 256 ^ n" "length data \<le> max_frame"
  shows "lp_feed f (encode_length_prefixed data n big @ rest) =
    map_option (\<lambda>(gs, u). (FV_Bytes data # gs, u)) (lp_feed f rest)"
proof -
  let ?enc = "encode_length_prefixed data n big @ rest"
  let ?h = "length_header n big (of_nat (length data))"
  have "lp_feed f ?enc = lp_loop (f\<lparr>lp_buf := ?enc\<rparr>)" by (simp add: lp_feed_def assms(1) lp_new_def)
  also have "\<dots> = lp_loop (f\<lparr>lp_buf := data @ rest, lp_at := LP_Body (length data)\<rparr>)"
    using assms parse_length_header [OF assms(3,4), of big] length_header_length [of n big "of_nat (length data)"]
    by (subst lp_loop_steps(3) [OF _ _ refl]) (simp_all add: lp_new_def encode_length_prefixed_def)
  also have "\<dots> = map_option (\<lambda>(gs, u). (FV_Bytes data # gs, u)) (lp_loop (f\<lparr>lp_buf := rest\<rparr>))"
    by (subst lp_loop_steps(4) [of _ "length data"]) (simp_all add: assms(1) lp_new_def)
  finally show ?thesis by (simp add: lp_feed_def assms(1) lp_new_def)
qed

lemma lp_feed_frames:
  assumes "0 < n" "n \<le> 8" "\<forall>d \<in> set ds. length d < 256 ^ n \<and> length d \<le> max_frame"
  shows "lp_feed (lp_new n big max_frame) (concat (map (\<lambda>d. encode_length_prefixed d n big) ds)) =
    Some (map FV_Bytes ds, lp_new n big max_frame)"
  using assms(3)
proof (induction ds)
  case Nil
  have "lp_settled (lp_new n big max_frame)" using assms(1) by (simp add: lp_settled_def lp_new_def)
  then show ?case by (simp add: lp.feed_Nil)
next
  case (Cons d ds)
  then show ?case using assms(1,2) by (simp add: lp_feed_frame [OF refl])
qed

text \<open>
  C8. Length-prefixed messages survive the wire: however the encoded messages are cut into chunks, a
  fresh framer with the same options returns exactly the messages, in order, and is ready for the
  next one, if their lengths fit the prefix and the limit.
\<close>

theorem length_prefixed_roundtrip:
  assumes "0 < n" "n \<le> 8" "\<forall>d \<in> set ds. length d < 256 ^ n \<and> length d \<le> max_frame"
    "concat chunks = concat (map (\<lambda>d. encode_length_prefixed d n big) ds)"
  shows "feeds lp_feed (lp_new n big max_frame) chunks = Some (map FV_Bytes ds, lp_new n big max_frame)"
  using lp.feeds_concat [of "lp_new n big max_frame" chunks] assms(1,4) lp_feed_frames [OF assms(1-3), of big]
  by (simp add: lp_settled_def lp_new_def)

theorem length_prefixed_roundtrip_witness:
  "feeds lp_feed (lp_new 2 True 16) [[0, 3, 7], [8, 9, 0], [0, 0], [1, 5]] =
     Some ([FV_Bytes [7, 8, 9], FV_Bytes [], FV_Bytes [5]], lp_new 2 True 16)"
proof -
  have "be_bytes 2 x = [of_nat (x div 256), of_nat x]" for x by (simp add: numeral_2_eq_2)
  then have enc: "concat [[0, 3, 7], [8, 9, 0], [0, 0], [1, 5]] =
      concat (map (\<lambda>d. encode_length_prefixed d 2 True) [[7, 8, 9], [], [5]])"
    by (simp add: encode_length_prefixed_def length_header_be)
  have "feeds lp_feed (lp_new 2 True 16) [[0, 3, 7], [8, 9, 0], [0, 0], [1, 5]] =
      Some (map FV_Bytes [[7, 8, 9], [], [5]], lp_new 2 True 16)"
    by (rule length_prefixed_roundtrip [OF _ _ _ enc]) simp_all
  then show ?thesis by (simp only: list.map)
qed

section \<open>A bound on what a peer can make the framer hold\<close>

lemma lp_loop_bounded:
  "lp_running f \<Longrightarrow> lp_loop f = Some (fs, g) \<Longrightarrow>
     lp_prefix_len g = lp_prefix_len f \<and> lp_max_frame g = lp_max_frame f \<and>
     (\<forall>b. FV_Bytes b \<in> set fs \<longrightarrow> length b \<le> lp_max_frame f)"
proof (induction f arbitrary: fs rule: lp_induct)
  case (settled f)
  then show ?case by (simp add: lp_loop_steps(1))
next
  case (oversized f)
  then show ?case by (auto simp: lp_loop_steps(2) [OF oversized(2,3) refl oversized(4)] oversized_def)
next
  case (header f n)
  then show ?case by (simp add: lp_loop_steps(3) [OF header(2-5)])
next
  case (body f n)
  then have "n \<le> lp_max_frame f" by (simp add: lp_running_def)
  with body show ?case by (auto simp: lp_loop_steps(4) [OF body(2,3)])
qed


lemma lp_feed_bounded:
  assumes "lp_settled f" "lp_feed f bytes = Some (fs, g)"
  shows "lp_prefix_len g = lp_prefix_len f" "lp_max_frame g = lp_max_frame f"
    "\<And>b. FV_Bytes b \<in> set fs \<Longrightarrow> length b \<le> lp_max_frame f"
  using assms lp_loop_bounded [OF settled_running [OF assms(1)], of "lp_buf f @ bytes" fs g]
  by (auto simp: lp_feed_def split: if_splits)

text \<open>
  C25. A peer cannot make a length-prefixed framer hold or return more than its limits, whatever it
  sends: the bytes kept between two chunks are fewer than the prefix or the largest allowed frame,
  no returned frame is longer than the limit, and the framer always returns.
\<close>

theorem lp_memory_bounded:
  assumes "0 < n"
  shows "\<exists>fs g. feeds lp_feed (lp_new n big max_frame) chunks = Some (fs, g) \<and>
    length (lp_buf g) < max n max_frame \<and> (\<forall>b. FV_Bytes b \<in> set fs \<longrightarrow> length b \<le> max_frame)"
proof -
  have new: "lp_settled (lp_new n big max_frame)" using assms by (simp add: lp_settled_def lp_new_def)
  from lp.feed_total [OF new] obtain fs g where
    g: "lp_feed (lp_new n big max_frame) (concat chunks) = Some (fs, g)" "lp_settled g" by blast
  from lp_feed_bounded [OF new g(1)] have "lp_prefix_len g = n" "lp_max_frame g = max_frame"
    "\<And>b. FV_Bytes b \<in> set fs \<Longrightarrow> length b \<le> max_frame" by (simp_all add: lp_new_def)
  moreover have "length (lp_buf g) < max (lp_prefix_len g) (lp_max_frame g)"
    using g(2) by (auto simp: lp_settled_def split: lp_state.splits)
  ultimately show ?thesis using g(1) lp.feeds_concat [OF new, of chunks] by auto
qed

theorem lp_memory_bounded_witness:
  "\<exists>fs g. feeds lp_feed (lp_new 1 True 2) [[200], [1, 2, 3]] = Some (fs, g) \<and>
     length (lp_buf g) < max 1 2 \<and> (\<forall>b. FV_Bytes b \<in> set fs \<longrightarrow> length b \<le> 2)"
  by (rule lp_memory_bounded) simp

text \<open>A message whose length does not fit the prefix is announced with the wrong length.\<close>

lemma length_header_truncates:
  assumes "n \<le> 8" "len < 2 ^ 64"
  shows "parse_length big (length_header n big (of_nat len)) = len mod 256 ^ n"
proof -
  have "unat (of_nat len :: u64) = len" using assms(2) by (simp add: unat_of_nat)
  then show ?thesis
    using assms by (cases big) (simp_all add: parse_length_def length_header_be parse_length_be)
qed

section \<open>Lines\<close>

lemma utf8_lossy_valid: "utf8_chars us = Some s \<Longrightarrow> utf8_lossy us = s"
  by (induction us arbitrary: s rule: utf8_chars.induct) (auto split: option.splits)

lemma utf8_units_ascii:
  assumes "is_scalar c" "u < 128"
  shows "u \<in> set (utf8_units c) \<longleftrightarrow> c = u" "last (utf8_units c) = u \<longleftrightarrow> c = u"
  using assms by (auto simp: utf8_units_def)

lemma utf8_bytes_ascii:
  assumes "list_all is_scalar s" "u < 128"
  shows "of_nat u \<in> set (utf8_bytes s) \<longleftrightarrow> u \<in> set s" "s \<noteq> [] \<Longrightarrow> last (utf8_bytes s) = of_nat u \<longleftrightarrow> last s = u"
proof -
  have units: "v < 256" if "v \<in> set (concat (map utf8_units s))" for v
    using that assms(1) by (induction s) (auto elim!: utf8_units_width)
  have same: "(of_nat v :: byte) = of_nat u \<longleftrightarrow> v = u" if "v < 256" for v
    using that assms(2) by (auto simp: word_unat_eq_iff unat_of_nat)
  show "of_nat u \<in> set (utf8_bytes s) \<longleftrightarrow> u \<in> set s"
  proof -
    have "of_nat u \<in> (of_nat :: nat \<Rightarrow> byte) ` X \<longleftrightarrow> u \<in> X" if "\<And>v. v \<in> X \<Longrightarrow> v < 256" for X
    proof
      assume "of_nat u \<in> (of_nat :: nat \<Rightarrow> byte) ` X"
      then obtain v where "v \<in> X" "(of_nat v :: byte) = of_nat u" by fastforce
      with same [OF that] show "u \<in> X" by simp
    qed simp
    from this [OF units] have "of_nat u \<in> set (utf8_bytes s) \<longleftrightarrow> u \<in> set (concat (map utf8_units s))"
      unfolding utf8_bytes_def ascii_bytes_def set_map by blast
    also have "\<dots> \<longleftrightarrow> u \<in> set s"
      using assms by (induction s) (auto simp: utf8_units_ascii(1))
    finally show ?thesis .
  qed
  show "last (utf8_bytes s) = of_nat u \<longleftrightarrow> last s = u" if ne: "s \<noteq> []"
  proof -
    obtain r c where s: "s = r @ [c]" using ne by (cases s rule: rev_cases) auto
    have c: "is_scalar c" "utf8_units c \<noteq> []" using assms(1) by (simp_all add: s utf8_units_def)
    then have "last (utf8_units c) < 256" using units [of "last (utf8_units c)"] by (simp add: s)
    then show ?thesis
      using c utf8_units_ascii(2) [OF c(1) assms(2)] same
      by (simp add: s utf8_bytes_def last_map last_append ascii_bytes_def)
  qed
qed

lemma line_frame_encoded:
  assumes "list_all is_scalar s" "s = [] \<or> last s \<noteq> 13"
  shows "line_frame (utf8_bytes s) = FV_Str s"
proof -
  have "strip_cr (utf8_bytes s) = utf8_bytes s"
    using assms(2) utf8_bytes_ascii(2) [OF assms(1), of 13] by (cases "s = []") (auto simp: strip_cr_def utf8_bytes_def)
  then show ?thesis
    using from_utf8_bytes [OF assms(1)] by (simp add: line_frame_def from_utf8_lossy_def from_utf8_def utf8_lossy_valid)
qed

text \<open>
  Lines survive the wire: however the encoded lines are cut into chunks, the line framer returns
  exactly the strings and keeps nothing, if no string holds a newline or ends in a carriage return.
\<close>

theorem lines_roundtrip:
  assumes "\<forall>s \<in> set ss. list_all is_scalar s \<and> 10 \<notin> set s \<and> (s = [] \<or> last s \<noteq> 13)"
    "concat chunks = concat (map encode_line ss)"
  shows "feeds framer_feed (framer_new FK_Lines) chunks = Some (map FV_Str ss, framer_new FK_Lines)"
proof -
  have "split_loop 10 line_frame (concat (map encode_line ss)) = (map FV_Str ss, [])"
    using assms(1)
  proof (induction ss)
    case (Cons s ss)
    then have "10 \<notin> set (utf8_bytes s)" using utf8_bytes_ascii(1) [of s 10] by simp
    with Cons show ?case by (simp add: encode_line_def split_loop_frame line_frame_encoded)
  qed (simp add: split_loop_keep)
  then show ?thesis
    using framers.feeds_concat [OF framer_new_settled [of FK_Lines], of chunks] assms(2) by (simp add: lines_feed_def)
qed

section \<open>The pipe\<close>

lemma put_all_append:
  "put_all accept n (xs @ ys) =
     (case put_all accept n xs of
        (out, True) \<Rightarrow> (case put_all accept (n + length out) ys of (out', ok) \<Rightarrow> (out @ out', ok))
      | (out, False) \<Rightarrow> (out, False))"
  by (induction xs arbitrary: n) (auto split: prod.splits bool.splits)

text \<open>
  C14. The pipe delivers the frames of the whole stream: whatever the chunks are, the task puts the
  frames that the framer finds in the concatenated bytes, then the unfinished rest, and closes its
  output; it stops early exactly when the consumer does.
\<close>

theorem pipe_delivers_stream:
  assumes "case k of FK_Length_Prefixed n big max_frame \<Rightarrow> 0 < n | _ \<Rightarrow> True"
  shows "\<exists>fs t. framer_feed (framer_new k) (concat chunks) = Some (fs, t) \<and>
    framer_task accept 0 (framer_new k) (map FV_Bytes chunks @ [FV_Nil]) =
      Some (fst (put_all accept 0 (fs @ (case framer_finish t of None \<Rightarrow> [] | Some x \<Rightarrow> [x]))), True)"
proof -
  have "framer_settled fr \<Longrightarrow> \<exists>fs t. framer_feed fr (concat chunks) = Some (fs, t) \<and>
    framer_task accept n fr (map FV_Bytes chunks @ [FV_Nil]) =
      Some (fst (put_all accept n (fs @ (case framer_finish t of None \<Rightarrow> [] | Some x \<Rightarrow> [x]))), True)" for fr n
  proof (induction chunks arbitrary: fr n)
    case Nil
    then show ?case by (simp add: framers.feed_Nil)
  next
    case (Cons c cs)
    from framers.feed_total [OF Cons.prems] obtain fs fr' where c: "framer_feed fr c = Some (fs, fr')" "framer_settled fr'"
      by blast
    from framers.feed_total [OF c(2)] obtain gs t where t: "framer_feed fr' (concat cs) = Some (gs, t)" by blast
    have rest: "framer_task accept n fr' (map FV_Bytes cs @ [FV_Nil]) =
        Some (fst (put_all accept n (gs @ (case framer_finish t of None \<Rightarrow> [] | Some x \<Rightarrow> [x]))), True)" for n
      using Cons.IH [OF c(2), of n] t by auto
    from framers.feed_append [OF Cons.prems c(1), of "concat cs"] t
    have "framer_feed fr (concat (c # cs)) = Some (fs @ gs, t)" by simp
    then show ?case
      using c(1) rest by (simp add: put_all_append [of accept n fs "gs @ _"] split: prod.split bool.split)
  qed
  from this [OF framer_new_settled [OF assms]] show ?thesis .
qed

theorem pipe_delivers_stream_witness:
  "\<exists>fs t. framer_feed (framer_new (FK_Delimiter 0)) (concat [[1], [0, 2]]) = Some (fs, t) \<and>
    framer_task (\<lambda>n. True) 0 (framer_new (FK_Delimiter 0)) (map FV_Bytes [[1], [0, 2]] @ [FV_Nil]) =
      Some (fst (put_all (\<lambda>n. True) 0 (fs @ (case framer_finish t of None \<Rightarrow> [] | Some x \<Rightarrow> [x]))), True)"
  by (rule pipe_delivers_stream) simp

end
