(* ===== verification/Channel.thy ===== *)
theory Channel
  imports Prelude
begin

text \<open>
  Channels, \<^verbatim>\<open>crates/cljrs-async/src/channel.rs\<close>, and the builtins that use them.  Every method body
  between taking and releasing the channel's mutex is one function; the methods that wait are
  programs over these functions, which the executor interleaves.  A value is an option whose
  \<open>None\<close> is \<open>nil\<close>.  \<open>tokio::sync::Notify\<close> is an argument of the model; publishing a value to the
  heap does not change it.
\<close>

section \<open>The channel\<close>

record 'v chan =
  ch_queue :: "'v option list"
  ch_capacity :: nat
  ch_closed :: bool
  ch_taken :: u64

text \<open>The two \<open>Notify\<close> objects of a channel.\<close>

datatype signal = Not_Empty | Not_Full

datatype rv_offered = Offered u64 | Offer_Full | Offer_Closed
datatype rv_waiting = RV_Taken | RV_Closed_Untaken | RV_Waiting

definition chan_new :: "nat \<Rightarrow> 'v chan" where
  "chan_new capacity = \<lparr>ch_queue = [], ch_capacity = capacity, ch_closed = False, ch_taken = 0\<rparr>"

definition is_rendezvous :: "'v chan \<Rightarrow> bool" where
  "is_rendezvous c \<longleftrightarrow> ch_capacity c = 0"

text \<open>The functions return the signals they fire; the condition variables of the blocking callers are polled and need none.\<close>

definition chan_close :: "'v chan \<Rightarrow> 'v chan \<times> signal list" where
  "chan_close c = (c\<lparr>ch_closed := True\<rparr>, [Not_Empty, Not_Full])"

definition try_take :: "'v chan \<Rightarrow> 'v option option \<times> 'v chan \<times> signal list" where
  "try_take c =
     (case ch_queue c of
        v # q \<Rightarrow> (Some v, c\<lparr>ch_queue := q, ch_taken := ch_taken c + 1\<rparr>, [Not_Full])
      | [] \<Rightarrow> if ch_closed c then (Some None, c, []) else (None, c, []))"

definition try_put_buffered :: "'v option \<Rightarrow> 'v chan \<Rightarrow> bool option \<times> 'v chan \<times> signal list" where
  "try_put_buffered v c =
     (if ch_closed c then (Some False, c, [])
      else if length (ch_queue c) < ch_capacity c then (Some True, c\<lparr>ch_queue := ch_queue c @ [v]\<rparr>, [Not_Empty])
      else (None, c, []))"

definition rv_offer :: "'v option \<Rightarrow> 'v chan \<Rightarrow> rv_offered \<times> 'v chan \<times> signal list" where
  "rv_offer v c =
     (if ch_closed c then (Offer_Closed, c, [])
      else if ch_queue c = [] then (Offered (ch_taken c), c\<lparr>ch_queue := [v]\<rparr>, [Not_Empty])
      else (Offer_Full, c, []))"

definition rv_status :: "u64 \<Rightarrow> 'v chan \<Rightarrow> rv_waiting \<times> 'v chan" where
  "rv_status token c =
     (if ch_taken c \<noteq> token then (RV_Taken, c)
      else if ch_closed c then (RV_Closed_Untaken, c\<lparr>ch_queue := tl (ch_queue c)\<rparr>)
      else (RV_Waiting, c))"

section \<open>Waiting\<close>

text \<open>
  What the channel uses of \<open>Notify\<close>: \<open>notify_one\<close>, which returns the task it wakes, and
  \<open>notified().await\<close>, which either returns at once or registers the task.
\<close>

type_synonym task = nat

record 'n notify =
  nt_new :: 'n
  nt_one :: "'n \<Rightarrow> task option \<times> 'n"
  nt_wait :: "task \<Rightarrow> 'n \<Rightarrow> bool \<times> 'n"

text \<open>Where a call is: at the head of one of the loops, or about to make its one attempt.\<close>

datatype 'v pc =
    Put_Start "'v option"
  | Put_Claim "'v option"
  | Put_Offered u64
  | Put_Buffered "'v option"
  | Take_Loop
  | Put_Blocking_Start "'v option"
  | Put_Blocking_Claim "'v option"
  | Put_Blocking_Offered u64
  | Put_Blocking_Buffered "'v option"
  | Take_Blocking_Loop
  | Offer_Once "'v option"
  | Poll_Once
  | Close_Once

datatype 'v reply = Put_Reply bool | Take_Reply "'v option" | Close_Reply

datatype 'v proc = Running "'v pc" | Parked signal "'v pc" | Finished "'v reply"

text \<open>
  The system: a channel, its two \<open>Notify\<close> objects and the calls in progress.  The last two fields
  only observe: the values accepted with the calls that put them, and the values taken.
\<close>

record ('v, 'n) system =
  sy_chan :: "'v chan"
  sy_not_empty :: 'n
  sy_not_full :: 'n
  sy_procs :: "'v proc list"
  sy_puts :: "(task \<times> 'v option) list"
  sy_takes :: "'v option list"

definition system_new :: "'n notify \<Rightarrow> nat \<Rightarrow> 'v pc list \<Rightarrow> ('v, 'n) system" where
  "system_new nt capacity pcs =
     \<lparr>sy_chan = chan_new capacity, sy_not_empty = nt_new nt, sy_not_full = nt_new nt,
      sy_procs = map Running pcs, sy_puts = [], sy_takes = []\<rparr>"

fun notify_of :: "signal \<Rightarrow> ('v, 'n) system \<Rightarrow> 'n" where
  "notify_of Not_Empty s = sy_not_empty s"
| "notify_of Not_Full s = sy_not_full s"

fun set_notify :: "signal \<Rightarrow> 'n \<Rightarrow> ('v, 'n) system \<Rightarrow> ('v, 'n) system" where
  "set_notify Not_Empty n s = s\<lparr>sy_not_empty := n\<rparr>"
| "set_notify Not_Full n s = s\<lparr>sy_not_full := n\<rparr>"

definition set_proc :: "task \<Rightarrow> 'v proc \<Rightarrow> ('v, 'n) system \<Rightarrow> ('v, 'n) system" where
  "set_proc t p s = s\<lparr>sy_procs := (sy_procs s)[t := p]\<rparr>"

definition wake :: "task \<Rightarrow> ('v, 'n) system \<Rightarrow> ('v, 'n) system" where
  "wake t s = (if t < length (sy_procs s) then (case sy_procs s ! t of Parked sg p \<Rightarrow> set_proc t (Running p) s | _ \<Rightarrow> s) else s)"

definition fire :: "'n notify \<Rightarrow> signal \<Rightarrow> ('v, 'n) system \<Rightarrow> ('v, 'n) system" where
  "fire nt sg s =
     (case nt_one nt (notify_of sg s) of
        (None, n) \<Rightarrow> set_notify sg n s
      | (Some t, n) \<Rightarrow> wake t (set_notify sg n s))"

definition await :: "'n notify \<Rightarrow> signal \<Rightarrow> task \<Rightarrow> 'v pc \<Rightarrow> ('v, 'n) system \<Rightarrow> ('v, 'n) system" where
  "await nt sg t p s =
     (case nt_wait nt t (notify_of sg s) of
        (ready, n) \<Rightarrow> set_proc t (if ready then Running p else Parked sg p) (set_notify sg n s))"

definition finish :: "task \<Rightarrow> 'v reply \<Rightarrow> ('v, 'n) system \<Rightarrow> ('v, 'n) system" where
  "finish t r = set_proc t (Finished r)"

definition log_put :: "task \<Rightarrow> 'v option \<Rightarrow> ('v, 'n) system \<Rightarrow> ('v, 'n) system" where
  "log_put t v s = s\<lparr>sy_puts := sy_puts s @ [(t, v)]\<rparr>"

definition unlog_put :: "task \<Rightarrow> ('v, 'n) system \<Rightarrow> ('v, 'n) system" where
  "unlog_put t s = s\<lparr>sy_puts := filter (\<lambda>(u, v). u \<noteq> t) (sy_puts s)\<rparr>"

definition log_take :: "('v, 'n) system \<Rightarrow> ('v, 'n) system" where
  "log_take s = (case ch_queue (sy_chan s) of [] \<Rightarrow> s | v # q \<Rightarrow> s\<lparr>sy_takes := sy_takes s @ [v]\<rparr>)"

section \<open>The calls\<close>

text \<open>One run of a call from the head of its loop to the next point where another call can run.\<close>

definition poll_take :: "'n notify \<Rightarrow> bool \<Rightarrow> task \<Rightarrow> ('v, 'n) system \<Rightarrow> ('v, 'n) system" where
  "poll_take nt once t s =
     (case try_take (sy_chan s) of
        (Some v, c, sgs) \<Rightarrow>
          fold (fire nt) (sgs @ (if v = None \<and> \<not> once then [Not_Empty] else []))
            (finish t (Take_Reply v) ((log_take s)\<lparr>sy_chan := c\<rparr>))
      | (None, c, sgs) \<Rightarrow> if once then finish t (Take_Reply None) s else await nt Not_Empty t Take_Loop s)"

definition poll_buffered :: "'n notify \<Rightarrow> bool \<Rightarrow> task \<Rightarrow> 'v option \<Rightarrow> ('v, 'n) system \<Rightarrow> ('v, 'n) system" where
  "poll_buffered nt once t v s =
     (case try_put_buffered v (sy_chan s) of
        (Some True, c, sgs) \<Rightarrow> fold (fire nt) sgs (finish t (Put_Reply True) (log_put t v (s\<lparr>sy_chan := c\<rparr>)))
      | (Some False, c, sgs) \<Rightarrow> finish t (Put_Reply False) s
      | (None, c, sgs) \<Rightarrow> if once then finish t (Put_Reply False) s else await nt Not_Full t (Put_Buffered v) s)"

definition poll_claim :: "'n notify \<Rightarrow> task \<Rightarrow> 'v option \<Rightarrow> ('v, 'n) system \<Rightarrow> ('v, 'n) system" where
  "poll_claim nt t v s =
     (case rv_offer v (sy_chan s) of
        (Offered token, c, sgs) \<Rightarrow>
          fold (fire nt) sgs (set_proc t (Running (Put_Offered token)) (log_put t v (s\<lparr>sy_chan := c\<rparr>)))
      | (Offer_Closed, c, sgs) \<Rightarrow> finish t (Put_Reply False) s
      | (Offer_Full, c, sgs) \<Rightarrow> await nt Not_Full t (Put_Claim v) s)"

definition poll_offered :: "'n notify \<Rightarrow> task \<Rightarrow> u64 \<Rightarrow> ('v, 'n) system \<Rightarrow> ('v, 'n) system" where
  "poll_offered nt t token s =
     (case rv_status token (sy_chan s) of
        (RV_Taken, c) \<Rightarrow> finish t (Put_Reply True) s
      | (RV_Closed_Untaken, c) \<Rightarrow> finish t (Put_Reply False) (unlog_put t (s\<lparr>sy_chan := c\<rparr>))
      | (RV_Waiting, c) \<Rightarrow> await nt Not_Full t (Put_Offered token) s)"

text \<open>
  The blocking calls try again after at most a millisecond and fire no \<open>Notify\<close>: a call that would
  wait stays where it is.
\<close>

definition block_take :: "task \<Rightarrow> ('v, 'n) system \<Rightarrow> ('v, 'n) system" where
  "block_take t s =
     (case try_take (sy_chan s) of
        (Some v, c, sgs) \<Rightarrow> finish t (Take_Reply v) ((log_take s)\<lparr>sy_chan := c\<rparr>)
      | (None, c, sgs) \<Rightarrow> s)"

definition block_buffered :: "task \<Rightarrow> 'v option \<Rightarrow> ('v, 'n) system \<Rightarrow> ('v, 'n) system" where
  "block_buffered t v s =
     (case try_put_buffered v (sy_chan s) of
        (Some True, c, sgs) \<Rightarrow> finish t (Put_Reply True) (log_put t v (s\<lparr>sy_chan := c\<rparr>))
      | (Some False, c, sgs) \<Rightarrow> finish t (Put_Reply False) s
      | (None, c, sgs) \<Rightarrow> s)"

definition block_claim :: "task \<Rightarrow> 'v option \<Rightarrow> ('v, 'n) system \<Rightarrow> ('v, 'n) system" where
  "block_claim t v s =
     (case rv_offer v (sy_chan s) of
        (Offered token, c, sgs) \<Rightarrow> set_proc t (Running (Put_Blocking_Offered token)) (log_put t v (s\<lparr>sy_chan := c\<rparr>))
      | (Offer_Closed, c, sgs) \<Rightarrow> finish t (Put_Reply False) s
      | (Offer_Full, c, sgs) \<Rightarrow> s)"

definition block_offered :: "task \<Rightarrow> u64 \<Rightarrow> ('v, 'n) system \<Rightarrow> ('v, 'n) system" where
  "block_offered t token s =
     (case rv_status token (sy_chan s) of
        (RV_Taken, c) \<Rightarrow> finish t (Put_Reply True) s
      | (RV_Closed_Untaken, c) \<Rightarrow> finish t (Put_Reply False) (unlog_put t (s\<lparr>sy_chan := c\<rparr>))
      | (RV_Waiting, c) \<Rightarrow> s)"

definition put_start :: "task \<Rightarrow> 'v option \<Rightarrow> ('v, 'n) system \<Rightarrow> ('v, 'n) system" where
  "put_start t v s = set_proc t (Running (if is_rendezvous (sy_chan s) then Put_Claim v else Put_Buffered v)) s"

definition put_blocking_start :: "task \<Rightarrow> 'v option \<Rightarrow> ('v, 'n) system \<Rightarrow> ('v, 'n) system" where
  "put_blocking_start t v s =
     set_proc t (Running (if ch_capacity (sy_chan s) = 0 then Put_Blocking_Claim v else Put_Blocking_Buffered v)) s"

text \<open>The builtins \<open>offer!\<close>, \<open>poll!\<close> and \<open>close!\<close>.\<close>

definition builtin_offer :: "'n notify \<Rightarrow> task \<Rightarrow> 'v option \<Rightarrow> ('v, 'n) system \<Rightarrow> ('v, 'n) system" where
  "builtin_offer nt t v s =
     (if is_rendezvous (sy_chan s) then finish t (Put_Reply False) s else poll_buffered nt True t v s)"

definition builtin_poll :: "'n notify \<Rightarrow> task \<Rightarrow> ('v, 'n) system \<Rightarrow> ('v, 'n) system" where
  "builtin_poll nt t s = poll_take nt True t s"

definition builtin_close :: "'n notify \<Rightarrow> task \<Rightarrow> ('v, 'n) system \<Rightarrow> ('v, 'n) system" where
  "builtin_close nt t s =
     (case chan_close (sy_chan s) of (c, sgs) \<Rightarrow> fold (fire nt) sgs (finish t Close_Reply (s\<lparr>sy_chan := c\<rparr>)))"

declare put_start_def [simp] put_blocking_start_def [simp] builtin_offer_def [simp] builtin_poll_def [simp] builtin_close_def [simp]

fun poll :: "'n notify \<Rightarrow> task \<Rightarrow> 'v pc \<Rightarrow> ('v, 'n) system \<Rightarrow> ('v, 'n) system" where
  "poll nt t (Put_Start v) s = put_start t v s"
| "poll nt t (Put_Claim v) s = poll_claim nt t v s"
| "poll nt t (Put_Offered token) s = poll_offered nt t token s"
| "poll nt t (Put_Buffered v) s = poll_buffered nt False t v s"
| "poll nt t Take_Loop s = poll_take nt False t s"
| "poll nt t (Put_Blocking_Start v) s = put_blocking_start t v s"
| "poll nt t (Put_Blocking_Claim v) s = block_claim t v s"
| "poll nt t (Put_Blocking_Offered token) s = block_offered t token s"
| "poll nt t (Put_Blocking_Buffered v) s = block_buffered t v s"
| "poll nt t Take_Blocking_Loop s = block_take t s"
| "poll nt t (Offer_Once v) s = builtin_offer nt t v s"
| "poll nt t Poll_Once s = builtin_poll nt t s"
| "poll nt t Close_Once s = builtin_close nt t s"

text \<open>The executor runs any call that is not parked.\<close>

inductive chan_step :: "'n notify \<Rightarrow> ('v, 'n) system \<Rightarrow> ('v, 'n) system \<Rightarrow> bool" for nt where
  step: "t < length (sy_procs s) \<Longrightarrow> sy_procs s ! t = Running p \<Longrightarrow> chan_step nt s (poll nt t p s)"

inductive chan_reach :: "'n notify \<Rightarrow> nat \<Rightarrow> 'v pc list \<Rightarrow> ('v, 'n) system \<Rightarrow> bool" for nt capacity pcs where
  init: "chan_reach nt capacity pcs (system_new nt capacity pcs)"
| more: "chan_reach nt capacity pcs s \<Longrightarrow> chan_step nt s s' \<Longrightarrow> chan_reach nt capacity pcs s'"

end
