(* ===== verification/Channel_Spec.thy ===== *)
theory Channel_Spec
  imports Channel "HOL-Library.Multiset"
begin

text \<open>Properties of channels: order and delivery of the values, and wake-ups.\<close>

section \<open>The invariant\<close>

definition fresh :: "('v, 'n) system \<Rightarrow> task \<Rightarrow> bool" where
  "fresh s t \<longleftrightarrow> t \<notin> fst ` set (sy_puts s)"

definition offered :: "('v, 'n) system \<Rightarrow> task \<Rightarrow> u64 \<Rightarrow> bool" where
  "offered s t token \<longleftrightarrow>
     (\<exists>i < length (sy_puts s). fst (sy_puts s ! i) = t \<and> i \<le> length (sy_takes s) \<and> token = of_nat i)"

text \<open>The value that a task has put has been taken.\<close>

definition delivered :: "('v, 'n) system \<Rightarrow> task \<Rightarrow> bool" where
  "delivered s t \<longleftrightarrow> t \<in> fst ` set (take (length (sy_takes s)) (sy_puts s))"

fun pc_ok :: "('v, 'n) system \<Rightarrow> task \<Rightarrow> 'v pc \<Rightarrow> bool" where
  "pc_ok s t (Put_Offered token) \<longleftrightarrow> is_rendezvous (sy_chan s) \<and> offered s t token"
| "pc_ok s t (Put_Blocking_Offered token) \<longleftrightarrow> is_rendezvous (sy_chan s) \<and> offered s t token"
| "pc_ok s t (Put_Claim v) \<longleftrightarrow> is_rendezvous (sy_chan s) \<and> fresh s t"
| "pc_ok s t (Put_Blocking_Claim v) \<longleftrightarrow> is_rendezvous (sy_chan s) \<and> fresh s t"
| "pc_ok s t (Put_Buffered v) \<longleftrightarrow> \<not> is_rendezvous (sy_chan s) \<and> fresh s t"
| "pc_ok s t (Put_Blocking_Buffered v) \<longleftrightarrow> \<not> is_rendezvous (sy_chan s) \<and> fresh s t"
| "pc_ok s t p \<longleftrightarrow> fresh s t"

fun proc_ok :: "('v, 'n) system \<Rightarrow> task \<Rightarrow> 'v proc \<Rightarrow> bool" where
  "proc_ok s t (Running p) \<longleftrightarrow> pc_ok s t p"
| "proc_ok s t (Parked sg p) \<longleftrightarrow> pc_ok s t p"
| "proc_ok s t (Finished (Put_Reply True)) \<longleftrightarrow>
     t \<in> fst ` set (sy_puts s) \<and> (is_rendezvous (sy_chan s) \<longrightarrow> delivered s t)"
| "proc_ok s t (Finished r) \<longleftrightarrow> fresh s t"

definition room :: "'v chan \<Rightarrow> nat" where
  "room c = (if is_rendezvous c then 1 else ch_capacity c)"

definition values_ok :: "('v, 'n) system \<Rightarrow> bool" where
  "values_ok s \<longleftrightarrow>
     map snd (sy_puts s) = sy_takes s @ ch_queue (sy_chan s) \<and> distinct (map fst (sy_puts s)) \<and>
     length (ch_queue (sy_chan s)) \<le> room (sy_chan s) \<and> ch_taken (sy_chan s) = of_nat (length (sy_takes s))"

definition chan_inv :: "('v, 'n) system \<Rightarrow> bool" where
  "chan_inv s \<longleftrightarrow> values_ok s \<and> (\<forall>t < length (sy_procs s). proc_ok s t (sy_procs s ! t))"

lemma pc_ok_cases:
  assumes "pc_ok s t p"
    and "fresh s t \<Longrightarrow> fresh s' t" "\<And>token. is_rendezvous (sy_chan s) \<Longrightarrow> offered s t token \<Longrightarrow> offered s' t token"
    and "ch_capacity (sy_chan s') = ch_capacity (sy_chan s)"
  shows "pc_ok s' t p"
  using assms by (cases p) (auto simp: is_rendezvous_def)

lemma proc_ok_cases:
  assumes "proc_ok s t pr"
    and "fresh s t \<Longrightarrow> fresh s' t" "\<And>token. is_rendezvous (sy_chan s) \<Longrightarrow> offered s t token \<Longrightarrow> offered s' t token"
    and "ch_capacity (sy_chan s') = ch_capacity (sy_chan s)"
    and "t \<in> fst ` set (sy_puts s) \<Longrightarrow> (is_rendezvous (sy_chan s) \<Longrightarrow> delivered s t) \<Longrightarrow> t \<in> fst ` set (sy_puts s')"
    and "is_rendezvous (sy_chan s) \<Longrightarrow> delivered s t \<Longrightarrow> delivered s' t"
  shows "proc_ok s' t pr"
proof (cases "(s, t, pr)" rule: proc_ok.cases)
  case (1 s t p) then show ?thesis using assms(1-4) by (auto intro: pc_ok_cases)
next
  case (2 s t sg p) then show ?thesis using assms(1-4) by (auto intro: pc_ok_cases)
next
  case (3 s t) then show ?thesis using assms by (auto simp: is_rendezvous_def)
qed (use assms in auto)

lemma nth_update: "xs[t := x] ! u = (if u = t \<and> t < length xs then x else xs ! u)"
  by (cases "t < length xs") (auto simp: nth_list_update list_update_beyond)

text \<open>Waking a task and moving a task on keep what the invariant says of the others.\<close>

lemma proc_ok_cong:
  assumes "sy_chan s' = sy_chan s" "sy_puts s' = sy_puts s" "sy_takes s' = sy_takes s"
  shows "proc_ok s' t pr = proc_ok s t pr"
  using proc_ok_cases [of s t pr s'] proc_ok_cases [of s' t pr s] assms
  by (auto simp: fresh_def offered_def delivered_def)

lemma chan_inv_procs:
  assumes "chan_inv s" "sy_chan s' = sy_chan s" "sy_puts s' = sy_puts s" "sy_takes s' = sy_takes s"
    and "length (sy_procs s') = length (sy_procs s)"
    and "\<And>t. t < length (sy_procs s) \<Longrightarrow> proc_ok s t (sy_procs s ! t) \<Longrightarrow> proc_ok s t (sy_procs s' ! t)"
  shows "chan_inv s'"
  using assms by (auto simp: chan_inv_def values_ok_def proc_ok_cong [of s' s])

lemma wake_same [simp]:
  "sy_chan (wake t s) = sy_chan s" "sy_puts (wake t s) = sy_puts s" "sy_takes (wake t s) = sy_takes s"
  "length (sy_procs (wake t s)) = length (sy_procs s)"
  "sy_not_empty (wake t s) = sy_not_empty s" "sy_not_full (wake t s) = sy_not_full s"
  by (auto simp: wake_def set_proc_def split: proc.splits)

lemma set_notify_same [simp]:
  "sy_chan (set_notify sg n s) = sy_chan s" "sy_puts (set_notify sg n s) = sy_puts s"
  "sy_takes (set_notify sg n s) = sy_takes s" "sy_procs (set_notify sg n s) = sy_procs s"
  by (cases sg; simp)+

lemma fire_same [simp]:
  "sy_chan (fire nt sg s) = sy_chan s" "sy_puts (fire nt sg s) = sy_puts s" "sy_takes (fire nt sg s) = sy_takes s"
  "length (sy_procs (fire nt sg s)) = length (sy_procs s)"
  by (auto simp: fire_def split: prod.splits option.splits)

lemma chan_inv_wake: "chan_inv s \<Longrightarrow> chan_inv (wake t s)"
  by (rule chan_inv_procs [of s]) (auto simp: wake_def set_proc_def nth_update split: proc.splits)

lemma chan_inv_fire: "chan_inv s \<Longrightarrow> chan_inv (fire nt sg s)"
  using chan_inv_procs [of s "set_notify sg n s" for n]
  by (auto simp: fire_def split: prod.splits option.splits intro!: chan_inv_wake)

lemma chan_inv_fires: "chan_inv s \<Longrightarrow> chan_inv (fold (fire nt) sgs s)"
  by (induction sgs arbitrary: s) (auto simp: chan_inv_fire)

lemma fires_same [simp]:
  "sy_chan (fold (fire nt) sgs s) = sy_chan s" "sy_puts (fold (fire nt) sgs s) = sy_puts s"
  "sy_takes (fold (fire nt) sgs s) = sy_takes s" "length (sy_procs (fold (fire nt) sgs s)) = length (sy_procs s)"
  by (induction sgs arbitrary: s; simp)+

lemma moves_same [simp]:
  "sy_chan (set_proc t pr s) = sy_chan s" "sy_puts (set_proc t pr s) = sy_puts s" "sy_takes (set_proc t pr s) = sy_takes s"
  "sy_procs (set_proc t pr s) = (sy_procs s)[t := pr]"
  "sy_chan (finish t r s) = sy_chan s" "sy_puts (finish t r s) = sy_puts s" "sy_takes (finish t r s) = sy_takes s"
  "sy_procs (finish t r s) = (sy_procs s)[t := Finished r]"
  "sy_chan (await nt sg t p s) = sy_chan s" "sy_puts (await nt sg t p s) = sy_puts s" "sy_takes (await nt sg t p s) = sy_takes s"
  by (auto simp: set_proc_def finish_def await_def split: prod.splits)

lemma logs_same [simp]:
  "sy_chan (log_put t v s) = sy_chan s" "sy_takes (log_put t v s) = sy_takes s" "sy_procs (log_put t v s) = sy_procs s"
  "sy_puts (log_put t v s) = sy_puts s @ [(t, v)]"
  "sy_chan (unlog_put t s) = sy_chan s" "sy_takes (unlog_put t s) = sy_takes s" "sy_procs (unlog_put t s) = sy_procs s"
  "sy_chan (log_take s) = sy_chan s" "sy_puts (log_take s) = sy_puts s" "sy_procs (log_take s) = sy_procs s"
  by (auto simp: log_put_def unlog_put_def log_take_def split: list.splits)

lemma chan_inv_move:
  assumes "values_ok s" "\<And>u. u < length (sy_procs s) \<Longrightarrow> u \<noteq> t \<Longrightarrow> proc_ok s u (sy_procs s ! u)" "proc_ok s t pr"
  shows "chan_inv (set_proc t pr s)"
  using assms by (auto simp: chan_inv_def values_ok_def set_proc_def nth_update proc_ok_cong [of "set_proc t pr s" s, unfolded set_proc_def])

lemma chan_inv_set_proc:
  assumes "chan_inv s" "proc_ok s t pr"
  shows "chan_inv (set_proc t pr s)"
  by (rule chan_inv_procs [OF assms(1)]) (use assms(2) in \<open>auto simp: set_proc_def nth_update\<close>)

lemma chan_inv_finish: "chan_inv s \<Longrightarrow> proc_ok s t (Finished r) \<Longrightarrow> chan_inv (finish t r s)"
  by (simp add: finish_def chan_inv_set_proc)

lemma chan_inv_await:
  assumes "chan_inv s" "pc_ok s t p"
  shows "chan_inv (await nt sg t p s)"
  by (rule chan_inv_procs [OF assms(1)])
    (use assms(2) in \<open>auto simp: await_def set_proc_def nth_update split: prod.splits\<close>)

text \<open>The three changes of the values: one accepted, one taken, one withdrawn.\<close>

lemma chan_inv_accept:
  assumes inv: "chan_inv s" and fr: "fresh s t"
    and c: "ch_queue c = ch_queue (sy_chan s) @ [v]" "length (ch_queue c) \<le> room c"
      "ch_capacity c = ch_capacity (sy_chan s)" "ch_taken c = ch_taken (sy_chan s)"
    and pr: "proc_ok (log_put t v (s\<lparr>sy_chan := c\<rparr>)) t pr"
  shows "chan_inv (set_proc t pr (log_put t v (s\<lparr>sy_chan := c\<rparr>)))" (is "chan_inv (set_proc t pr ?s)")
proof -
  have v: "values_ok ?s"
    using inv fr c by (auto simp: chan_inv_def values_ok_def log_put_def fresh_def)
  have "proc_ok ?s u (sy_procs s ! u)" if u: "u < length (sy_procs s)" "u \<noteq> t" for u
  proof (rule proc_ok_cases [where s = s])
    show "proc_ok s u (sy_procs s ! u)" using inv u by (simp add: chan_inv_def)
  qed (use u c in \<open>auto simp: log_put_def fresh_def offered_def delivered_def nth_append less_SucI\<close>)
  then show ?thesis
    using v pr by (intro chan_inv_move) (auto simp: log_put_def)
qed

lemma chan_inv_take:
  assumes inv: "chan_inv s" and q: "ch_queue (sy_chan s) = v # q" and fr: "fresh s t"
    and c: "c = (sy_chan s)\<lparr>ch_queue := q, ch_taken := ch_taken (sy_chan s) + 1\<rparr>"
  shows "chan_inv (finish t (Take_Reply v) ((log_take s)\<lparr>sy_chan := c\<rparr>))" (is "chan_inv (finish _ _ ?s)")
proof -
  have v: "values_ok ?s"
    using inv q c by (auto simp: chan_inv_def values_ok_def log_take_def room_def is_rendezvous_def)
  have len: "length (sy_takes s) < length (sy_puts s)"
    using inv q by (auto simp: chan_inv_def values_ok_def dest: arg_cong [where f = length])
  have "proc_ok ?s u (sy_procs s ! u)" if u: "u < length (sy_procs s)" for u
  proof (rule proc_ok_cases [where s = s])
    show "proc_ok s u (sy_procs s ! u)" using inv u by (simp add: chan_inv_def)
  qed (use q c len in \<open>auto simp: log_take_def fresh_def offered_def delivered_def take_Suc_conv_app_nth le_SucI\<close>)
  then have "chan_inv ?s"
    using v by (simp add: chan_inv_def log_take_def q)
  then show ?thesis
    unfolding finish_def by (rule chan_inv_set_proc) (use fr q in \<open>simp add: fresh_def log_take_def\<close>)
qed

text \<open>
  The token of an offer is the number of values taken before it.  While fewer than \<open>2 ^ 64\<close> values
  have been taken, the count differs from the token exactly when the offered value is gone.
\<close>

lemma offered_index:
  assumes inv: "chan_inv s" and "is_rendezvous (sy_chan s)" and off: "offered s t token"
    and "length (sy_takes s) < 2 ^ 64"
  obtains i where "i < length (sy_puts s)" "fst (sy_puts s ! i) = t" "i \<le> length (sy_takes s)"
    "ch_taken (sy_chan s) \<noteq> token \<longleftrightarrow> i < length (sy_takes s)"
proof -
  obtain i where i: "i < length (sy_puts s)" "fst (sy_puts s ! i) = t" "i \<le> length (sy_takes s)" "token = of_nat i"
    using off by (auto simp: offered_def)
  have "(of_nat (length (sy_takes s)) :: u64) = of_nat i \<longleftrightarrow> length (sy_takes s) = i"
    using i(3) assms(4) by (auto simp: word_unat_eq_iff unat_of_nat)
  then show thesis
    using that [OF i(1-3)] inv i by (auto simp: chan_inv_def values_ok_def)
qed

lemma chan_inv_cancel:
  assumes inv: "chan_inv s" and rv: "is_rendezvous (sy_chan s)" and off: "offered s t token"
    and bound: "length (sy_takes s) < 2 ^ 64" and eq: "ch_taken (sy_chan s) = token"
    and c: "c = (sy_chan s)\<lparr>ch_queue := tl (ch_queue (sy_chan s))\<rparr>"
  shows "chan_inv (finish t (Put_Reply False) (unlog_put t (s\<lparr>sy_chan := c\<rparr>)))" (is "chan_inv (finish _ _ ?s)")
proof -
  have ok: "map snd (sy_puts s) = sy_takes s @ ch_queue (sy_chan s)" "distinct (map fst (sy_puts s))"
    "length (ch_queue (sy_chan s)) \<le> 1" "ch_taken (sy_chan s) = of_nat (length (sy_takes s))"
    using inv rv by (auto simp: chan_inv_def values_ok_def room_def)
  have len: "length (sy_puts s) = length (sy_takes s) + length (ch_queue (sy_chan s))"
    using arg_cong [OF ok(1), of length] by simp
  obtain i where i: "i < length (sy_puts s)" "fst (sy_puts s ! i) = t" "i = length (sy_takes s)"
    using offered_index [OF inv rv off bound] eq by (metis le_neq_implies_less)
  have "length (sy_puts s) = Suc (length (sy_takes s))"
    using i(1,3) len ok(3) by linarith
  then obtain P v where P: "sy_puts s = P @ [(t, v)]" "length P = length (sy_takes s)"
    using i by (cases "sy_puts s" rule: rev_cases) (auto simp: nth_append)
  have f: "filter (\<lambda>(u, v). u \<noteq> t) (sy_puts s) = P"
    using ok(2) P(1) by (force simp: filter_id_conv)
  have "proc_ok ?s u (sy_procs s ! u)" if u: "u < length (sy_procs s)" "u \<noteq> t" for u
  proof (rule proc_ok_cases [where s = s])
    show "proc_ok s u (sy_procs s ! u)" using inv u by (simp add: chan_inv_def)
  qed (use u c P f in \<open>auto simp: unlog_put_def fresh_def offered_def delivered_def nth_append split: if_splits\<close>)
  moreover have "values_ok ?s"
    using ok P f c len by (cases "ch_queue (sy_chan s)") (auto simp: values_ok_def unlog_put_def room_def is_rendezvous_def)
  moreover have "fresh ?s t"
    using f ok(2) P by (auto simp: fresh_def unlog_put_def)
  ultimately show ?thesis
    unfolding finish_def by (intro chan_inv_move) (auto simp: unlog_put_def)
qed

lemma delivered_offer:
  assumes "chan_inv s" "is_rendezvous (sy_chan s)" "offered s t token" "length (sy_takes s) < 2 ^ 64"
    and "ch_taken (sy_chan s) \<noteq> token"
  shows "t \<in> fst ` set (sy_puts s) \<and> delivered s t"
proof -
  obtain i where i: "i < length (sy_puts s)" "fst (sy_puts s ! i) = t" "i < length (sy_takes s)"
    using offered_index [OF assms(1-4)] assms(5) by metis
  have "sy_puts s ! i \<in> set (take (length (sy_takes s)) (sy_puts s))"
    using i by (metis length_take min_less_iff_conj nth_mem nth_take)
  then show ?thesis
    using i by (auto simp: delivered_def dest: in_set_takeD)
qed

section \<open>Every step keeps the invariant\<close>

lemma chan_inv_close:
  assumes inv: "chan_inv s" and c: "c = (sy_chan s)\<lparr>ch_closed := True\<rparr>"
  shows "chan_inv (s\<lparr>sy_chan := c\<rparr>)" (is "chan_inv ?s")
proof -
  have "proc_ok ?s u (sy_procs s ! u)" if u: "u < length (sy_procs s)" for u
  proof (rule proc_ok_cases [where s = s])
    show "proc_ok s u (sy_procs s ! u)" using inv u by (simp add: chan_inv_def)
  qed (use c in \<open>auto simp: fresh_def offered_def delivered_def\<close>)
  moreover have "values_ok ?s"
    using inv c by (auto simp: chan_inv_def values_ok_def room_def is_rendezvous_def)
  ultimately show ?thesis
    by (simp add: chan_inv_def)
qed

lemma taker_step:
  assumes "chan_inv s" "fresh s t"
  shows "chan_inv (poll_take nt once t s) \<and> chan_inv (block_take t s)"
proof (cases "ch_queue (sy_chan s)")
  case Nil
  then show ?thesis
    using assms by (auto simp: poll_take_def block_take_def try_take_def log_take_def
        intro!: chan_inv_fire intro: chan_inv_finish chan_inv_await)
next
  case (Cons v q)
  then show ?thesis
    using chan_inv_take [OF assms(1) Cons assms(2) refl]
    by (simp add: poll_take_def block_take_def try_take_def chan_inv_fires chan_inv_fire)
qed

lemma buffered_step:
  assumes "chan_inv s" "fresh s t" "\<not> is_rendezvous (sy_chan s)"
  shows "chan_inv (poll_buffered nt once t v s)" "chan_inv (block_buffered t v s)"
proof -
  let ?s = "log_put t v (s\<lparr>sy_chan := (sy_chan s)\<lparr>ch_queue := ch_queue (sy_chan s) @ [v]\<rparr>\<rparr>)"
  have "chan_inv (finish t (Put_Reply True) ?s)" if "length (ch_queue (sy_chan s)) < ch_capacity (sy_chan s)"
    unfolding finish_def by (rule chan_inv_accept) (use assms that in \<open>auto simp: room_def is_rendezvous_def log_put_def\<close>)
  then show "chan_inv (poll_buffered nt once t v s)" "chan_inv (block_buffered t v s)"
    using assms by (auto simp: poll_buffered_def block_buffered_def try_put_buffered_def
        intro!: chan_inv_fire intro: chan_inv_finish chan_inv_await)
qed

lemma claim_step:
  assumes "chan_inv s" "fresh s t" "is_rendezvous (sy_chan s)"
  shows "chan_inv (poll_claim nt t v s)" "chan_inv (block_claim t v s)"
proof -
  let ?s = "log_put t v (s\<lparr>sy_chan := (sy_chan s)\<lparr>ch_queue := [v]\<rparr>\<rparr>)"
  have "offered ?s t (ch_taken (sy_chan s))" if "ch_queue (sy_chan s) = []"
  proof -
    have "length (sy_puts s) = length (sy_takes s)" "ch_taken (sy_chan s) = of_nat (length (sy_takes s))"
      using assms(1) that length_map [of snd "sy_puts s"] by (simp_all add: chan_inv_def values_ok_def)
    then show ?thesis
      by (auto simp: offered_def log_put_def nth_append intro!: exI [of _ "length (sy_takes s)"])
  qed
  then have "chan_inv (set_proc t (Running p) ?s)"
    if "p = Put_Offered (ch_taken (sy_chan s)) \<or> p = Put_Blocking_Offered (ch_taken (sy_chan s))" "ch_queue (sy_chan s) = []" for p
    using assms that
    by (intro chan_inv_accept) (auto simp: room_def is_rendezvous_def log_put_def)
  then show "chan_inv (poll_claim nt t v s)" "chan_inv (block_claim t v s)"
    using assms
    by (auto simp: poll_claim_def block_claim_def rv_offer_def
        intro!: chan_inv_fire intro: chan_inv_finish chan_inv_await)
qed

lemma offered_step:
  assumes "chan_inv s" "is_rendezvous (sy_chan s)" "offered s t token" "length (sy_takes s) < 2 ^ 64"
  shows "chan_inv (poll_offered nt t token s)" "chan_inv (block_offered t token s)"
  using assms chan_inv_cancel [OF assms] delivered_offer [OF assms]
  by (auto simp: poll_offered_def block_offered_def rv_status_def
      intro: chan_inv_finish chan_inv_await)

lemma poll_inv:
  assumes inv: "chan_inv s" and t: "t < length (sy_procs s)" "sy_procs s ! t = Running p"
    and bound: "length (sy_takes s) < 2 ^ 64"
  shows "chan_inv (poll nt t p s)"
proof -
  have ok: "pc_ok s t p"
    using inv t by (auto simp: chan_inv_def)
  show ?thesis
  proof (cases p)
    case Close_Once
    then show ?thesis
      using ok inv by (auto simp: chan_close_def fresh_def intro!: chan_inv_fire chan_inv_finish chan_inv_close)
  qed (use ok inv bound taker_step buffered_step claim_step offered_step in
      \<open>auto simp: is_rendezvous_def [symmetric] intro!: chan_inv_set_proc chan_inv_finish\<close>)
qed

lemma takes_poll: "length (sy_takes s) \<le> length (sy_takes (poll nt t p s))"
proof -
  have [simp]: "length (sy_takes s) \<le> length (sy_takes (log_take s))" for s :: "('a, 'b) system"
    by (auto simp: log_take_def split: list.splits)
  show ?thesis
    by (cases p) (auto simp: poll_take_def poll_buffered_def poll_claim_def poll_offered_def block_take_def block_buffered_def
        block_claim_def block_offered_def chan_close_def split: prod.splits option.splits bool.splits rv_offered.splits rv_waiting.splits)
qed

text \<open>The calls a program can make.\<close>

fun entry :: "'v pc \<Rightarrow> bool" where
  "entry (Put_Start v) = True"
| "entry Take_Loop = True"
| "entry (Put_Blocking_Start v) = True"
| "entry Take_Blocking_Loop = True"
| "entry (Offer_Once v) = True"
| "entry Poll_Once = True"
| "entry Close_Once = True"
| "entry p = False"

lemma chan_inv_new: "list_all entry pcs \<Longrightarrow> chan_inv (system_new nt capacity pcs)"
proof -
  have "pc_ok (system_new nt capacity pcs) t p" if "entry p" for t p
    using that by (cases p) (auto simp: system_new_def fresh_def)
  then show "list_all entry pcs \<Longrightarrow> ?thesis"
    by (auto simp: chan_inv_def values_ok_def system_new_def chan_new_def list_all_length)
qed

lemma reach_inv:
  "chan_reach nt capacity pcs s \<Longrightarrow> list_all entry pcs \<Longrightarrow> length (sy_takes s) < 2 ^ 64 \<Longrightarrow> chan_inv s"
proof (induction rule: chan_reach.induct)
  case init then show ?case by (simp add: chan_inv_new)
next
  case (more s s')
  from more.hyps(2) show ?case
  proof cases
    case (step t p)
    then show ?thesis
      using more.IH more.prems poll_inv [of s t p nt] takes_poll [of s nt t p] by simp
  qed
qed

section \<open>Whose values\<close>

text \<open>The value a call wants to put.\<close>

fun asked :: "'v pc \<Rightarrow> 'v option option" where
  "asked (Put_Start v) = Some v"
| "asked (Put_Claim v) = Some v"
| "asked (Put_Buffered v) = Some v"
| "asked (Put_Blocking_Start v) = Some v"
| "asked (Put_Blocking_Claim v) = Some v"
| "asked (Put_Blocking_Buffered v) = Some v"
| "asked (Offer_Once v) = Some v"
| "asked p = None"

fun carries :: "'v proc \<Rightarrow> 'v option option" where
  "carries (Running p) = asked p"
| "carries (Parked sg p) = asked p"
| "carries (Finished r) = None"

definition origin_inv :: "'v pc list \<Rightarrow> ('v, 'n) system \<Rightarrow> bool" where
  "origin_inv pcs s \<longleftrightarrow> length (sy_procs s) = length pcs \<and>
     (\<forall>t < length pcs. \<forall>v. carries (sy_procs s ! t) = Some v \<longrightarrow> asked (pcs ! t) = Some v) \<and>
     (\<forall>(t, v) \<in> set (sy_puts s). t < length pcs \<and> asked (pcs ! t) = Some v)"

lemma origin_simps:
  assumes "origin_inv pcs s"
  shows "origin_inv pcs (fire nt sg s)" "origin_inv pcs (s\<lparr>sy_chan := c\<rparr>)" "origin_inv pcs (log_take s)" "origin_inv pcs (unlog_put t s)"
    "\<And>r. origin_inv pcs (finish t r s)"
    "\<And>p. (\<And>v. asked p = Some v \<Longrightarrow> asked (pcs ! t) = Some v) \<Longrightarrow> origin_inv pcs (set_proc t (Running p) s)"
    "\<And>p. (\<And>v. asked p = Some v \<Longrightarrow> asked (pcs ! t) = Some v) \<Longrightarrow> origin_inv pcs (await nt sg t p s)"
    "\<And>v. t < length pcs \<Longrightarrow> asked (pcs ! t) = Some v \<Longrightarrow> origin_inv pcs (log_put t v s)"
proof -
  have n: "origin_inv pcs (set_notify sg n s)" for n
    using assms by (simp add: origin_inv_def)
  moreover have "origin_inv pcs (wake u s)" if "origin_inv pcs s" for u and s :: "('a, 'b) system"
    using that by (auto simp: origin_inv_def wake_def set_proc_def nth_update split: proc.splits)
  ultimately show "origin_inv pcs (fire nt sg s)"
    by (auto simp: fire_def split: prod.splits option.splits)
qed (use assms in \<open>auto simp: origin_inv_def log_take_def unlog_put_def finish_def set_proc_def nth_update log_put_def await_def
    split: list.splits prod.splits\<close>)

lemma origin_poll:
  assumes "origin_inv pcs s" "t < length (sy_procs s)" "sy_procs s ! t = Running p"
  shows "origin_inv pcs (poll nt t p s)"
proof -
  have t: "t < length pcs" and v: "\<And>v. asked p = Some v \<Longrightarrow> asked (pcs ! t) = Some v"
    using assms by (auto simp: origin_inv_def)
  show ?thesis
    by (cases p) (use t v assms(1) in \<open>auto simp: poll_take_def poll_buffered_def poll_claim_def poll_offered_def
        block_take_def block_buffered_def block_claim_def block_offered_def chan_close_def
        try_take_def try_put_buffered_def rv_offer_def rv_status_def split: list.splits intro!: origin_simps\<close>)
qed

lemma reach_origin: "chan_reach nt capacity pcs s \<Longrightarrow> origin_inv pcs s"
proof (induction rule: chan_reach.induct)
  case init then show ?case by (simp add: origin_inv_def system_new_def)
next
  case (more s s')
  from more.hyps(2) show ?case
    by cases (simp add: origin_poll more.IH)
qed

text \<open>The values that calls have received.\<close>

fun got :: "'v proc \<Rightarrow> 'v multiset" where
  "got (Finished (Take_Reply (Some v))) = {#v#}"
| "got p = {#}"

definition received :: "('v, 'n) system \<Rightarrow> 'v multiset" where
  "received s = (\<Sum>p \<leftarrow> sy_procs s. got p)"

lemma received_update:
  assumes "t < length ps" "got (ps ! t) = {#}"
  shows "(\<Sum>p \<leftarrow> ps[t := p']. got p) = (\<Sum>p \<leftarrow> ps. got p) + got p'"
  using assms by (induction ps arbitrary: t) (auto simp: nth_Cons split: nat.splits)

lemma received_fire: "received (fire nt sg s) = received s"
  by (auto simp: fire_def wake_def received_def set_proc_def received_update split: prod.splits option.splits proc.splits)

lemma received_fires: "received (fold (fire nt) sgs s) = received s"
  by (induction sgs arbitrary: s) (auto simp: received_fire)

definition values_of :: "'v option list \<Rightarrow> 'v multiset" where
  "values_of vs = mset (List.map_filter id vs)"

lemma values_of_snoc: "values_of (vs @ [v]) = values_of vs + got (Finished (Take_Reply v))"
  by (cases v) (auto simp: values_of_def List.map_filter_def)

lemma received_poll:
  assumes "t < length (sy_procs s)" "sy_procs s ! t = Running p" "received s = values_of (sy_takes s)"
  shows "received (poll nt t p s) = values_of (sy_takes (poll nt t p s))"
proof -
  have u: "received (set_proc t pr s') = received s + got pr" "received (finish t r s') = received s + got (Finished r)"
    "received (await nt sg t p' s') = received s"
    if "sy_procs s' = sy_procs s" for pr r s' sg p'
    using that assms(1,2) by (auto simp: received_def set_proc_def finish_def await_def received_update split: prod.splits)
  show ?thesis
    by (cases p) (auto simp: poll_take_def poll_buffered_def poll_claim_def poll_offered_def
        block_take_def block_buffered_def block_claim_def block_offered_def chan_close_def u assms(3) received_fire
        values_of_snoc log_take_def
        try_take_def try_put_buffered_def rv_offer_def rv_status_def split: list.splits)
qed

lemma reach_received: "chan_reach nt capacity pcs s \<Longrightarrow> received s = values_of (sy_takes s)"
proof (induction rule: chan_reach.induct)
  case init then show ?case by (simp add: received_def values_of_def system_new_def comp_def map_filter_simps)
next
  case (more s s')
  from more.hyps(2) show ?case
    by cases (simp add: received_poll more.IH)
qed

end
