(* ===== verification/Channel_Wake.thy ===== *)
theory Channel_Wake
  imports Channel_Spec
begin

text \<open>Wake-ups of the calls that wait on a channel.\<close>

section \<open>Wake-ups\<close>

text \<open>
  What \<open>Notify\<close> promises, in terms of the set of tasks waiting on it: \<open>notify_one\<close> takes one task
  out of the set, if there is one, and a task that waits is put into the set unless a permit lets it pass.
\<close>

definition notify_laws :: "'n notify \<Rightarrow> ('n \<Rightarrow> task set) \<Rightarrow> bool" where
  "notify_laws nt W \<longleftrightarrow> W (nt_new nt) = {} \<and>
     (\<forall>n. case nt_one nt n of (None, n') \<Rightarrow> W n = {} \<and> W n' = {} | (Some w, n') \<Rightarrow> w \<in> W n \<and> W n' = W n - {w}) \<and>
     (\<forall>t n. case nt_wait nt t n of (ready, n') \<Rightarrow> W n' = (if ready then W n else insert t (W n)))"

fun async_pc :: "'v chan \<Rightarrow> 'v pc \<Rightarrow> bool" where
  "async_pc c (Put_Claim v) = is_rendezvous c"
| "async_pc c (Put_Offered token) = is_rendezvous c"
| "async_pc c (Put_Blocking_Start v) = False"
| "async_pc c (Put_Blocking_Claim v) = False"
| "async_pc c (Put_Blocking_Offered token) = False"
| "async_pc c (Put_Blocking_Buffered v) = False"
| "async_pc c Take_Blocking_Loop = False"
| "async_pc c p = True"

fun waits_on :: "'v chan \<Rightarrow> signal \<Rightarrow> 'v pc \<Rightarrow> bool" where
  "waits_on c Not_Empty p \<longleftrightarrow> p = Take_Loop"
| "waits_on c Not_Full p \<longleftrightarrow> (case p of Put_Buffered v \<Rightarrow> True | Put_Claim v \<Rightarrow> is_rendezvous c | Put_Offered k \<Rightarrow> is_rendezvous c | _ \<Rightarrow> False)"

lemma parked_putter: "waits_on c Not_Full p \<Longrightarrow> \<not> is_rendezvous c \<Longrightarrow> \<exists>v. p = Put_Buffered v"
  by (cases p) auto

lemma waits_async: "waits_on c sg p \<Longrightarrow> async_pc c p"
  by (cases sg; cases p) auto

definition shape :: "('n \<Rightarrow> task set) \<Rightarrow> ('v, 'n) system \<Rightarrow> bool" where
  "shape W s \<longleftrightarrow>
     (\<forall>t p. t < length (sy_procs s) \<and> sy_procs s ! t = Running p \<longrightarrow> async_pc (sy_chan s) p) \<and>
     (\<forall>t sg p. t < length (sy_procs s) \<and> sy_procs s ! t = Parked sg p \<longrightarrow> waits_on (sy_chan s) sg p) \<and>
     (\<forall>t sg. t \<in> W (notify_of sg s) \<longleftrightarrow> t < length (sy_procs s) \<and> (\<exists>p. sy_procs s ! t = Parked sg p))"

lemma shapeD:
  assumes "shape W s"
  shows "\<And>t p. t < length (sy_procs s) \<Longrightarrow> sy_procs s ! t = Running p \<Longrightarrow> async_pc (sy_chan s) p"
    "\<And>t sg p. t < length (sy_procs s) \<Longrightarrow> sy_procs s ! t = Parked sg p \<Longrightarrow> waits_on (sy_chan s) sg p"
    "\<And>t sg. t \<in> W (notify_of sg s) \<longleftrightarrow> t < length (sy_procs s) \<and> (\<exists>p. sy_procs s ! t = Parked sg p)"
  using assms by (simp_all add: shape_def)

definition running :: "('v pc \<Rightarrow> bool) \<Rightarrow> ('v, 'n) system \<Rightarrow> nat" where
  "running P s = length (filter (\<lambda>q. \<exists>p. q = Running p \<and> P p) (sy_procs s))"

abbreviation takers :: "('v, 'n) system \<Rightarrow> nat" where
  "takers \<equiv> running (\<lambda>p. p = Take_Loop)"

abbreviation putters :: "('v, 'n) system \<Rightarrow> nat" where
  "putters \<equiv> running (\<lambda>p. \<exists>v. p = Put_Buffered v)"

text \<open>
  While takers wait, there are enough takers on their way for every queued value, and one more when
  the channel is closed, up to \<open>k\<close> missing ones; while putters wait, enough for the free places.
\<close>

definition takers_due :: "('n \<Rightarrow> task set) \<Rightarrow> nat \<Rightarrow> ('v, 'n) system \<Rightarrow> bool" where
  "takers_due W k s \<longleftrightarrow> W (sy_not_empty s) \<noteq> {} \<longrightarrow>
     length (ch_queue (sy_chan s)) + (if ch_closed (sy_chan s) then 1 else 0) \<le> takers s + k"

definition putters_due :: "('n \<Rightarrow> task set) \<Rightarrow> nat \<Rightarrow> ('v, 'n) system \<Rightarrow> bool" where
  "putters_due W k s \<longleftrightarrow> W (sy_not_full s) \<noteq> {} \<and> \<not> is_rendezvous (sy_chan s) \<and> \<not> ch_closed (sy_chan s) \<longrightarrow>
     ch_capacity (sy_chan s) \<le> length (ch_queue (sy_chan s)) + putters s + k"

lemma filter_update:
  "t < length xs \<Longrightarrow> length (filter P (xs[t := y])) + of_bool (P (xs ! t)) = length (filter P xs) + of_bool (P y)"
proof (induction xs arbitrary: t)
  case (Cons x xs)
  then show ?case
    using Cons.IH [of "t - 1"] by (cases t) auto
qed simp

lemma running_update:
  assumes "t < length (sy_procs s)" "sy_procs s' = (sy_procs s)[t := q]"
  shows "running P s' + of_bool (\<exists>p. sy_procs s ! t = Running p \<and> P p) = running P s + of_bool (\<exists>p. q = Running p \<and> P p)"
  using filter_update [OF assms(1), of "\<lambda>q. \<exists>p. q = Running p \<and> P p" q] assms(2) by (simp add: running_def)

lemma fire_cases:
  assumes laws: "notify_laws nt W" and sh: "shape W s"
  obtains (nobody) n where "W (notify_of sg s) = {}" "fire nt sg s = set_notify sg n s" "W n = {}"
  | (woken) w p n where "w < length (sy_procs s)" "sy_procs s ! w = Parked sg p" "w \<in> W (notify_of sg s)"
      "W n = W (notify_of sg s) - {w}" "fire nt sg s = set_proc w (Running p) (set_notify sg n s)"
proof (cases "nt_one nt (notify_of sg s)")
  case (Pair r n)
  have l: "case nt_one nt (notify_of sg s) of (None, n') \<Rightarrow> W (notify_of sg s) = {} \<and> W n' = {}
      | (Some w, n') \<Rightarrow> w \<in> W (notify_of sg s) \<and> W n' = W (notify_of sg s) - {w}"
    using laws unfolding notify_laws_def by (elim conjE) (erule spec)
  show thesis
  proof (cases r)
    case None
    then show ?thesis using l Pair by (intro nobody [of n]) (auto simp: fire_def)
  next
    case (Some w)
    then have "w \<in> W (notify_of sg s)" using l Pair by simp
    then obtain p where "w < length (sy_procs s)" "sy_procs s ! w = Parked sg p"
      using sh by (auto simp: shape_def)
    then show ?thesis using l Some Pair by (intro woken [of w p n]) (auto simp: fire_def wake_def)
  qed
qed

lemma set_notify_of [simp]:
  "notify_of sg' (set_notify sg n s) = (if sg' = sg then n else notify_of sg' s)"
  "notify_of sg (set_proc t pr s) = notify_of sg s"
  by (cases sg; cases sg'; simp) (cases sg; simp add: set_proc_def)

lemma notify_of_fields: "sy_not_empty s = notify_of Not_Empty s" "sy_not_full s = notify_of Not_Full s"
  by simp_all

lemma shape_fire:
  assumes "notify_laws nt W" "shape W s"
  shows "shape W (fire nt sg s)"
  using assms
proof (cases rule: fire_cases [where sg = sg])
  case (nobody n)
  then have "W (notify_of sg' (set_notify sg n s)) = W (notify_of sg' s)" for sg'
    by auto
  then show ?thesis
    using assms(2) unfolding nobody(2) shape_def by (simp del: set_notify_of)
next
  case (woken w p n)
  have "async_pc (sy_chan s) p"
    using shapeD(2) [OF assms(2) woken(1,2)] by (rule waits_async)
  then show ?thesis
    unfolding shape_def woken(5) using shapeD [OF assms(2)] woken(1-4)
    by (intro conjI allI impI) (auto simp: nth_update split: if_splits)
qed

lemma takers_due_fire:
  assumes laws: "notify_laws nt W" and sh: "shape W s" and due: "takers_due W (if sg = Not_Empty then Suc k else k) s"
  shows "takers_due W k (fire nt sg s)"
  using laws sh
proof (cases rule: fire_cases [where sg = sg])
  case (nobody n)
  then show ?thesis using due by (cases sg) (auto simp: takers_due_def running_def)
next
  case (woken w p n)
  have "takers (fire nt sg s) = takers s + of_bool (p = Take_Loop)"
    using running_update [of w s "fire nt sg s" "Running p" "\<lambda>p. p = Take_Loop"] woken by simp
  moreover have "sg = Not_Empty \<longrightarrow> p = Take_Loop"
    using shapeD(2) [OF sh woken(1,2)] by auto
  moreover have "sy_not_empty (fire nt sg s) = (if sg = Not_Empty then n else sy_not_empty s)"
    unfolding woken(5) by (cases sg) (simp_all add: set_proc_def)
  moreover have "sg = Not_Empty \<Longrightarrow> W (sy_not_empty s) \<noteq> {}"
    using woken(3) by auto
  ultimately show ?thesis
    using due unfolding takers_due_def fire_same by (cases sg; cases "ch_closed (sy_chan s)") auto
qed

lemma putters_due_fire:
  assumes laws: "notify_laws nt W" and sh: "shape W s" and due: "putters_due W (if sg = Not_Full then Suc k else k) s"
  shows "putters_due W k (fire nt sg s)"
  using laws sh
proof (cases rule: fire_cases [where sg = sg])
  case (nobody n)
  then show ?thesis using due by (cases sg) (auto simp: putters_due_def running_def)
next
  case (woken w p n)
  have "putters (fire nt sg s) = putters s + of_bool (\<exists>v. p = Put_Buffered v)"
    using running_update [of w s "fire nt sg s" "Running p" "\<lambda>p. \<exists>v. p = Put_Buffered v"] woken by simp
  moreover have "\<exists>v. p = Put_Buffered v" if "sg = Not_Full" "\<not> is_rendezvous (sy_chan s)"
    using shapeD(2) [OF sh woken(1,2)] that parked_putter by auto
  moreover have "sy_not_full (fire nt sg s) = (if sg = Not_Full then n else sy_not_full s)"
    unfolding woken(5) by (cases sg) (simp_all add: set_proc_def)
  moreover have "sg = Not_Full \<Longrightarrow> W (sy_not_full s) \<noteq> {}"
    using woken(3) by auto
  ultimately show ?thesis
    using due unfolding putters_due_def fire_same by (cases sg) auto
qed

definition wake_inv :: "('n \<Rightarrow> task set) \<Rightarrow> ('v, 'n) system \<Rightarrow> bool" where
  "wake_inv W s \<longleftrightarrow> shape W s \<and> takers_due W 0 s \<and> putters_due W 0 s"

lemma wake_fires:
  assumes "notify_laws nt W" "shape W s"
    "takers_due W (length (filter ((=) Not_Empty) sgs)) s" "putters_due W (length (filter ((=) Not_Full) sgs)) s"
  shows "wake_inv W (fold (fire nt) sgs s)"
  using assms(2-)
proof (induction sgs arbitrary: s)
  case Nil then show ?case by (simp add: wake_inv_def)
next
  case (Cons sg sgs)
  show ?case
    unfolding fold_simps
  proof (rule Cons.IH)
    show "shape W (fire nt sg s)" using Cons.prems(1) by (rule shape_fire [OF assms(1)])
    show "takers_due W (length (filter ((=) Not_Empty) sgs)) (fire nt sg s)"
      using Cons.prems by (intro takers_due_fire [OF assms(1)]) (auto split: if_splits)
    show "putters_due W (length (filter ((=) Not_Full) sgs)) (fire nt sg s)"
      using Cons.prems by (intro putters_due_fire [OF assms(1)]) (auto split: if_splits)
  qed
qed

lemma async_cong:
  assumes "ch_capacity c' = ch_capacity c"
  shows "async_pc c' p = async_pc c p" "waits_on c' sg p = waits_on c sg p"
  using assms by (cases p; simp add: is_rendezvous_def) (cases sg; cases p; simp add: assms is_rendezvous_def)

fun goes_on :: "'v chan \<Rightarrow> 'v proc \<Rightarrow> bool" where
  "goes_on c (Running p) = async_pc c p"
| "goes_on c (Parked sg p) = False"
| "goes_on c (Finished r) = True"

text \<open>A running call \<open>t\<close> changes the channel and goes on as \<open>q\<close>.\<close>

definition moves :: "task \<Rightarrow> 'v pc \<Rightarrow> 'v proc \<Rightarrow> ('v, 'n) system \<Rightarrow> ('v, 'n) system \<Rightarrow> bool" where
  "moves t p q s s' \<longleftrightarrow> t < length (sy_procs s) \<and> sy_procs s ! t = Running p \<and> sy_procs s' = (sy_procs s)[t := q] \<and>
     ch_capacity (sy_chan s') = ch_capacity (sy_chan s) \<and> sy_not_empty s' = sy_not_empty s \<and> sy_not_full s' = sy_not_full s \<and>
     goes_on (sy_chan s) q"

lemma notify_of_cong: "sy_not_empty s' = sy_not_empty s \<Longrightarrow> sy_not_full s' = sy_not_full s \<Longrightarrow> notify_of sg s' = notify_of sg s"
  by (cases sg) auto

lemma shape_move:
  assumes sh: "shape W s" and m: "moves t p q s s'"
  shows "shape W s'"
proof -
  have m': "t < length (sy_procs s)" "sy_procs s ! t = Running p" "sy_procs s' = (sy_procs s)[t := q]" "goes_on (sy_chan s) q"
    "\<And>sg. notify_of sg s' = notify_of sg s" and c: "ch_capacity (sy_chan s') = ch_capacity (sy_chan s)"
    using m notify_of_cong [of s' s] by (auto simp: moves_def)
  show ?thesis
    unfolding shape_def m'(3,5) async_cong [OF c]
    by (intro conjI allI impI) (use m'(1,2,4) shapeD [OF sh] in \<open>auto simp: nth_update split: if_splits\<close>)
qed

lemma due_move:
  assumes m: "moves t p q s s'"
  shows "takers_due W 0 s \<Longrightarrow>
      length (ch_queue (sy_chan s')) + (if ch_closed (sy_chan s') then 1 else 0) + of_bool (p = Take_Loop)
        \<le> length (ch_queue (sy_chan s)) + (if ch_closed (sy_chan s) then 1 else 0) + k + of_bool (q = Running Take_Loop) \<Longrightarrow>
      takers_due W k s'"
    and "putters_due W 0 s \<Longrightarrow> ch_closed (sy_chan s') \<or> \<not> ch_closed (sy_chan s) \<and>
      length (ch_queue (sy_chan s)) + of_bool (\<exists>v. p = Put_Buffered v)
        \<le> length (ch_queue (sy_chan s')) + l + of_bool (\<exists>v. q = Running (Put_Buffered v)) \<Longrightarrow>
      putters_due W l s'"
proof -
  have t: "takers s' + of_bool (p = Take_Loop) = takers s + of_bool (q = Running Take_Loop)"
    using m running_update [of t s s' q "\<lambda>p. p = Take_Loop"] by (simp add: moves_def)
  have u: "putters s' + of_bool (\<exists>v. p = Put_Buffered v) = putters s + of_bool (\<exists>v. q = Running (Put_Buffered v))"
    using m running_update [of t s s' q "\<lambda>p. \<exists>v. p = Put_Buffered v"] by (cases q) (simp_all add: moves_def)
  have n: "sy_not_empty s' = sy_not_empty s" "sy_not_full s' = sy_not_full s" "is_rendezvous (sy_chan s') = is_rendezvous (sy_chan s)"
    "ch_capacity (sy_chan s') = ch_capacity (sy_chan s)"
    using m by (auto simp: moves_def is_rendezvous_def)
  show "takers_due W k s'" if "takers_due W 0 s"
      "length (ch_queue (sy_chan s')) + (if ch_closed (sy_chan s') then 1 else 0) + of_bool (p = Take_Loop)
        \<le> length (ch_queue (sy_chan s)) + (if ch_closed (sy_chan s) then 1 else 0) + k + of_bool (q = Running Take_Loop)"
    using that t unfolding takers_due_def n by linarith
  show "putters_due W l s'" if "putters_due W 0 s" "ch_closed (sy_chan s') \<or> \<not> ch_closed (sy_chan s) \<and>
      length (ch_queue (sy_chan s)) + of_bool (\<exists>v. p = Put_Buffered v)
        \<le> length (ch_queue (sy_chan s')) + l + of_bool (\<exists>v. q = Running (Put_Buffered v))"
    using that u unfolding putters_due_def n by linarith
qed

lemma wake_move:
  assumes "wake_inv W s" "notify_laws nt W" "moves t p q s s'"
    and "length (ch_queue (sy_chan s')) + (if ch_closed (sy_chan s') then 1 else 0) + of_bool (p = Take_Loop)
        \<le> length (ch_queue (sy_chan s)) + (if ch_closed (sy_chan s) then 1 else 0) + length (filter ((=) Not_Empty) sgs)
          + of_bool (q = Running Take_Loop)"
    and "ch_closed (sy_chan s') \<or> \<not> ch_closed (sy_chan s) \<and>
      length (ch_queue (sy_chan s)) + of_bool (\<exists>v. p = Put_Buffered v)
        \<le> length (ch_queue (sy_chan s')) + length (filter ((=) Not_Full) sgs) + of_bool (\<exists>v. q = Running (Put_Buffered v))"
  shows "wake_inv W (fold (fire nt) sgs s')"
  using assms shape_move [OF _ assms(3)] due_move [OF assms(3)] by (intro wake_fires) (auto simp: wake_inv_def)

lemma wake_await:
  assumes inv: "wake_inv W s" and laws: "notify_laws nt W" and t: "t < length (sy_procs s)" "sy_procs s ! t = Running p"
    and p: "waits_on (sy_chan s) sg p"
    and c: "if sg = Not_Empty then ch_queue (sy_chan s) = [] \<and> \<not> ch_closed (sy_chan s)
      else is_rendezvous (sy_chan s) \<or> ch_capacity (sy_chan s) \<le> length (ch_queue (sy_chan s))"
  shows "wake_inv W (await nt sg t p s)"
proof -
  have "case nt_wait nt t (notify_of sg s) of (ready, n) \<Rightarrow> W n = (if ready then W (notify_of sg s) else insert t (W (notify_of sg s)))"
    using laws unfolding notify_laws_def by (elim conjE) (drule spec, erule spec)
  then obtain ready n where w: "nt_wait nt t (notify_of sg s) = (ready, n)"
    "W n = (if ready then W (notify_of sg s) else insert t (W (notify_of sg s)))"
    by (cases "nt_wait nt t (notify_of sg s)") auto
  let ?s = "await nt sg t p s"
  have s: "sy_procs ?s = (sy_procs s)[t := if ready then Running p else Parked sg p]" "\<And>sg'. notify_of sg' ?s = (if sg' = sg then n else notify_of sg' s)"
    by (simp_all add: await_def w(1))
  have sh: "shape W s" and due: "takers_due W 0 s" "putters_due W 0 s"
    using inv by (simp_all add: wake_inv_def)
  have "shape W ?s"
    unfolding shape_def s moves_same
    by (intro conjI allI impI) (use w(2) t p shapeD [OF sh] in \<open>auto simp: nth_update split: if_splits\<close>)
  moreover have "takers ?s + of_bool (p = Take_Loop) = takers s + of_bool (ready \<and> p = Take_Loop)"
    using running_update [OF t(1) s(1), of "\<lambda>p. p = Take_Loop"] t(2) by (cases ready) simp_all
  moreover have "putters ?s + of_bool (\<exists>v. p = Put_Buffered v) = putters s + of_bool (ready \<and> (\<exists>v. p = Put_Buffered v))"
    using running_update [OF t(1) s(1), of "\<lambda>p. \<exists>v. p = Put_Buffered v"] t(2) by (cases ready) simp_all
  moreover have "sg = Not_Full \<Longrightarrow> p \<noteq> Take_Loop" "sg = Not_Empty \<Longrightarrow> p = Take_Loop"
    using p by auto
  ultimately show ?thesis
    using due c w(2) s(2) unfolding wake_inv_def takers_due_def putters_due_def moves_same notify_of_fields
    by (cases sg; cases ready) auto
qed

lemma notifies_same [simp]:
  "sy_not_empty (set_proc t pr s) = sy_not_empty s" "sy_not_full (set_proc t pr s) = sy_not_full s"
  "sy_not_empty (finish t r s) = sy_not_empty s" "sy_not_full (finish t r s) = sy_not_full s"
  "sy_not_empty (log_put t v s) = sy_not_empty s" "sy_not_full (log_put t v s) = sy_not_full s"
  "sy_not_empty (unlog_put t s) = sy_not_empty s" "sy_not_full (unlog_put t s) = sy_not_full s"
  "sy_not_empty (log_take s) = sy_not_empty s" "sy_not_full (log_take s) = sy_not_full s"
  by (auto simp: set_proc_def finish_def log_put_def unlog_put_def log_take_def split: list.splits)

lemmas wake_quiet = wake_move [where sgs = "[]", simplified]

lemma wake_poll_take:
  assumes "wake_inv W s" "notify_laws nt W" "t < length (sy_procs s)" "sy_procs s ! t = Running (if once then Poll_Once else Take_Loop)"
  shows "wake_inv W (poll_take nt once t s)"
proof (cases "ch_queue (sy_chan s)")
  case Nil
  show ?thesis
  proof (cases "ch_closed (sy_chan s)")
    case True
    let ?sgs = "if once then [] else [Not_Empty]"
    have "wake_inv W (fold (fire nt) ?sgs (finish t (Take_Reply None) s))"
      using assms Nil True by (intro wake_move [OF assms(1,2)]) (auto simp: moves_def)
    then show ?thesis
      using Nil True by (simp add: poll_take_def try_take_def log_take_def split: if_splits)
  next
    case False
    then show ?thesis
      using Nil assms wake_quiet [OF assms(1,2), of t Poll_Once "Finished (Take_Reply None)" "finish t (Take_Reply None) s"]
      by (auto simp: poll_take_def try_take_def moves_def intro!: wake_await)
  qed
next
  case (Cons v q)
  show ?thesis
    unfolding poll_take_def try_take_def Cons list.case prod.case option.case
    by (rule wake_move [OF assms(1,2), where t = t and p = "if once then Poll_Once else Take_Loop"]) (use assms(3,4) Cons in \<open>auto simp: moves_def split: if_splits\<close>)
qed

lemma wake_poll_buffered:
  assumes "wake_inv W s" "notify_laws nt W" "t < length (sy_procs s)" "sy_procs s ! t = Running (if once then Offer_Once v else Put_Buffered v)"
  shows "wake_inv W (poll_buffered nt once t v s)"
proof -
  have f: "wake_inv W (finish t (Put_Reply False) s)" if "ch_closed (sy_chan s) \<or> once"
    using assms that by (intro wake_quiet [OF assms(1,2), where t = t and p = "if once then Offer_Once v else Put_Buffered v"]) (auto simp: moves_def split: if_splits)
  have "wake_inv W (fold (fire nt) [Not_Empty] (finish t (Put_Reply True) (log_put t v (s\<lparr>sy_chan := (sy_chan s)\<lparr>ch_queue := ch_queue (sy_chan s) @ [v]\<rparr>\<rparr>))))"
    if "\<not> ch_closed (sy_chan s)"
    using assms that by (intro wake_move [OF assms(1,2), where t = t and p = "if once then Offer_Once v else Put_Buffered v"]) (auto simp: moves_def split: if_splits)
  then show ?thesis
    using f assms by (auto simp: poll_buffered_def try_put_buffered_def intro!: wake_await)
qed

lemma wake_poll:
  assumes inv: "wake_inv W s" and laws: "notify_laws nt W" and t: "t < length (sy_procs s)" "sy_procs s ! t = Running p"
  shows "wake_inv W (poll nt t p s)"
proof -
  have a: "async_pc (sy_chan s) p"
    using inv shapeD(1) [OF _ t] by (auto simp: wake_inv_def)
  then show ?thesis
  proof (cases p)
    case (Put_Start v)
    show ?thesis
      unfolding Put_Start poll.simps put_start_def
      by (rule wake_quiet [OF inv laws, where t = t and p = p
            and q = "Running (if is_rendezvous (sy_chan s) then Put_Claim v else Put_Buffered v)"]) (use t Put_Start in \<open>auto simp: moves_def\<close>)
  next
    case (Put_Claim v)
    let ?s = "set_proc t (Running (Put_Offered (ch_taken (sy_chan s)))) (log_put t v (s\<lparr>sy_chan := (sy_chan s)\<lparr>ch_queue := [v]\<rparr>\<rparr>))"
    have "wake_inv W (fold (fire nt) [Not_Empty] ?s)" if "ch_queue (sy_chan s) = []" "\<not> ch_closed (sy_chan s)"
      using that a Put_Claim t by (intro wake_move [OF inv laws, where t = t and p = p]) (auto simp: moves_def)
    moreover have "wake_inv W (finish t (Put_Reply False) s)"
      using a Put_Claim t by (intro wake_quiet [OF inv laws, where t = t and p = p]) (auto simp: moves_def)
    ultimately show ?thesis
      using a Put_Claim t inv laws by (auto simp: poll_claim_def rv_offer_def intro!: wake_await)
  next
    case (Put_Offered token)
    have "wake_inv W (finish t (Put_Reply True) s)"
      using a Put_Offered t by (intro wake_quiet [OF inv laws, where t = t and p = p]) (auto simp: moves_def)
    moreover have "wake_inv W (finish t (Put_Reply False) (unlog_put t (s\<lparr>sy_chan := (sy_chan s)\<lparr>ch_queue := tl (ch_queue (sy_chan s))\<rparr>\<rparr>)))"
      if "ch_closed (sy_chan s)"
      using a Put_Offered t that by (intro wake_quiet [OF inv laws, where t = t and p = p]) (auto simp: moves_def)
    ultimately show ?thesis
      using a Put_Offered t inv laws by (auto simp: poll_offered_def rv_status_def intro!: wake_await)
  next
    case (Offer_Once v)
    have "wake_inv W (finish t (Put_Reply False) s)"
      using Offer_Once t by (intro wake_quiet [OF inv laws, where t = t and p = p]) (auto simp: moves_def)
    then show ?thesis
      using wake_poll_buffered [OF inv laws, of t True v] t Offer_Once by simp
  next
    case Close_Once
    have "wake_inv W (fold (fire nt) [Not_Empty, Not_Full] (finish t Close_Reply (s\<lparr>sy_chan := (sy_chan s)\<lparr>ch_closed := True\<rparr>\<rparr>)))"
      using Close_Once t by (intro wake_move [OF inv laws, where t = t and p = p]) (auto simp: moves_def)
    then show ?thesis
      using Close_Once by (simp add: chan_close_def)
  qed (use a t wake_poll_take [OF inv laws, of t False] wake_poll_take [OF inv laws, of t True]
      wake_poll_buffered [OF inv laws, of t False] in auto)
qed

lemma wake_reach:
  assumes "chan_reach nt capacity pcs s" "notify_laws nt W" "list_all entry pcs" "list_all (async_pc (chan_new capacity)) pcs"
  shows "wake_inv W s"
  using assms(1)
proof (induction rule: chan_reach.induct)
  case init
  have "W (nt_new nt) = {}" using assms(2) by (simp add: notify_laws_def)
  moreover have "notify_of sg (system_new nt capacity pcs) = nt_new nt" for sg
    by (cases sg) (simp_all add: system_new_def)
  ultimately have "shape W (system_new nt capacity pcs)"
    using assms(4) unfolding shape_def by (auto simp: system_new_def list_all_length)
  then show ?case
    using \<open>W (nt_new nt) = {}\<close> by (simp add: wake_inv_def takers_due_def putters_due_def system_new_def)
next
  case (more s s')
  from more.hyps(2) show ?case
    by cases (use more.IH assms(2) in \<open>simp add: wake_poll\<close>)
qed

lemma reach_capacity: "chan_reach nt capacity pcs s \<Longrightarrow> ch_capacity (sy_chan s) = capacity"
proof (induction rule: chan_reach.induct)
  case init then show ?case by (simp add: system_new_def chan_new_def)
next
  case (more s s')
  have "ch_capacity (sy_chan (poll nt t p s)) = ch_capacity (sy_chan s)" for t p
    by (cases p) (auto simp: poll_take_def poll_buffered_def poll_claim_def poll_offered_def
        block_take_def block_buffered_def block_claim_def block_offered_def chan_close_def
        try_take_def try_put_buffered_def rv_offer_def rv_status_def split: list.splits)
  with more.hyps(2) more.IH show ?case
    by cases simp
qed

section \<open>An executor\<close>

text \<open>A queue of waiting tasks with one stored permit, as \<open>Notify\<close> is documented.\<close>

definition fifo_notify :: "(task list \<times> bool) notify" where
  "fifo_notify =
     \<lparr>nt_new = ([], False),
      nt_one = (\<lambda>(ws, permit). case ws of [] \<Rightarrow> (None, ([], True)) | w # us \<Rightarrow> (Some w, (removeAll w us, permit))),
      nt_wait = (\<lambda>t (ws, permit). if permit then (True, (ws, False)) else (False, (ws @ [t], False)))\<rparr>"

lemma fifo_notify_laws: "notify_laws fifo_notify (\<lambda>n. set (fst n))"
  by (auto simp: notify_laws_def fifo_notify_def split: list.splits)

fun chan_run :: "'n notify \<Rightarrow> task list \<Rightarrow> ('v, 'n) system \<Rightarrow> ('v, 'n) system" where
  "chan_run nt [] s = s"
| "chan_run nt (t # ts) s =
     chan_run nt ts (if t < length (sy_procs s) then (case sy_procs s ! t of Running p \<Rightarrow> poll nt t p s | _ \<Rightarrow> s) else s)"

lemma chan_run_reach: "chan_reach nt capacity pcs s \<Longrightarrow> chan_reach nt capacity pcs (chan_run nt ts s)"
proof (induction ts arbitrary: s)
  case (Cons t ts)
  have "chan_reach nt capacity pcs (poll nt t p s)" if "t < length (sy_procs s)" "sy_procs s ! t = Running p" for p
    using Cons.prems chan_step.step [OF that] by (rule chan_reach.more)
  then show ?case
    using Cons by (auto split: proc.splits)
qed simp

lemmas chan_run_new = chan_run_reach [OF chan_reach.init]

section \<open>Properties\<close>

text \<open>C4. Values leave a channel in the order in which they were accepted and none is lost or
  duplicated, whatever calls run on it and however they interleave: the accepted values are the
  values taken followed by the queue, each is the argument of a put of its own, and the values taken are
  those the takers received.  The queue never exceeds the capacity.  A put answers true only if its
  value was accepted, on a rendezvous channel only if it was taken, and a put that answers false has left no
  value behind.\<close>
theorem channel_exchange:
  assumes "chan_reach nt capacity pcs s" "list_all entry pcs" "length (sy_takes s) < 2 ^ 64"
  shows "map snd (sy_puts s) = sy_takes s @ ch_queue (sy_chan s) \<and> distinct (map fst (sy_puts s)) \<and>
    (\<forall>(t, v) \<in> set (sy_puts s). t < length pcs \<and> asked (pcs ! t) = Some v) \<and>
    received s = values_of (sy_takes s) \<and>
    length (ch_queue (sy_chan s)) \<le> (if capacity = 0 then 1 else capacity) \<and>
    (\<forall>t < length pcs. sy_procs s ! t = Finished (Put_Reply True) \<longrightarrow>
      (if capacity = 0 then delivered s t else t \<in> fst ` set (sy_puts s))) \<and>
    (\<forall>t < length pcs. sy_procs s ! t = Finished (Put_Reply False) \<longrightarrow> t \<notin> fst ` set (sy_puts s))"
proof -
  have inv: "chan_inv s" and origin: "origin_inv pcs s" and cap: "ch_capacity (sy_chan s) = capacity"
    using assms reach_inv reach_origin reach_capacity by blast+
  have "values_ok s" and ok: "\<And>t. t < length pcs \<Longrightarrow> proc_ok s t (sy_procs s ! t)"
    using inv origin by (auto simp: chan_inv_def origin_inv_def)
  then have "map snd (sy_puts s) = sy_takes s @ ch_queue (sy_chan s)" "distinct (map fst (sy_puts s))"
    "length (ch_queue (sy_chan s)) \<le> (if capacity = 0 then 1 else capacity)"
    using cap by (auto simp: values_ok_def room_def is_rendezvous_def)
  moreover have "if capacity = 0 then delivered s t else t \<in> fst ` set (sy_puts s)"
    if "t < length pcs" "sy_procs s ! t = Finished (Put_Reply True)" for t
    using ok [OF that(1)] cap that(2) by (simp add: is_rendezvous_def)
  moreover have "t \<notin> fst ` set (sy_puts s)" if "t < length pcs" "sy_procs s ! t = Finished (Put_Reply False)" for t
    using ok [OF that(1)] that(2) by (simp add: fresh_def)
  ultimately show ?thesis
    using origin reach_received [OF assms(1)] unfolding origin_inv_def by blast
qed

definition handoff :: "(nat, task list \<times> bool) system" where
  "handoff = chan_run fifo_notify [1, 0, 0, 0, 1, 0] (system_new fifo_notify 0 [Put_Start (Some 7), Take_Loop])"

theorem channel_exchange_witness:
  "sy_procs handoff ! 0 = Finished (Put_Reply True) \<and> delivered handoff 0 \<and> received handoff = {#7#}"
proof -
  have "sy_procs handoff = [Finished (Put_Reply True), Finished (Take_Reply (Some 7))]" "sy_takes handoff = [Some 7]"
    by code_simp+
  moreover have "chan_reach fifo_notify 0 [Put_Start (Some 7), Take_Loop] handoff"
    unfolding handoff_def by (rule chan_run_new)
  ultimately show ?thesis
    using channel_exchange [of fifo_notify 0 "[Put_Start (Some 7), Take_Loop]" handoff]
    by (auto simp: values_of_def List.map_filter_def)
qed

text \<open>C10. No wake-up is lost among asynchronous calls: when no call can run, a take that waits has found
  the channel open and empty, and a put that waits on an open buffered channel has found it full.
  So on an open buffered channel puts and takes never wait for each other.\<close>
theorem no_lost_wakeup:
  assumes laws: "notify_laws nt W" and reach: "chan_reach nt capacity pcs s"
    and calls: "list_all entry pcs" "list_all (async_pc (chan_new capacity)) pcs"
    and quiet: "\<forall>t < length pcs. \<forall>p. sy_procs s ! t \<noteq> Running p"
  shows "(\<forall>t < length pcs. \<forall>p. sy_procs s ! t = Parked Not_Empty p \<longrightarrow> ch_queue (sy_chan s) = [] \<and> \<not> ch_closed (sy_chan s)) \<and>
    (\<forall>t < length pcs. \<forall>p. sy_procs s ! t = Parked Not_Full p \<longrightarrow>
      capacity = 0 \<or> ch_closed (sy_chan s) \<or> capacity \<le> length (ch_queue (sy_chan s))) \<and>
    \<not> (0 < capacity \<and> \<not> ch_closed (sy_chan s) \<and> (\<exists>t < length pcs. \<exists>u < length pcs. \<exists>p q.
      sy_procs s ! t = Parked Not_Empty p \<and> sy_procs s ! u = Parked Not_Full q))"
proof -
  have inv: "shape W s" "takers_due W 0 s" "putters_due W 0 s" and len: "length (sy_procs s) = length pcs"
    and cap: "ch_capacity (sy_chan s) = capacity"
    using wake_reach [OF reach laws calls] reach_origin [OF reach] reach_capacity [OF reach]
    by (auto simp: wake_inv_def origin_inv_def)
  have zero: "running P s = 0" for P
    using quiet len by (auto simp: running_def filter_empty_conv in_set_conv_nth)
  have take: "ch_queue (sy_chan s) = [] \<and> \<not> ch_closed (sy_chan s)" if "t < length pcs" "sy_procs s ! t = Parked Not_Empty p" for t p
  proof -
    have "t \<in> W (sy_not_empty s)"
      using shapeD(3) [OF inv(1), of t Not_Empty] that len by simp
    then show ?thesis
      using inv(2) by (auto simp: takers_due_def zero split: if_splits)
  qed
  moreover have put: "capacity = 0 \<or> ch_closed (sy_chan s) \<or> capacity \<le> length (ch_queue (sy_chan s))"
    if "t < length pcs" "sy_procs s ! t = Parked Not_Full p" for t p
  proof -
    have "t \<in> W (sy_not_full s)"
      using shapeD(3) [OF inv(1), of t Not_Full] that len by simp
    then show ?thesis
      using inv(3) cap by (auto simp: putters_due_def zero is_rendezvous_def)
  qed
  ultimately show ?thesis
    by fastforce
qed

definition idle :: "(nat, task list \<times> bool) system" where
  "idle = chan_run fifo_notify [0, 1, 1, 0, 2] (system_new fifo_notify 1 [Take_Loop, Put_Start (Some 7), Take_Loop])"

theorem no_lost_wakeup_witness: "ch_queue (sy_chan idle) = [] \<and> \<not> ch_closed (sy_chan idle) \<and> sy_procs idle ! 2 = Parked Not_Empty Take_Loop"
proof -
  have procs: "sy_procs idle = [Finished (Take_Reply (Some 7)), Finished (Put_Reply True), Parked Not_Empty Take_Loop]"
    by code_simp
  have "\<forall>t < 3. \<forall>p. sy_procs idle ! t \<noteq> Running p"
    by (auto simp: procs less_Suc_eq numeral_3_eq_3)
  moreover have "chan_reach fifo_notify 1 [Take_Loop, Put_Start (Some 7), Take_Loop] idle"
    unfolding idle_def by (rule chan_run_new)
  ultimately show ?thesis
    using no_lost_wakeup [OF fifo_notify_laws, of 1 "[Take_Loop, Put_Start (Some 7), Take_Loop]" idle]
    by (auto simp: procs numeral_3_eq_3)
qed

lemma stranded_rendezvous:
  "\<exists>s. chan_reach fifo_notify 0 [Put_Start (Some 1), Put_Start (Some 2), Take_Loop, Take_Loop] s \<and> \<not> ch_closed (sy_chan s) \<and>
     sy_procs s = [Finished (Put_Reply True), Parked Not_Full (Put_Claim (Some 2)), Finished (Take_Reply (Some (1::nat))), Parked Not_Empty Take_Loop]"
proof (intro exI conjI)
  let ?s = "chan_run fifo_notify [0, 0, 0, 1, 1, 2, 0, 3, 3] (system_new fifo_notify 0 [Put_Start (Some (1::nat)), Put_Start (Some 2), Take_Loop, Take_Loop])"
  show "chan_reach fifo_notify 0 [Put_Start (Some 1), Put_Start (Some 2), Take_Loop, Take_Loop] ?s"
    by (rule chan_run_new)
qed code_simp+

lemma stranded_by_close:
  "\<exists>s. chan_reach fifo_notify 1 [Put_Start (Some 1), Put_Start (Some 2), Put_Start (Some 3), Close_Once] s \<and> ch_closed (sy_chan s) \<and>
     sy_procs s = [Finished (Put_Reply True), Finished (Put_Reply False), Parked Not_Full (Put_Buffered (Some (3::nat))), Finished Close_Reply]"
proof (intro exI conjI)
  let ?s = "chan_run fifo_notify [0, 0, 1, 1, 2, 2, 3, 1] (system_new fifo_notify 1 [Put_Start (Some (1::nat)), Put_Start (Some 2), Put_Start (Some 3), Close_Once])"
  show "chan_reach fifo_notify 1 [Put_Start (Some 1), Put_Start (Some 2), Put_Start (Some 3), Close_Once] ?s"
    by (rule chan_run_new)
qed code_simp+

lemma stranded_by_blocking_put:
  "\<exists>s. chan_reach fifo_notify 1 [Take_Loop, Put_Blocking_Start (Some 1)] s \<and> ch_queue (sy_chan s) = [Some (1::nat)] \<and>
     sy_procs s = [Parked Not_Empty Take_Loop, Finished (Put_Reply True)]"
proof (intro exI conjI)
  let ?s = "chan_run fifo_notify [0, 1, 1] (system_new fifo_notify 1 [Take_Loop, Put_Blocking_Start (Some (1::nat))])"
  show "chan_reach fifo_notify 1 [Take_Loop, Put_Blocking_Start (Some 1)] ?s"
    by (rule chan_run_new)
qed code_simp+


end
