(* ===== verification/Spec2Isabelle.thy ===== *)
theory Spec2Isabelle
  imports Instant Nrepl_Spec Collections_Spec Datalog_Query_Spec Framing_Spec Channel_Wake
begin

text \<open>
  Verification of clojurust, a Clojure runtime written in Rust.

  \<^bold>\<open>The program.\<close>  Source text becomes forms in the reader (\<^verbatim>\<open>cljrs-reader\<close>: a lexer and a
  recursive-descent parser over the spans and errors of \<^verbatim>\<open>cljrs-types\<close>).  Forms are evaluated in an
  environment of namespaces, vars, dynamic bindings and local frames (\<^verbatim>\<open>cljrs-env\<close>) over values whose
  collections are those of \<^verbatim>\<open>cljrs-value\<close>.  Editors reach the runtime through an nREPL server
  (\<^verbatim>\<open>cljrs-nrepl\<close>), whose messages are bencoded (\<^verbatim>\<open>cljrs-bencode\<close>).  Programs exchange values over
  channels (\<^verbatim>\<open>cljrs-async\<close>), read byte streams through framers (\<^verbatim>\<open>cljrs-net\<close>), and keep data in a
  datalog store (\<^verbatim>\<open>cljrs-datalog-store\<close>) on top of LMDB (\<^verbatim>\<open>cljrs-lmdb\<close>).

  \<^bold>\<open>Conventions.\<close>  A fallible Rust function returns an \<open>outcome\<close>: a value, an error or a panic.  Strings
  are lists of code points with the UTF-8 widths of their characters, bytes and machine integers
  are words of their width, structs are records, enums are datatypes.  Mutable state is passed
  explicitly, and a method that changes \<open>self\<close> returns the changed record.  Code outside the sources is an
  argument: the evaluator and the clock (record \<open>host\<close>), the persistent vectors, maps and trees
  (\<open>vec_ops\<close>, \<open>map_ops\<close>, \<open>hash_ops\<close>), the database and SHA-256 (\<open>storage\<close>), and tokio's \<open>Notify\<close>
  (\<open>notify\<close>).  What is assumed of it are the named predicates \<open>evaluator_returns\<close>, \<open>vec_laws\<close>,
  \<open>hash_laws\<close>, \<open>tree_laws\<close>, \<open>sound\<close> and \<open>notify_laws\<close>; each is shown to hold for a concrete
  instance (\<open>sample_host\<close>, \<open>list_vec\<close>, \<open>sample_map_env\<close>, \<open>memory_db\<close>, \<open>fifo_notify\<close>).

  \<^bold>\<open>Theories.\<close>
  \<^item> \<open>Prelude\<close>, \<open>Rust_Numbers\<close>, \<open>Byte_Codec\<close>: the shared vocabulary, the number parsers of the Rust
    standard library that the reader calls, UTF-8, and the locale of self-delimiting byte codecs.
  \<^item> \<open>Lexer\<close> models \<^verbatim>\<open>lexer.rs\<close> and \<^verbatim>\<open>token.rs\<close>, one function per method.  \<open>Lexer_Moves\<close> describes how
    its cursor moves, and \<open>Lexer_Spec\<close> shows that every token advances it, that spans are exact, and
    that lines and columns are right.
  \<^item> \<open>Parser\<close> models \<^verbatim>\<open>parser.rs\<close> and \<^verbatim>\<open>form.rs\<close>.  \<open>Parser_Spec\<close> shows that reading always returns, that
    parsed forms are well formed and nested in their spans, and where errors and panics come from.
  \<^item> \<open>Instant\<close> models \<^verbatim>\<open>instant.rs\<close>: the calendar conversions are inverse to each other, and printed
    instants read back.
  \<^item> \<open>Bencode\<close> models the codec of \<^verbatim>\<open>cljrs-bencode\<close>, \<open>Bencode_Spec\<close> its round trip and the
    finality of a decoding.
  \<^item> \<open>Environment\<close> models the namespaces, vars and frames of \<^verbatim>\<open>env.rs\<close> and the binding stacks and output
    targets of \<^verbatim>\<open>dynamics.rs\<close> and \<^verbatim>\<open>io_target.rs\<close>.  \<open>Environment_Spec\<close> has the invariant of the namespaces
    and what lookups, bindings and captures return.
  \<^item> \<open>Nrepl\<close> models \<^verbatim>\<open>protocol.rs\<close>, \<^verbatim>\<open>server.rs\<close> and \<^verbatim>\<open>engine.rs\<close> as a step relation of the reader tasks
    and the interpreter thread.  \<open>Nrepl_Spec\<close> shows that every request gets exactly one final
    reply, that the interpreter drains its queue, and that framing does not depend on the chunks.
  \<^item> \<open>Collections\<close> models the collections and transients; \<open>Collections_Spec\<close> shows that a map value is
    the list of its entries in insertion order through every change of representation, that queues
    are first in first out, and that sorted maps stay sorted under a total comparator.
  \<^item> \<open>Datom_Codec\<close> and \<open>Datom_Codec_Spec\<close>: the order-preserving encoding of \<^verbatim>\<open>codec.rs\<close>.
  \<^item> \<open>Datalog_Store\<close> models the store of \<^verbatim>\<open>cljrs-datalog-store/src/lib.rs\<close>.  \<open>Datalog_Store_Spec\<close> shows that
    transactions refine operations on a set of datoms; \<open>Datalog_Query_Spec\<close> that searches, counts and
    slices return what the set contains.
  \<^item> \<open>Framing\<close> and \<open>Framing_Spec\<close>: the framers of \<^verbatim>\<open>frame.rs\<close>, independent of the chunks, inverse to
    their encoders, and bounded in memory.
  \<^item> \<open>Channel\<close> models \<^verbatim>\<open>channel.rs\<close> as calls that an executor interleaves.  \<open>Channel_Spec\<close> has the invariant
    of the values, \<open>Channel_Wake\<close> the wake-ups, the main properties and the calls that wait for ever.
  \<^item> This theory composes the reader and the server.

  \<^bold>\<open>Fuel and loops.\<close>  The parser, the bencode decoder and the datom decoder take fuel, one unit per
  call; \<open>read_all\<close>, \<open>decode\<close> and \<open>codec_decode\<close> give an amount that depends on the length of the input,
  and the theorems \<open>read_all_returns\<close>, \<open>decode_total\<close> and \<open>datom_decode_total\<close> show that it is enough.
  The loop of the length-prefixed framer is a partial function into options, and \<open>lp_loop_total\<close> shows
  that it returns.  Counters that wrap in Rust wrap in the model; where a property needs a bound, as the
  number of values taken from a channel, the bound is a hypothesis.

  \<^bold>\<open>Interfaces.\<close>  Locales describe what one part relies on in another: self-delimiting codecs, stream
  framers, first-in-first-out queues, maps with insertion order.  Each is interpreted on the model's own
  definitions, and the properties use the facts of the interpretations.

  \<^bold>\<open>Not modelled.\<close>  The interpreters and the builtins compute on runtime values with closures and native
  code in them.  The code emitters of the compiler rest on code generators outside the sources, and the
  garbage collector is unsafe code over raw pointers.  Sockets, files, processes, repositories, the command
  line, the shell and the bindings to Qt, the browser, AWS and Kubernetes are calls of other systems.  The
  numeric kernels need a model of floating point that the imported theories do not have.  Some parts are pure
  computation and merely have no model here: the relooper of the WebAssembly back end, the passes on the
  IR, the random number generator and CSV writer of \<^verbatim>\<open>cljrs-num\<close>, the line index and recovery of the
  language server, the configuration and task graph of projects, and the transit codec of the pod client.
  Of the modelled crates, the loading of namespaces from files, the printing of values, the builtins that
  combine channels, and the registration of builtins are left out.
\<close>

section \<open>The reader and the server together\<close>

lemma bad_radix_panics: "\<exists>p. read_all (parser_new alnum checked (lit ''99r1'') f) = Some (Panic, p)"
  by (simp add: parser_eval lex_number_def lex_radix_number_def parse_unsigned_def valid_digits_def
        digits_value_def digit36_def to_digit_def is_ascii_alphanumeric_def)

lemma enqueue_alive:
  assumes "sv_alive sv"
  shows "sv_queue (enqueue conn req sv) =
      sv_queue sv @ [\<lparr>jb_req = req, jb_conn = conn, jb_cancelled = length (sv_flags sv), jb_key = pending_key_of req\<rparr>]"
    "sv_flags (enqueue conn req sv) = sv_flags sv @ [False]" "sv_alive (enqueue conn req sv)"
    "sv_running (enqueue conn req sv) = sv_running sv" "sv_out (enqueue conn req sv) = sv_out sv"
  using assms by (cases "pending_key_of req", simp_all add: enqueue_def Let_def pending_insert_def)+

text \<open>
  C40. A client can stop the server for everyone with one message.  Nothing between the socket
  and the reader catches panics, and the reader panics on a radix outside 2 to 36: taking an
  \<open>eval\<close> request for the code \<open>99r1\<close> ends the interpreter thread, and the request is never
  answered.
\<close>

theorem bad_radix_stops_server:
  assumes "sv_alive sv" and "sv_running sv = None" and "sv_queue sv = []"
    and "rq_op req = lit ''eval''" and "rq_code req = Some (lit ''99r1'')"
    and "interp_step ho (enqueue conn req sv) sv'"
  shows "\<not> sv_alive sv' \<and> answered sv' = answered sv"
proof -
  define sv1 where "sv1 = enqueue conn req sv"
  define j where "j = \<lparr>jb_req = req, jb_conn = conn, jb_cancelled = length (sv_flags sv), jb_key = pending_key_of req\<rparr>"
  have j: "sv_queue sv1 = [j]" "jb_req j = req" "\<not> sv_flags sv1 ! jb_cancelled j"
    and sv1: "sv_alive sv1" "sv_running sv1 = None" "answered sv1 = answered sv" "sv_out sv1 = sv_out sv"
    using assms(2,3) by (simp_all add: sv1_def j_def enqueue_alive [OF assms(1)] answered_def)
  have crash: "snd (handle_op ho micros j en) = ([], Crashed)" for micros en
  proof -
    obtain p where "read_all (parser_new (ho_alnum ho) (ho_checked ho) (lit ''99r1'') (lit ''<nrepl>'')) = Some (Panic, p)"
      using bad_radix_panics by blast
    moreover have "handle_op ho micros j en = begin_eval ho j (lit ''99r1'') (lit ''<nrepl>'') en"
      by (simp add: handle_op_def j(2) assms(4) op_eval_def assms(5))
    ultimately show ?thesis by (simp add: begin_eval_def Let_def split: prod.split)
  qed
  from assms(6) [folded sv1_def] obtain micros where "sv' = start_job ho micros j (sv1\<lparr>sv_queue := []\<rparr>)"
    using j(1) sv1(2) by cases auto
  with crash [of micros "sv_engine sv1"] j(3) sv1 show ?thesis
    by (cases "handle_op ho micros j (sv_engine sv1)") (auto simp: start_job_def Let_def answered_def)
qed

theorem bad_radix_stops_server_witness:
  "\<exists>sv'. interp_step sample_host (enqueue 0 (eval_request (lit ''99r1'')) (server_new globals_new sample_thread)) sv' \<and>
     \<not> sv_alive sv' \<and> answered sv' = {#}"
proof -
  let ?sv = "server_new globals_new sample_thread :: nat server"
  let ?req = "eval_request (lit ''99r1'')"
  have sv: "sv_alive ?sv" "sv_running ?sv = None" "sv_queue ?sv = []" "answered ?sv = {#}"
    by (simp_all add: server_new_def answered_def)
  then obtain sv' where "interp_step sample_host (enqueue 0 ?req ?sv) sv'"
    using interp_step_progress [OF sample_returns, of "enqueue 0 ?req ?sv"] enqueue_alive [OF sv(1)] by auto
  with bad_radix_stops_server [OF sv(1-3) _ _ this] sv(4) show ?thesis
    by (auto simp: eval_request_def)
qed

end
